(* ===== verification/Prelude.thy ===== *)
theory Prelude
  imports Main "HOL-Library.Word"
begin

text \<open>
  What every component of the development shares: the machine types of \<^verbatim>\<open>types.h\<close>,
  the constants of \<^verbatim>\<open>param.h\<close>, \<^verbatim>\<open>mmu.h\<close> and \<^verbatim>\<open>memlayout.h\<close>, the result type
  of a kernel path with its sequencing operator and its weakest precondition, table scans, and
  the generic lemmas on lists and words.
\<close>

unbundle bit_operations_syntax

section \<open>Machine types and constants\<close>

type_synonym u8 = "8 word"
type_synonym u16 = "16 word"
type_synonym u32 = "32 word"
type_synonym bytes = "8 word list"

text \<open>The bytes of a string literal of the source, without its terminating NUL.\<close>

definition lit :: "string \<Rightarrow> bytes" where
  "lit cs = map (\<lambda>c. of_char c) cs"

lemma lit_Nil [simp]: "lit [] = []"
  and lit_Cons [simp]: "lit (c # cs) = of_char c # lit cs"
  by (simp_all add: lit_def)

lemma length_lit [simp]: "length (lit cs) = length cs"
  by (simp add: lit_def)

abbreviation (input) NPROC :: nat where "NPROC \<equiv> 64"
abbreviation (input) KSTACKSIZE :: u32 where "KSTACKSIZE \<equiv> 4096"
abbreviation (input) NOFILE :: nat where "NOFILE \<equiv> 16"
abbreviation (input) NFILE :: nat where "NFILE \<equiv> 100"
abbreviation (input) NINODE :: nat where "NINODE \<equiv> 50"
abbreviation (input) NDEV :: nat where "NDEV \<equiv> 10"
abbreviation (input) ROOTDEV :: u32 where "ROOTDEV \<equiv> 1"
abbreviation (input) MAXARG :: nat where "MAXARG \<equiv> 32"
abbreviation (input) MAXOPBLOCKS :: nat where "MAXOPBLOCKS \<equiv> 10"
abbreviation (input) LOGSIZE :: nat where "LOGSIZE \<equiv> 30"
abbreviation (input) NBUF :: nat where "NBUF \<equiv> 30"
abbreviation (input) FSSIZE :: nat where "FSSIZE \<equiv> 1000"
abbreviation (input) PGSIZE :: u32 where "PGSIZE \<equiv> 4096"

section \<open>Sleep channels and locks\<close>

text \<open>
  A sleep channel is the address of a kernel object, and a lock is such an object. The code only
  compares these addresses, so each object that is used as one has a name.
\<close>

datatype chan =
    ChProc nat            \<comment> \<open>a \<^verbatim>\<open>struct proc\<close>, by its index in \<^verbatim>\<open>ptable\<close>\<close>
  | ChTicks               \<comment> \<open>\<^verbatim>\<open>&ticks\<close>\<close>
  | ChBufLock nat         \<comment> \<open>the sleep-lock of a \<^verbatim>\<open>struct buf\<close>\<close>
  | ChBuf nat             \<comment> \<open>a \<^verbatim>\<open>struct buf\<close> waiting for the disk\<close>
  | ChInodeLock nat       \<comment> \<open>the sleep-lock of a cached inode\<close>
  | ChLog                 \<comment> \<open>\<^verbatim>\<open>&log\<close>\<close>
  | ChPipeRead u32        \<comment> \<open>\<^verbatim>\<open>&p->nread\<close>\<close>
  | ChPipeWrite u32       \<comment> \<open>\<^verbatim>\<open>&p->nwrite\<close>\<close>
  | ChInput               \<comment> \<open>\<^verbatim>\<open>&input.r\<close>\<close>

datatype lockid =
    LPtable | LTicks | LKmem | LBcache | LIde | LLog | LIcache | LFtable | LCons
  | LPipe u32
  | LSleep chan           \<comment> \<open>the spin-lock inside a sleep-lock\<close>

section \<open>Kernel paths\<close>

text \<open>
  A kernel path is the execution of one process in the kernel. It returns a value and a new
  state, or it panics with a message, or it gives up the processor in \<^verbatim>\<open>sched\<close> with the state
  it leaves behind; the \<^verbatim>\<open>struct proc\<close> of that state says whether it sleeps, yields or exits.
  \<open>Hang\<close> is a loop that never ends.
\<close>

datatype ('a, 's) outcome =
    Ret 'a 's
  | Panic string
  | Switch 's
  | Hang

text \<open>
  A step the C language does not define, such as a store past the end of an array. Where the code can
  reach one, the model stops there; a theorem of total correctness shows that it is not reached.
\<close>

abbreviation (input) undef :: "('a, 's) outcome" where "undef \<equiv> Panic ''undefined''"

fun kbind :: "('a, 's) outcome \<Rightarrow> ('a \<Rightarrow> 's \<Rightarrow> ('b, 's) outcome) \<Rightarrow> ('b, 's) outcome" where
  "kbind (Ret x s) f = f x s"
| "kbind (Panic m) f = Panic m"
| "kbind (Switch s) f = Switch s"
| "kbind Hang f = Hang"

text \<open>The path returns and its result satisfies \<open>Q\<close>: total correctness.\<close>

definition wp :: "('a, 's) outcome \<Rightarrow> ('a \<Rightarrow> 's \<Rightarrow> bool) \<Rightarrow> bool" where
  "wp m Q = (case m of Ret x s \<Rightarrow> Q x s | Panic _ \<Rightarrow> False | Switch _ \<Rightarrow> False | Hang \<Rightarrow> False)"

text \<open>If the path returns then its result satisfies \<open>Q\<close>.\<close>

definition wlp :: "('a, 's) outcome \<Rightarrow> ('a \<Rightarrow> 's \<Rightarrow> bool) \<Rightarrow> bool" where
  "wlp m Q = (case m of Ret x s \<Rightarrow> Q x s | Panic _ \<Rightarrow> True | Switch _ \<Rightarrow> True | Hang \<Rightarrow> True)"

text \<open>The state a path leaves, when it returns or gives up the processor.\<close>

fun leaves :: "('a, 's) outcome \<Rightarrow> 's option" where
  "leaves (Ret x s) = Some s"
| "leaves (Switch s) = Some s"
| "leaves (Panic m) = None"
| "leaves Hang = None"

named_theorems wp_rules "introduction rules for the weakest preconditions of the operations"

lemma kbind_assoc: "kbind (kbind m f) g = kbind m (\<lambda>x s. kbind (f x s) g)"
  by (cases m) simp_all

lemma kbind_Ret_right [simp]: "kbind m Ret = m"
  by (cases m) simp_all

lemma kbind_eq_Ret_iff:
  "kbind m f = Ret y t \<longleftrightarrow> (\<exists>x s. m = Ret x s \<and> f x s = Ret y t)"
  by (cases m) auto

lemma kbind_eq_RetE:
  assumes "kbind m f = Ret y t"
  obtains x s where "m = Ret x s" and "f x s = Ret y t"
  using assms by (auto simp: kbind_eq_Ret_iff)

lemma kbind_cong [fundef_cong]:
  assumes "m = m'" and "\<And>x s. m' = Ret x s \<Longrightarrow> f x s = g x s"
  shows "kbind m f = kbind m' g"
  using assms by (cases m') simp_all

lemma wp_Ret [simp]: "wp (Ret x s) Q = Q x s"
  and wp_Panic [simp]: "\<not> wp (Panic m) Q"
  and wp_Switch [simp]: "\<not> wp (Switch s) Q"
  and wp_Hang [simp]: "\<not> wp Hang Q"
  by (simp_all add: wp_def)

lemma wlp_Ret [simp]: "wlp (Ret x s) Q = Q x s"
  and wlp_Panic [simp]: "wlp (Panic m) Q"
  and wlp_Switch [simp]: "wlp (Switch s) Q"
  and wlp_Hang [simp]: "wlp Hang Q"
  by (simp_all add: wlp_def)

lemma wp_kbind [simp]: "wp (kbind m f) Q = wp m (\<lambda>x s. wp (f x s) Q)"
  by (cases m) simp_all

lemma wlp_kbind [simp]: "wlp (kbind m f) Q = wlp m (\<lambda>x s. wlp (f x s) Q)"
  by (cases m) simp_all

lemma wp_mono: "wp m P \<Longrightarrow> (\<And>x s. P x s \<Longrightarrow> Q x s) \<Longrightarrow> wp m Q"
  by (cases m) simp_all

lemma wlp_mono: "wlp m P \<Longrightarrow> (\<And>x s. P x s \<Longrightarrow> Q x s) \<Longrightarrow> wlp m Q"
  by (cases m) simp_all

lemma wlp_conj: "wlp m P \<Longrightarrow> wlp m Q \<Longrightarrow> wlp m (\<lambda>x s. P x s \<and> Q x s)"
  by (cases m) simp_all

lemma wp_imp_wlp: "wp m Q \<Longrightarrow> wlp m Q"
  by (cases m) simp_all

lemma wp_iff: "wp m Q \<longleftrightarrow> (\<exists>x s. m = Ret x s \<and> Q x s)"
  by (cases m) auto

lemma wlp_iff: "wlp m Q \<longleftrightarrow> (\<forall>x s. m = Ret x s \<longrightarrow> Q x s)"
  by (cases m) auto

lemma wlpD: "wlp m Q \<Longrightarrow> m = Ret x s \<Longrightarrow> Q x s"
  by simp

lemma wp_if: "wp (if c then m else n) Q = (if c then wp m Q else wp n Q)"
  and wlp_if: "wlp (if c then m else n) Q = (if c then wlp m Q else wlp n Q)"
  by simp_all

section \<open>Loops\<close>

text \<open>A loop over a fixed range whose body has no early exit.\<close>

fun kfor :: "'i list \<Rightarrow> ('i \<Rightarrow> 's \<Rightarrow> (unit, 's) outcome) \<Rightarrow> 's \<Rightarrow> (unit, 's) outcome" where
  "kfor [] f s = Ret () s"
| "kfor (i # is) f s = kbind (f i s) (\<lambda>_ s. kfor is f s)"

text \<open>A loop over a fixed range that stops at the first index where the body gives a result.\<close>

fun kfind :: "'i list \<Rightarrow> ('i \<Rightarrow> 's \<Rightarrow> ('a option, 's) outcome) \<Rightarrow> 's \<Rightarrow> ('a option, 's) outcome" where
  "kfind [] f s = Ret None s"
| "kfind (i # is) f s = kbind (f i s) (\<lambda>r s. case r of Some x \<Rightarrow> Ret (Some x) s | None \<Rightarrow> kfind is f s)"

lemma wp_kfor:
  assumes "I 0 s" and "\<And>i s. i < length is \<Longrightarrow> I i s \<Longrightarrow> wp (f (is ! i) s) (\<lambda>_ s'. I (Suc i) s')"
  shows "wp (kfor is f s) (\<lambda>_ s'. I (length is) s')"
  using assms
proof (induction "is" arbitrary: s I)
  case (Cons x xs)
  have "wp (f x s) (\<lambda>_ s'. I (Suc 0) s')" using Cons.prems(2) [of 0 s] Cons.prems(1) by simp
  then have "wp (f x s) (\<lambda>_ s. wp (kfor xs f s) (\<lambda>_ s'. I (Suc (length xs)) s'))"
  proof (rule wp_mono)
    fix u t assume "I (Suc 0) t"
    then show "wp (kfor xs f t) (\<lambda>_ s'. I (Suc (length xs)) s')"
      using Cons.prems(2) by (intro Cons.IH [where I = "\<lambda>i. I (Suc i)"]) force+
  qed
  then show ?case by simp
qed simp

section \<open>Table scans\<close>

text \<open>
  The loop \<^verbatim>\<open>for(p = table; p < end; p++) if(P(p)) goto found;\<close> over a fixed table, as the index of
  the first entry that satisfies the test.
\<close>

fun find_idx :: "('a \<Rightarrow> bool) \<Rightarrow> 'a list \<Rightarrow> nat option" where
  "find_idx P [] = None"
| "find_idx P (x # xs) = (if P x then Some 0 else map_option Suc (find_idx P xs))"

lemma find_idx_None_iff: "find_idx P xs = None \<longleftrightarrow> (\<forall>x \<in> set xs. \<not> P x)"
  by (induction xs) auto

lemma find_idx_SomeD:
  "find_idx P xs = Some i \<Longrightarrow> i < length xs \<and> P (xs ! i) \<and> (\<forall>j<i. \<not> P (xs ! j))"
proof (induction xs arbitrary: i)
  case Nil
  then show ?case by simp
next
  case (Cons x xs)
  show ?case
  proof (cases "P x")
    case True
    with Cons.prems show ?thesis by simp
  next
    case False
    with Cons.prems obtain k where k: "find_idx P xs = Some k" "i = Suc k" by auto
    from Cons.IH [OF k(1)] False k(2) show ?thesis
      by (auto simp: less_Suc_eq_0_disj)
  qed
qed

lemma find_idx_ex: "i < length xs \<Longrightarrow> P (xs ! i) \<Longrightarrow> \<exists>k. find_idx P xs = Some k"
  by (metis find_idx_None_iff nth_mem option.exhaust)

lemma find_idx_cong: "(\<And>x. x \<in> set xs \<Longrightarrow> P x = Q x) \<Longrightarrow> find_idx P xs = find_idx Q xs"
  by (induction xs) auto

lemma find_idx_eqI:
  assumes "i < length xs" "P (xs ! i)" "\<And>j. j < i \<Longrightarrow> \<not> P (xs ! j)"
  shows "find_idx P xs = Some i"
proof -
  from assms(1,2) obtain k where k: "find_idx P xs = Some k"
    using find_idx_ex by blast
  note d = find_idx_SomeD [OF k]
  with assms have "\<not> k < i" "\<not> i < k" by auto
  with k show ?thesis by simp
qed

section \<open>Words\<close>

lemma unat_of_nat_u32 [simp]: "n < 2 ^ 32 \<Longrightarrow> unat (of_nat n :: u32) = n"
  by (simp add: unat_of_nat take_bit_nat_eq_self)

lemma unat_add_u32: "unat a + unat b < 2 ^ 32 \<Longrightarrow> unat (a + b :: u32) = unat a + unat b"
  by (simp add: unat_word_ariths)

lemma unat_sub_u32: "b \<le> a \<Longrightarrow> unat (a - b :: u32) = unat a - unat b"
  by (simp add: unat_sub)

lemma unat_lt_2p32 [simp]: "unat (a :: u32) < 4294967296"
  using unsigned_less [of a] by simp

lemma unat_add_wrap_u32: "2 ^ 32 \<le> unat a + unat b \<Longrightarrow> unat (a + b :: u32) = unat a + unat b - 2 ^ 32"
proof -
  assume "2 ^ 32 \<le> unat a + unat b"
  moreover have "unat a + unat b - 4294967296 < 4294967296" using unat_lt_2p32 [of a] unat_lt_2p32 [of b] by linarith
  ultimately show ?thesis by (simp add: unat_word_ariths le_mod_geq)
qed

lemma add_overflow_u32: "a + b < a \<longleftrightarrow> unat a + unat b \<ge> 2 ^ 32" for a b :: u32
proof (cases "unat a + unat b < 2 ^ 32")
  case True
  then show ?thesis by (simp add: word_less_nat_alt unat_add_u32)
next
  case False
  then have "\<not> unat a + unat b < 4294967296" by simp
  then have "unat a + unat b - 4294967296 < unat a" using unat_lt_2p32 [of b] by linarith
  with False show ?thesis by (simp add: word_less_nat_alt unat_add_wrap_u32)
qed

lemma unat_minus_Suc: "x \<noteq> a \<Longrightarrow> unat (x - a) = Suc (unat (x - (a + 1 :: u32)))"
  using unat_minus_one [of "x - a"] unat_gt_0 [of "x - a"] by (simp add: diff_diff_eq)

text \<open>A word is its bytes put together again.\<close>

lemma bytes_of_u32:
  fixes v :: u32
  shows "(ucast (ucast v :: u8) :: u32) OR push_bit 8 (ucast (ucast (drop_bit 8 v) :: u8)) OR
   push_bit 16 (ucast (ucast (drop_bit 16 v) :: u8)) OR
   push_bit 24 (ucast (ucast (drop_bit 24 v) :: u8)) = v" (is "?l = v")
proof (rule bit_word_eqI)
  fix n assume "n < LENGTH(32)"
  then consider "n < 8" | "8 \<le> n" "n < 16" | "16 \<le> n" "n < 24" | "24 \<le> n" "n < 32"
    by fastforce
  then show "bit ?l n = bit v n"
    by cases (auto simp: bit_simps)
qed

lemma bytes_of_u16:
  "(ucast (ucast (v :: u16) :: u8) :: u16) OR push_bit 8 (ucast (ucast (drop_bit 8 v) :: u8)) = v"
  by (rule bit_word_eqI) (auto simp: bit_simps)

section \<open>Lists\<close>

lemma add_in_block:
  fixes a :: nat
  assumes "j < d - a mod d"
  shows "(a + j) div d = a div d \<and> (a + j) mod d = a mod d + j"
proof -
  define q r where "q = a div d" and "r = a mod d"
  then have e: "a + j = (r + j) + q * d" "r + j < d" using assms by auto
  show ?thesis unfolding q_def [symmetric] r_def [symmetric] e(1) using e(2) div_mult_self1 [of d "r + j" q] mod_mult_self1 [of "r + j" q d] by simp
qed

lemma nth_list_update_if: "i < length xs \<Longrightarrow> xs[i := v] ! j = (if i = j then v else xs ! j)"
  by simp

lemma sint_small: "n < 2 ^ 31 \<Longrightarrow> sint (of_nat n :: u32) = int n"
proof -
  assume "n < 2 ^ 31"
  then have "signed_take_bit 31 (int n) = int n"
    by (intro signed_take_bit_int_eq_self) auto
  then show ?thesis by (simp add: signed_of_nat)
qed

lemma sint_unat: "unat x < 2 ^ 31 \<Longrightarrow> sint (x :: u32) = int (unat x)"
  using sint_small [of "unat x"] by simp

end
