(* ===== verification/Kbase.thy ===== *)
theory Kbase
  imports Prelude
begin

text \<open>
  The state every kernel component works on: the processors, the process table of
  \<^verbatim>\<open>proc.h\<close> and \<^verbatim>\<open>proc.c\<close>, the tick counter and the console. The records of the
  other components extend \<open>kbase\<close>, so that an operation defined here applies to all of them.
  Also here: the spin-lock discipline of the running path, and \<^verbatim>\<open>sched\<close>, \<^verbatim>\<open>sleep\<close>,
  \<^verbatim>\<open>wakeup\<close>, \<^verbatim>\<open>yield\<close>, \<^verbatim>\<open>kill\<close> and the scheduler's loop body.
\<close>

section \<open>Processes\<close>

datatype procstate = UNUSED | EMBRYO | SLEEPING | RUNNABLE | RUNNING | ZOMBIE

record trapframe =
  tf_edi :: u32
  tf_esi :: u32
  tf_ebp :: u32
  tf_oesp :: u32
  tf_ebx :: u32
  tf_edx :: u32
  tf_ecx :: u32
  tf_eax :: u32
  tf_gs :: u16
  tf_fs :: u16
  tf_es :: u16
  tf_ds :: u16
  tf_trapno :: u32
  tf_err :: u32
  tf_eip :: u32
  tf_cs :: u16
  tf_eflags :: u32
  tf_esp :: u32
  tf_ss :: u16

record kcontext =
  cx_edi :: u32
  cx_esi :: u32
  cx_ebx :: u32
  cx_ebp :: u32
  cx_eip :: u32

text \<open>
  \<^verbatim>\<open>struct proc\<close>. The pointers \<^verbatim>\<open>parent\<close>, \<^verbatim>\<open>ofile[i]\<close> and \<^verbatim>\<open>cwd\<close> are
  indices into \<^verbatim>\<open>ptable\<close>, \<^verbatim>\<open>ftable\<close> and \<^verbatim>\<open>icache\<close>, with \<^const>\<open>None\<close> for a null
  pointer. \<^verbatim>\<open>tf\<close> and \<^verbatim>\<open>context\<close> point into the kernel stack; the model keeps the
  structures they point to. The fields \<^verbatim>\<open>creation_time\<close>, \<^verbatim>\<open>total_time\<close> and \<^verbatim>\<open>end_time\<close> are never used and left out.
\<close>

record proc =
  p_sz :: u32
  p_pgdir :: u32
  p_kstack :: u32
  p_state :: procstate
  p_pid :: int
  p_parent :: "nat option"
  p_tf :: trapframe
  p_context :: kcontext
  p_chan :: "chan option"
  p_killed :: bool
  p_ofile :: "nat option list"
  p_cwd :: "nat option"
  p_name :: bytes
  p_ctime :: u32
  p_etime :: u32
  p_ttime :: u32

text \<open>Addresses the linker script and the assembly files define.\<close>

record linkmap =
  sym_end :: u32
  sym_data :: u32
  sym_forkret :: u32
  sym_trapret :: u32

text \<open>
  The console: \<^verbatim>\<open>panicked\<close>, \<^verbatim>\<open>cons.locking\<close> and the \<^verbatim>\<open>input\<close> ring of \<^verbatim>\<open>console.c\<close>, the \<^verbatim>\<open>uart\<close> flag of
  \<^verbatim>\<open>uart.c\<close>, the \<^verbatim>\<open>shift\<close> state of \<^verbatim>\<open>kbd.c\<close>, and the devices behind them: the bytes sent to the serial
  port, the cursor register and the text memory of the screen.
\<close>

record console =
  c_panicked :: bool
  c_locking :: bool
  c_uart :: bool
  c_shift :: u32
  c_buf :: bytes
  c_r :: u32
  c_w :: u32
  c_e :: u32
  c_serial :: bytes
  c_pos :: u16
  c_crt :: "nat \<Rightarrow> u16"

record kbase =
  link :: linkmap
  me :: nat                     \<comment> \<open>the processor that runs the path\<close>
  cpus :: "nat option list"     \<comment> \<open>\<^verbatim>\<open>cpus[i].proc\<close>\<close>
  held :: "lockid list"         \<comment> \<open>the spin-locks processor \<open>me\<close> holds, the last acquired first\<close>
  cr3 :: u32                    \<comment> \<open>its page-table register\<close>
  kpgdir :: u32                 \<comment> \<open>the kernel's own page table, \<^verbatim>\<open>kpgdir\<close> of \<^verbatim>\<open>vm.c\<close>\<close>
  ts_esp0 :: u32                \<comment> \<open>its \<^verbatim>\<open>ts.esp0\<close>\<close>
  procs :: "proc list"          \<comment> \<open>\<^verbatim>\<open>ptable.proc\<close>\<close>
  initproc :: "nat option"
  nextpid :: int
  ticks :: u32
  cons :: console

definition myproc :: "'x kbase_scheme \<Rightarrow> nat option" where
  "myproc s = cpus s ! me s"

abbreviation upd_proc :: "nat \<Rightarrow> (proc \<Rightarrow> proc) \<Rightarrow> 'x kbase_scheme \<Rightarrow> 'x kbase_scheme" where
  "upd_proc i f s \<equiv> s\<lparr>procs := (procs s)[i := f (procs s ! i)]\<rparr>"

section \<open>Spin-locks as the running path sees them\<close>

text \<open>
  The contract of \<^verbatim>\<open>spinlock.c\<close> for the path that runs: \<^verbatim>\<open>acquire\<close> panics when this
  processor already holds the lock and \<^verbatim>\<open>release\<close> when it does not; otherwise they add the lock to
  and take it from what the processor holds. \<^verbatim>\<open>mycpu()->ncli\<close> is the length of \<open>held\<close>.
\<close>

definition acquire :: "lockid \<Rightarrow> 'x kbase_scheme \<Rightarrow> (unit, 'x kbase_scheme) outcome" where
  "acquire l s = (if l \<in> set (held s) then Panic ''acquire'' else Ret () (s\<lparr>held := l # held s\<rparr>))"

definition release :: "lockid \<Rightarrow> 'x kbase_scheme \<Rightarrow> (unit, 'x kbase_scheme) outcome" where
  "release l s = (if l \<notin> set (held s) then Panic ''release''
     else Ret () (s\<lparr>held := remove1 l (held s)\<rparr>))"

section \<open>Scheduling\<close>

definition V2P :: "u32 \<Rightarrow> u32" where
  "V2P a = a - 0x80000000"

definition P2V :: "u32 \<Rightarrow> u32" where
  "P2V a = a + 0x80000000"

text \<open>
  \<^verbatim>\<open>switchuvm\<close>: what a later memory access or trap depends on is the page-table register and the
  kernel stack in the task state; the descriptor of the task-state segment is constant.
\<close>

definition switchuvm :: "nat option \<Rightarrow> 'x kbase_scheme \<Rightarrow> (unit, 'x kbase_scheme) outcome" where
  "switchuvm po s = (case po of None \<Rightarrow> Panic ''switchuvm: no process''
     | Some p \<Rightarrow>
        if p_kstack (procs s ! p) = 0 then Panic ''switchuvm: no kstack''
        else if p_pgdir (procs s ! p) = 0 then Panic ''switchuvm: no pgdir''
        else Ret () (s\<lparr>ts_esp0 := p_kstack (procs s ! p) + KSTACKSIZE,
                       cr3 := V2P (p_pgdir (procs s ! p))\<rparr>))"

text \<open>
  \<^verbatim>\<open>sched\<close> checks the lock and the state of the process and switches to the scheduler. Its last
  check, that interrupts are off, cannot fail here: they are off while \<^verbatim>\<open>ncli\<close> is not 0.
  A null pointer that the kernel follows is a fault in the kernel, which \<^verbatim>\<open>trap\<close> turns into
  \<^verbatim>\<open>panic("trap")\<close>.
\<close>

definition sched :: "'x kbase_scheme \<Rightarrow> ('a, 'x kbase_scheme) outcome" where
  "sched s =
     (if LPtable \<notin> set (held s) then Panic ''sched ptable.lock''
      else if length (held s) \<noteq> 1 then Panic ''sched locks''
      else case myproc s of None \<Rightarrow> Panic ''trap''
      | Some p \<Rightarrow>
          if p_state (procs s ! p) = RUNNING then Panic ''sched running''
          else Switch s)"

definition yield :: "'x kbase_scheme \<Rightarrow> (unit, 'x kbase_scheme) outcome" where
  "yield s =
     kbind (acquire LPtable s) (\<lambda>_ s. case myproc s of None \<Rightarrow> Panic ''trap''
       | Some p \<Rightarrow> sched (upd_proc p (\<lambda>q. q\<lparr>p_state := RUNNABLE\<rparr>) s))"

definition wakeup1 :: "chan \<Rightarrow> 'x kbase_scheme \<Rightarrow> 'x kbase_scheme" where
  "wakeup1 ch s = s\<lparr>procs := map (\<lambda>p. if p_state p = SLEEPING \<and> p_chan p = Some ch
                                     then p\<lparr>p_state := RUNNABLE\<rparr> else p) (procs s)\<rparr>"

definition wakeup :: "chan \<Rightarrow> 'x kbase_scheme \<Rightarrow> (unit, 'x kbase_scheme) outcome" where
  "wakeup ch s = kbind (acquire LPtable s) (\<lambda>_ s. release LPtable (wakeup1 ch s))"

text \<open>
  \<^verbatim>\<open>sleep\<close> up to its call of \<^verbatim>\<open>sched\<close>, and what it does when the process runs again.
\<close>

definition sleep :: "chan \<Rightarrow> lockid \<Rightarrow> 'x kbase_scheme \<Rightarrow> ('a, 'x kbase_scheme) outcome" where
  "sleep ch lk s = (case myproc s of None \<Rightarrow> Panic ''sleep''
     | Some p \<Rightarrow>
        kbind (if lk \<noteq> LPtable then kbind (acquire LPtable s) (\<lambda>_ s. release lk s) else Ret () s)
        (\<lambda>_ s. sched (upd_proc p (\<lambda>q. q\<lparr>p_chan := Some ch, p_state := SLEEPING\<rparr>) s)))"

definition sleep_resume :: "lockid \<Rightarrow> 'x kbase_scheme \<Rightarrow> (unit, 'x kbase_scheme) outcome" where
  "sleep_resume lk s = (case myproc s of None \<Rightarrow> Panic ''sleep''
     | Some p \<Rightarrow>
        let s = upd_proc p (\<lambda>q. q\<lparr>p_chan := None\<rparr>) s
        in if lk \<noteq> LPtable then kbind (release LPtable s) (\<lambda>_ s. acquire lk s) else Ret () s)"

definition kill :: "int \<Rightarrow> 'x kbase_scheme \<Rightarrow> (int, 'x kbase_scheme) outcome" where
  "kill pid s =
     kbind (acquire LPtable s) (\<lambda>_ s.
     case find_idx (\<lambda>p. p_pid p = pid) (procs s) of
       Some i \<Rightarrow>
         let s = upd_proc i (\<lambda>q. q\<lparr>p_killed := True\<rparr>) s;
             s = (if p_state (procs s ! i) = SLEEPING
                  then upd_proc i (\<lambda>q. q\<lparr>p_state := RUNNABLE\<rparr>) s else s)
         in kbind (release LPtable s) (\<lambda>_ s. Ret 0 s)
     | None \<Rightarrow> kbind (release LPtable s) (\<lambda>_ s. Ret (-1) s))"

section \<open>The zero state\<close>

text \<open>Static data starts zeroed: the process table and the counters at boot.\<close>

definition tf_zero :: trapframe where
  "tf_zero = \<lparr>tf_edi = 0, tf_esi = 0, tf_ebp = 0, tf_oesp = 0, tf_ebx = 0, tf_edx = 0, tf_ecx = 0,
     tf_eax = 0, tf_gs = 0, tf_fs = 0, tf_es = 0, tf_ds = 0, tf_trapno = 0, tf_err = 0, tf_eip = 0,
     tf_cs = 0, tf_eflags = 0, tf_esp = 0, tf_ss = 0\<rparr>"

definition cx_zero :: kcontext where
  "cx_zero = \<lparr>cx_edi = 0, cx_esi = 0, cx_ebx = 0, cx_ebp = 0, cx_eip = 0\<rparr>"

definition proc_zero :: proc where
  "proc_zero = \<lparr>p_sz = 0, p_pgdir = 0, p_kstack = 0, p_state = UNUSED, p_pid = 0, p_parent = None,
     p_tf = tf_zero, p_context = cx_zero, p_chan = None, p_killed = False,
     p_ofile = replicate NOFILE None, p_cwd = None, p_name = replicate 16 0,
     p_ctime = 0, p_etime = 0, p_ttime = 0\<rparr>"

definition cons_boot :: console where
  "cons_boot = \<lparr>c_panicked = False, c_locking = False, c_uart = False, c_shift = 0,
     c_buf = replicate 128 0, c_r = 0, c_w = 0, c_e = 0, c_serial = [], c_pos = 0, c_crt = (\<lambda>_. 0)\<rparr>"

definition kbase_boot :: kbase where
  "kbase_boot = \<lparr>link = \<lparr>sym_end = 0x801154a8, sym_data = 0x80108000, sym_forkret = 0x80103a00,
       sym_trapret = 0x80105a2f\<rparr>,
     me = 0, cpus = [None], held = [], cr3 = 0, kpgdir = 0, ts_esp0 = 0,
     procs = replicate NPROC proc_zero, initproc = None, nextpid = 1, ticks = 0, cons = cons_boot\<rparr>"

text \<open>The same table with one process, which runs.\<close>

definition kbase_run :: kbase where
  "kbase_run = kbase_boot\<lparr>cpus := [Some 0],
     procs := (replicate NPROC proc_zero)[0 := proc_zero\<lparr>p_state := RUNNING, p_pid := 1\<rparr>], nextpid := 2\<rparr>"

section \<open>What the running path can rely on\<close>

lemma acquire_ok [simp]: "l \<notin> set (held s) \<Longrightarrow> acquire l s = Ret () (s\<lparr>held := l # held s\<rparr>)"
  by (simp add: acquire_def)

lemma release_ok [simp]:
  "l \<in> set (held s) \<Longrightarrow> release l s = Ret () (s\<lparr>held := remove1 l (held s)\<rparr>)"
  by (simp add: release_def)

text \<open>
  What a wake-up does to the table: sleeping processes may become runnable and nothing else
  changes. The relation is a preorder, and it keeps every process that does not sleep.
\<close>

definition wake :: "chan \<Rightarrow> proc list \<Rightarrow> proc list" where
  "wake ch ps = map (\<lambda>p. if p_state p = SLEEPING \<and> p_chan p = Some ch
                          then p\<lparr>p_state := RUNNABLE\<rparr> else p) ps"

definition woken1 :: "proc \<Rightarrow> proc \<Rightarrow> bool" where
  "woken1 p q \<longleftrightarrow> q = p \<or> (p_state p = SLEEPING \<and> q = p\<lparr>p_state := RUNNABLE\<rparr>)"

definition woken :: "proc list \<Rightarrow> proc list \<Rightarrow> bool" where
  "woken ps qs \<longleftrightarrow> list_all2 woken1 ps qs"

lemma wakeup_ok [simp]:
  "LPtable \<notin> set (held s) \<Longrightarrow> wakeup ch s = Ret () (s\<lparr>procs := wake ch (procs s)\<rparr>)"
  by (simp add: wakeup_def wakeup1_def wake_def)

lemma woken_refl [simp, intro]: "woken ps ps"
  by (simp add: woken_def woken1_def list.rel_refl)

lemma woken_trans: "woken ps qs \<Longrightarrow> woken qs rs \<Longrightarrow> woken ps rs"
  unfolding woken_def
  by (rule list_all2_trans [where ?P1.0 = woken1 and ?P2.0 = woken1]) (auto simp: woken1_def)

lemma woken_wake [simp, intro]: "woken ps (wake ch ps)"
  by (simp add: woken_def wake_def list_all2_map2 woken1_def list.rel_refl)

lemma woken_length: "woken ps qs \<Longrightarrow> length qs = length ps"
  by (simp add: woken_def list_all2_lengthD)

lemma woken_nth: "woken ps qs \<Longrightarrow> i < length ps \<Longrightarrow> woken1 (ps ! i) (qs ! i)"
  by (simp add: woken_def list_all2_nthD)

lemma woken_awake:
  "woken ps qs \<Longrightarrow> i < length ps \<Longrightarrow> p_state (ps ! i) \<noteq> SLEEPING \<Longrightarrow> qs ! i = ps ! i"
  by (auto dest!: woken_nth simp: woken1_def)

text \<open>
  A path that runs on behalf of a process and holds no spin-lock, which is where a file-system
  operation starts and ends.
\<close>

definition running :: "'x kbase_scheme \<Rightarrow> bool" where
  "running s \<longleftrightarrow> held s = [] \<and>
     (\<exists>p. myproc s = Some p \<and> p < length (procs s) \<and> p_state (procs s ! p) = RUNNING)"

definition curproc :: "'x kbase_scheme \<Rightarrow> proc" where
  "curproc s = procs s ! the (myproc s)"

lemma running_held [simp]: "running s \<Longrightarrow> held s = []"
  by (simp add: running_def)

lemma running_woken:
  assumes "running s" "woken (procs s) ps"
  shows "running (s\<lparr>procs := ps\<rparr>)" "curproc (s\<lparr>procs := ps\<rparr>) = curproc s"
  using assms by (auto simp: running_def curproc_def myproc_def woken_length woken_awake)

text \<open>\<^verbatim>\<open>kill\<close> marks the first process with the identifier and makes it runnable when it sleeps.\<close>

definition killed :: "proc \<Rightarrow> proc" where
  "killed q = q\<lparr>p_killed := True, p_state := (if p_state q = SLEEPING then RUNNABLE else p_state q)\<rparr>"

lemma kill_ok:
  assumes "LPtable \<notin> set (held s)"
  shows "kill pid s = (case find_idx (\<lambda>p. p_pid p = pid) (procs s) of
     Some i \<Rightarrow> Ret 0 (upd_proc i killed s) | None \<Rightarrow> Ret (-1) s)"
  using assms
  by (auto simp: kill_def killed_def Let_def dest!: find_idx_SomeD split: option.splits)

end
