(* ===== verification/Sleeplock.thy ===== *)
theory Sleeplock
  imports Kbase
begin

text \<open>
  Sleep-locks, \<^verbatim>\<open>sleeplock.c\<close>. The operations take the lock as the channel that stands for its
  address, a function that reads it from the state and one that updates it.
\<close>

record sleeplock =
  sl_locked :: bool
  sl_pid :: int

definition sl_free :: sleeplock where
  "sl_free = \<lparr>sl_locked = False, sl_pid = 0\<rparr>"

type_synonym ('l, 's) getter = "'s \<Rightarrow> 'l"
type_synonym ('l, 's) updater = "('l \<Rightarrow> 'l) \<Rightarrow> 's \<Rightarrow> 's"

text \<open>
  \<^verbatim>\<open>acquiresleep\<close>: the path goes to sleep when the lock is taken, and starts again at the test
  when it is woken.
\<close>

definition acquiresleep :: "chan \<Rightarrow> (sleeplock, 'x kbase_scheme) getter
    \<Rightarrow> (sleeplock, 'x kbase_scheme) updater \<Rightarrow> 'x kbase_scheme \<Rightarrow> (unit, 'x kbase_scheme) outcome"
where
  "acquiresleep ch lk upd s =
     kbind (acquire (LSleep ch) s) (\<lambda>_ s.
     if sl_locked (lk s) then sleep ch (LSleep ch) s
     else case myproc s of None \<Rightarrow> Panic ''trap''
     | Some p \<Rightarrow>
         release (LSleep ch) (upd (\<lambda>l. l\<lparr>sl_locked := True, sl_pid := p_pid (procs s ! p)\<rparr>) s))"

definition releasesleep :: "chan \<Rightarrow> (sleeplock, 'x kbase_scheme) updater \<Rightarrow> 'x kbase_scheme
    \<Rightarrow> (unit, 'x kbase_scheme) outcome" where
  "releasesleep ch upd s =
     kbind (acquire (LSleep ch) s) (\<lambda>_ s.
     kbind (wakeup ch (upd (\<lambda>l. l\<lparr>sl_locked := False, sl_pid := 0\<rparr>) s)) (\<lambda>_ s.
     release (LSleep ch) s))"

definition holdingsleep :: "chan \<Rightarrow> (sleeplock, 'x kbase_scheme) getter \<Rightarrow> 'x kbase_scheme
    \<Rightarrow> (bool, 'x kbase_scheme) outcome" where
  "holdingsleep ch lk s =
     kbind (acquire (LSleep ch) s) (\<lambda>_ s.
     case myproc s of None \<Rightarrow> (if sl_locked (lk s) then Panic ''trap''
                              else kbind (release (LSleep ch) s) (\<lambda>_ s. Ret False s))
     | Some p \<Rightarrow>
         let r = (sl_locked (lk s) \<and> sl_pid (lk s) = p_pid (procs s ! p))
         in kbind (release (LSleep ch) s) (\<lambda>_ s. Ret r s))"

end
