(* ===== verification/Memory.thy ===== *)
theory Memory
  imports Kbase
begin

text \<open>
  The kernel's byte-addressed memory: 32-bit loads and stores, filling, the page arithmetic of
  \<^verbatim>\<open>mmu.h\<close> and \<^verbatim>\<open>memlayout.h\<close>, and when two accesses do not meet.
\<close>

section \<open>Loads and stores\<close>

type_synonym mem = "u32 \<Rightarrow> u8"

text \<open>A 32-bit load and store, little endian.\<close>

definition load32 :: "mem \<Rightarrow> u32 \<Rightarrow> u32" where
  "load32 m a = (ucast (m a) :: u32) OR push_bit 8 (ucast (m (a + 1))) OR
     push_bit 16 (ucast (m (a + 2))) OR push_bit 24 (ucast (m (a + 3)))"

definition store32 :: "u32 \<Rightarrow> u32 \<Rightarrow> mem \<Rightarrow> mem" where
  "store32 a v m = m(a := ucast v, a + 1 := ucast (drop_bit 8 v),
     a + 2 := ucast (drop_bit 16 v), a + 3 := ucast (drop_bit 24 v))"

text \<open>\<^verbatim>\<open>stosb\<close>: \<open>n\<close> copies of a byte from an address on.\<close>

fun stosb :: "u32 \<Rightarrow> u8 \<Rightarrow> nat \<Rightarrow> mem \<Rightarrow> mem" where
  "stosb a c 0 m = m"
| "stosb a c (Suc n) m = stosb (a + 1) c n (m(a := c))"

declare stosb.simps [simp del]

section \<open>Pages\<close>

definition PGROUNDUP :: "u32 \<Rightarrow> u32" where
  "PGROUNDUP sz = (sz + PGSIZE - 1) AND NOT (PGSIZE - 1)"

definition PGROUNDDOWN :: "u32 \<Rightarrow> u32" where
  "PGROUNDDOWN a = a AND NOT (PGSIZE - 1)"

abbreviation (input) PHYSTOP :: u32 where "PHYSTOP \<equiv> 0xE000000"
abbreviation (input) KERNBASE :: u32 where "KERNBASE \<equiv> 0x80000000"

section \<open>Accesses that do not meet\<close>

lemma addr_neq: "(a::u32) + 1 \<noteq> a" "a + 2 \<noteq> a" "a + 3 \<noteq> a" "a + 1 \<noteq> a + 2"
 "a + 1 \<noteq> a + 3" "a + 2 \<noteq> a + 3"
  by simp_all

lemma load32_store32 [simp]: "load32 (store32 a v m) a = v"
  by (simp add: load32_def store32_def addr_neq bytes_of_u32)

lemma unat_m1: "unat (- 1 :: u32) = 4294967295"
  by (simp add: unsigned_minus_1_eq_mask mask_eq_exp_minus_1)

lemma stosb_apply: "n \<le> 2 ^ 32 \<Longrightarrow> stosb a c n m x = (if unat (x - a) < n then c else m x)"
proof (induction n arbitrary: a m)
  case 0
  then show ?case by (simp add: stosb.simps)
next
  case (Suc n)
  show ?case
  proof (cases "x = a")
    case True
    with Suc show ?thesis by (simp add: stosb.simps unat_m1)
  next
    case False
    with Suc show ?thesis by (simp add: stosb.simps unat_minus_Suc [OF False])
  qed
qed

lemma store32_other: "4 \<le> unat (x - a) \<Longrightarrow> store32 a v m x = m x"
  by (auto simp: store32_def)


lemma unat_diff_wrap: "unat (x - a :: u32) = (if unat a \<le> unat x then unat x - unat a else unat x + 4294967296 - unat a)"
  by (simp add: unat_sub_if')

lemma div_eq_chunk_iff:
  fixes x v n :: nat
  assumes "v mod n = 0" "0 < n"
  shows "x div n = v div n \<longleftrightarrow> v \<le> x \<and> x < v + n"
proof -
  have v: "v div n * n = v" using assms(1) by auto
  have "x div n = v div n \<longleftrightarrow> v div n * n \<le> x \<and> x < Suc (v div n) * n"
    using assms(2) by (metis div_nat_eqI dividend_less_times_div mult.commute times_div_less_eq_dividend mult_Suc_right)
  then show ?thesis using v by (simp add: add.commute)
qed

lemma chunk_nat:
  fixes x v :: nat
  assumes "v mod n = 0" "N mod n = 0" "v < N" "0 < n"
  shows "(if v \<le> x then x - v else x + N - v) < n \<longleftrightarrow> x div n = v div n"
proof -
  have "v + n \<le> N"
  proof -
    obtain q k where q: "v = n * q" "N = n * k" using assms(1,2) by (metis mod_0_imp_dvd dvd_def)
    with assms have "Suc q \<le> k" by simp
    then have "n * Suc q \<le> n * k" by (rule mult_le_mono2)
    with q show ?thesis by simp
  qed
  then show ?thesis using div_eq_chunk_iff [OF assms(1,4), of x] by auto
qed

lemma in_page_iff: "unat v mod 4096 = 0 \<Longrightarrow> unat (x - v :: u32) < 4096 \<longleftrightarrow> unat x div 4096 = unat v div 4096"
  using chunk_nat [of "unat v" 4096 4294967296 "unat x"] by (simp add: unat_diff_wrap)

lemma in_word_iff: "unat v mod 4 = 0 \<Longrightarrow> unat (x - v :: u32) < 4 \<longleftrightarrow> unat x div 4 = unat v div 4"
  using chunk_nat [of "unat v" 4 4294967296 "unat x"] by (simp add: unat_diff_wrap)

end
