(* ===== verification/Kalloc.thy ===== *)
theory Kalloc
  imports Memory
begin

text \<open>
  The physical page allocator, \<^verbatim>\<open>kalloc.c\<close>, over the byte-addressed memory of the kernel. The
  free list is threaded through the free pages themselves, as in the code; \<open>kmem_inv\<close> relates it
  to the list of free pages. The allocator's contract is the locale \<open>page_allocator\<close>.
\<close>

section \<open>State and operations\<close>

record kmem = kbase +
  mem :: mem
  use_lock :: bool
  freelist :: u32               \<comment> \<open>0 for the null pointer\<close>

definition kfree :: "u32 \<Rightarrow> 'x kmem_scheme \<Rightarrow> (unit, 'x kmem_scheme) outcome" where
  "kfree v s =
     (if v mod PGSIZE \<noteq> 0 \<or> v < sym_end (link s) \<or> PHYSTOP \<le> V2P v then Panic ''kfree''
      else let s = s\<lparr>mem := stosb v 1 4096 (mem s)\<rparr> in
      kbind (if use_lock s then acquire LKmem s else Ret () s) (\<lambda>_ s.
      let s = s\<lparr>mem := store32 v (freelist s) (mem s)\<rparr>;
          s = s\<lparr>freelist := v\<rparr>
      in if use_lock s then release LKmem s else Ret () s))"

definition kalloc :: "'x kmem_scheme \<Rightarrow> (u32, 'x kmem_scheme) outcome" where
  "kalloc s =
     kbind (if use_lock s then acquire LKmem s else Ret () s) (\<lambda>_ s.
     let r = freelist s;
         s = (if r \<noteq> 0 then s\<lparr>freelist := load32 (mem s) r\<rparr> else s)
     in kbind (if use_lock s then release LKmem s else Ret () s) (\<lambda>_ s. Ret r s))"

text \<open>
  A page the allocator may hold: aligned, above the kernel image and below \<^verbatim>\<open>PHYSTOP\<close>.
\<close>

definition kpage :: "'x kmem_scheme \<Rightarrow> u32 \<Rightarrow> bool" where
  "kpage s v \<longleftrightarrow> v mod PGSIZE = 0 \<and> sym_end (link s) \<le> v \<and> V2P v < PHYSTOP"

lemma V2P_PHYSTOP: "V2P v < PHYSTOP \<Longrightarrow> 2147483648 \<le> unat v \<and> unat v < 2382364672"
  by (auto simp: V2P_def word_less_nat_alt unat_sub_if' split: if_splits)

lemma kfree_Ret_range: "kfree v s = Ret x t \<Longrightarrow> unat v < 2382364672"
  using V2P_PHYSTOP [of v] by (auto simp: kfree_def split: if_splits)

text \<open>The loop of \<^verbatim>\<open>freerange\<close>. It ends because \<^verbatim>\<open>kfree\<close> panics at \<^verbatim>\<open>PHYSTOP\<close>, before \<^verbatim>\<open>p\<close> can wrap.\<close>

function freerange_loop :: "u32 \<Rightarrow> u32 \<Rightarrow> 'x kmem_scheme \<Rightarrow> (unit, 'x kmem_scheme) outcome" where
  "freerange_loop p vend s =
     (if p + PGSIZE \<le> vend then kbind (kfree p s) (\<lambda>_ s. freerange_loop (p + PGSIZE) vend s)
      else Ret () s)"
  by pat_completeness auto
termination
proof (relation "measure (\<lambda>(p, vend, s). 2 ^ 32 - unat p)", simp)
  fix p vend :: u32 and s :: "'x kmem_scheme" and x t
  assume "kfree p s = Ret x t"
  then have "unat p < 2382364672" by (rule kfree_Ret_range)
  then show "((p + PGSIZE, vend, t), (p, vend, s)) \<in> measure (\<lambda>(p, vend, s). 2 ^ 32 - unat p)"
    by (simp add: unat_add_u32)
qed

declare freerange_loop.simps [simp del]

definition freerange :: "u32 \<Rightarrow> u32 \<Rightarrow> 'x kmem_scheme \<Rightarrow> (unit, 'x kmem_scheme) outcome" where
  "freerange vstart vend s = freerange_loop (PGROUNDUP vstart) vend s"

definition kinit1 :: "u32 \<Rightarrow> u32 \<Rightarrow> 'x kmem_scheme \<Rightarrow> (unit, 'x kmem_scheme) outcome" where
  "kinit1 vstart vend s = freerange vstart vend (s\<lparr>use_lock := False\<rparr>)"

definition kinit2 :: "u32 \<Rightarrow> u32 \<Rightarrow> 'x kmem_scheme \<Rightarrow> (unit, 'x kmem_scheme) outcome" where
  "kinit2 vstart vend s = kbind (freerange vstart vend s) (\<lambda>_ s. Ret () (s\<lparr>use_lock := True\<rparr>))"

section \<open>The free list\<close>

text \<open>The list that starts at \<open>p\<close> in memory \<open>m\<close> holds the pages \<open>ps\<close> in this order.\<close>

fun flist :: "mem \<Rightarrow> u32 \<Rightarrow> u32 list \<Rightarrow> bool" where
  "flist m p [] \<longleftrightarrow> p = 0"
| "flist m p (q # qs) \<longleftrightarrow> p = q \<and> q \<noteq> 0 \<and> flist m (load32 m q) qs"

definition kmem_inv :: "'x kmem_scheme \<Rightarrow> u32 list \<Rightarrow> bool" where
  "kmem_inv s ps \<longleftrightarrow> flist (mem s) (freelist s) ps \<and> distinct ps \<and> (\<forall>p \<in> set ps. kpage s p)
     \<and> LKmem \<notin> set (held s)"

abbreviation same_page :: "u32 \<Rightarrow> u32 \<Rightarrow> bool" where
  "same_page a b \<equiv> unat a div 4096 = unat b div 4096"

lemma kpage_facts: "kpage s v \<Longrightarrow> unat v mod 4096 = 0 \<and> v \<noteq> 0"
  using V2P_PHYSTOP [of v] by (auto simp: kpage_def unat_mod word_unat_eq_iff)

lemma kpage_same_page_iff: "kpage s p \<Longrightarrow> kpage s v \<Longrightarrow> same_page p v \<longleftrightarrow> p = v"
  by (metis kpage_facts word_unat_eq_iff div_mult_mod_eq)

lemma load32_page_cong:
  assumes "unat p mod 4096 = 0" "\<And>a. same_page a p \<Longrightarrow> m a = m' a"
  shows "load32 m p = load32 m' p"
proof -
  have "same_page (p + k) p" if "k \<in> {0,1,2,3}" for k
  proof -
    have "unat k \<le> 3" using that by auto
    then show ?thesis using in_page_iff [OF assms(1), of "p + k"] by simp
  qed
  from this [of 0] this [of 1] this [of 2] this [of 3] assms(2) show ?thesis
    by (simp add: load32_def)
qed

lemma flist_frame:
  assumes "flist m p ps" "\<And>q. q \<in> set ps \<Longrightarrow> load32 m' q = load32 m q"
  shows "flist m' p ps"
  using assms by (induction ps arbitrary: p) auto


section \<open>Correctness\<close>

lemma kfree_Ret:
  assumes "kpage s v" "LKmem \<notin> set (held s)"
  shows "kfree v s = Ret () (s\<lparr>mem := store32 v (freelist s) (stosb v 1 4096 (mem s)), freelist := v\<rparr>)"
  using assms by (auto simp: kpage_def kfree_def acquire_def release_def Let_def not_less not_le)

lemma kfree_panic: "\<not> kpage s v \<Longrightarrow> kfree v s = Panic ''kfree''"
  by (auto simp: kpage_def kfree_def not_less not_le)

lemma kalloc_Ret:
  assumes "LKmem \<notin> set (held s)"
  shows "kalloc s = Ret (freelist s)
    (if freelist s \<noteq> 0 then s\<lparr>freelist := load32 (mem s) (freelist s)\<rparr> else s)"
  using assms by (simp add: kalloc_def acquire_def release_def Let_def)

lemma kfree_mem_frame:
  assumes "unat v mod 4096 = 0" "\<not> same_page a v"
  shows "store32 v w (stosb v 1 4096 m) a = m a"
proof -
  have "\<not> unat (a - v) < 4096" using in_page_iff [OF assms(1)] assms(2) by simp
  then show ?thesis by (simp add: store32_other stosb_apply)
qed

lemma kpage_update [simp]:
  "kpage (s\<lparr>mem := m\<rparr>) = kpage s" "kpage (s\<lparr>freelist := f\<rparr>) = kpage s"
  "kpage (s\<lparr>held := h\<rparr>) = kpage s"
  by (simp_all add: kpage_def fun_eq_iff)

lemma load32_kfree_other:
  assumes "kpage s q" "kpage s v" "q \<noteq> v"
  shows "load32 (store32 v w (stosb v 1 4096 m)) q = load32 m q"
proof (rule load32_page_cong)
  show "unat q mod 4096 = 0" using kpage_facts [OF assms(1)] by simp
  fix a assume "same_page a q"
  then have "\<not> same_page a v" using kpage_same_page_iff [OF assms(1,2)] assms(3) by simp
  then show "store32 v w (stosb v 1 4096 m) a = m a"
    using kpage_facts [OF assms(2)] by (simp add: kfree_mem_frame)
qed

lemma kmem_inv_kfree:
  assumes inv: "kmem_inv s ps" and v: "kpage s v" "v \<notin> set ps"
  shows "kmem_inv (s\<lparr>mem := store32 v (freelist s) (stosb v 1 4096 (mem s)), freelist := v\<rparr>) (v # ps)"
proof -
  have "load32 (store32 v (freelist s) (stosb v 1 4096 (mem s))) q = load32 (mem s) q"
    if "q \<in> set ps" for q
    using inv v that by (intro load32_kfree_other [of s]) (auto simp: kmem_inv_def)
  then have "flist (store32 v (freelist s) (stosb v 1 4096 (mem s))) (freelist s) ps"
    using inv flist_frame unfolding kmem_inv_def by blast
  with inv v kpage_facts [OF v(1)] show ?thesis by (simp add: kmem_inv_def)
qed

lemma wp_kfree [wp_rules]:
  assumes "kmem_inv s ps" "kpage s v" "v \<notin> set ps"
    and "\<And>s'. kmem_inv s' (v # ps) \<Longrightarrow> link s' = link s
      \<Longrightarrow> (\<And>a. \<not> same_page a v \<Longrightarrow> mem s' a = mem s a) \<Longrightarrow> Q () s'"
  shows "wp (kfree v s) Q"
  using assms kmem_inv_kfree [OF assms(1-3)] kpage_facts [OF assms(2)]
  by (simp add: kfree_Ret kmem_inv_def kfree_mem_frame)

lemma wp_kalloc_Nil:
  assumes "kmem_inv s []" "Q 0 s" shows "wp (kalloc s) Q"
  using assms by (simp add: kalloc_Ret kmem_inv_def)

lemma wp_kalloc_Cons:
  assumes "kmem_inv s (p # ps)"
    and "\<And>s'. kmem_inv s' ps \<Longrightarrow> mem s' = mem s \<Longrightarrow> link s' = link s \<Longrightarrow> Q p s'"
  shows "wp (kalloc s) Q"
  using assms by (auto simp: kalloc_Ret kmem_inv_def kpage_def)

section \<open>The interface of a page allocator\<close>

text \<open>
  A client of an allocator asks for pages and gives back pages it owns. \<open>alloc_run\<close> runs such
  a sequence of requests and keeps the set of pages the client owns.
\<close>

datatype 'p request = Alloc | Free 'p

fun alloc_run :: "('s \<Rightarrow> ('p, 's) outcome) \<Rightarrow> ('p \<Rightarrow> 's \<Rightarrow> (unit, 's) outcome) \<Rightarrow> 'p \<Rightarrow>
    'p request list \<Rightarrow> 'p set \<Rightarrow> 's \<Rightarrow> ('p set, 's) outcome" where
  "alloc_run al fr null [] own s = Ret own s"
| "alloc_run al fr null (Alloc # rs) own s =
     kbind (al s) (\<lambda>p s. alloc_run al fr null rs (if p = null then own else insert p own) s)"
| "alloc_run al fr null (Free p # rs) own s =
     (if p \<in> own then kbind (fr p s) (\<lambda>_ s. alloc_run al fr null rs (own - {p}) s)
      else alloc_run al fr null rs own s)"

locale page_allocator =
  fixes al :: "'s \<Rightarrow> ('p, 's) outcome"
    and fr :: "'p \<Rightarrow> 's \<Rightarrow> (unit, 's) outcome"
    and null :: 'p
    and inv :: "'s \<Rightarrow> 'p list \<Rightarrow> bool"
    and ok :: "'s \<Rightarrow> 'p \<Rightarrow> bool"
  assumes al_Nil: "inv s [] \<Longrightarrow> wp (al s) (\<lambda>p s'. p = null \<and> s' = s)"
    and al_Cons: "inv s (p # ps) \<Longrightarrow> wp (al s) (\<lambda>q s'. q = p \<and> inv s' ps \<and> (\<forall>x. ok s' x = ok s x))"
    and fr_ok: "inv s ps \<Longrightarrow> ok s p \<Longrightarrow> p \<notin> set ps \<Longrightarrow>
          wp (fr p s) (\<lambda>_ s'. inv s' (p # ps) \<and> (\<forall>x. ok s' x = ok s x))"
    and inv_distinct: "inv s ps \<Longrightarrow> distinct ps"
    and inv_ok: "inv s ps \<Longrightarrow> p \<in> set ps \<Longrightarrow> ok s p \<and> p \<noteq> null"
begin

text \<open>
  The pages a client owns and the pages on the free list stay disjoint, and together they are always
  the same pages: none is lost, and none is handed out twice.
\<close>

lemma run_partition:
  assumes "inv s ps" "own \<inter> set ps = {}" "\<And>p. p \<in> own \<Longrightarrow> ok s p"
  shows "wp (alloc_run al fr null rs own s)
    (\<lambda>own' s'. \<exists>ps'. inv s' ps' \<and> own' \<inter> set ps' = {} \<and> own' \<union> set ps' = own \<union> set ps)"
  using assms
proof (induction rs arbitrary: own s ps)
  case Nil
  then show ?case by auto
next
  case (Cons r rs)
  note prems = Cons.prems and IH = Cons.IH
  show ?case
  proof (cases r)
    case Alloc
    show ?thesis
    proof (cases ps)
      case Nil
      with prems(1) have "wp (al s) (\<lambda>p s'. p = null \<and> s' = s)" by (simp add: al_Nil)
      then show ?thesis
        unfolding Alloc alloc_run.simps wp_kbind by (rule wp_mono) (use IH [OF prems] in simp)
    next
      case (Cons p qs)
      have p: "p \<noteq> null" "p \<notin> set qs" "ok s p"
        using inv_ok [OF prems(1), of p] inv_distinct [OF prems(1)] Cons by auto
      from prems(1) Cons have "wp (al s) (\<lambda>q s'. q = p \<and> inv s' qs \<and> (\<forall>x. ok s' x = ok s x))"
        by (simp add: al_Cons)
      then show ?thesis
        unfolding Alloc alloc_run.simps wp_kbind
      proof (rule wp_mono)
        fix q s' assume q: "q = p \<and> inv s' qs \<and> (\<forall>x. ok s' x = ok s x)"
        have e: "insert p own \<union> set qs = own \<union> set ps" using Cons by auto
        have "wp (alloc_run al fr null rs (insert p own) s')
          (\<lambda>own' s'. \<exists>ps'. inv s' ps' \<and> own' \<inter> set ps' = {} \<and> own' \<union> set ps' = insert p own \<union> set qs)"
          by (rule IH) (use q p prems(2,3) Cons in auto)
        with q p(1) show "wp (alloc_run al fr null rs (if q = null then own else insert q own) s')
          (\<lambda>own' s'. \<exists>ps'. inv s' ps' \<and> own' \<inter> set ps' = {} \<and> own' \<union> set ps' = own \<union> set ps)"
          unfolding e by simp
      qed
    qed
  next
    case (Free p)
    show ?thesis
    proof (cases "p \<in> own")
      case True
      with prems have "wp (fr p s) (\<lambda>_ s'. inv s' (p # ps) \<and> (\<forall>x. ok s' x = ok s x))"
        by (intro fr_ok) auto
      then have "wp (fr p s) (\<lambda>_ s'. wp (alloc_run al fr null rs (own - {p}) s')
          (\<lambda>own' s'. \<exists>ps'. inv s' ps' \<and> own' \<inter> set ps' = {} \<and> own' \<union> set ps' = own \<union> set ps))"
      proof (rule wp_mono)
        fix x s' assume q: "inv s' (p # ps) \<and> (\<forall>x. ok s' x = ok s x)"
        have e: "(own - {p}) \<union> set (p # ps) = own \<union> set ps" using True by auto
        have "wp (alloc_run al fr null rs (own - {p}) s')
          (\<lambda>own' s'. \<exists>ps'. inv s' ps' \<and> own' \<inter> set ps' = {} \<and> own' \<union> set ps' = (own - {p}) \<union> set (p # ps))"
          by (rule IH) (use q prems(2,3) in auto)
        then show "wp (alloc_run al fr null rs (own - {p}) s')
          (\<lambda>own' s'. \<exists>ps'. inv s' ps' \<and> own' \<inter> set ps' = {} \<and> own' \<union> set ps' = own \<union> set ps)"
          unfolding e .
      qed
      with True Free show ?thesis by simp
    next
      case False
      with Free IH [OF prems] show ?thesis by simp
    qed
  qed
qed

end

interpretation ka: page_allocator kalloc kfree 0 kmem_inv kpage
proof
  fix s :: "'a kmem_scheme" and p ps
  show "wp (kalloc s) (\<lambda>p s'. p = 0 \<and> s' = s)" if "kmem_inv s []"
    using that by (rule wp_kalloc_Nil) simp
  show "wp (kalloc s) (\<lambda>q s'. q = p \<and> kmem_inv s' ps \<and> (\<forall>x. kpage s' x = kpage s x))"
    if "kmem_inv s (p # ps)"
    using that by (rule wp_kalloc_Cons) (simp add: kpage_def)
  show "wp (kfree p s) (\<lambda>_ s'. kmem_inv s' (p # ps) \<and> (\<forall>x. kpage s' x = kpage s x))"
    if "kmem_inv s ps" "kpage s p" "p \<notin> set ps"
    using that by (rule wp_kfree) (simp add: kpage_def)
  show "distinct ps" if "kmem_inv s ps" using that by (simp add: kmem_inv_def)
  show "kpage s p \<and> p \<noteq> 0" if "kmem_inv s ps" "p \<in> set ps"
    using that kpage_facts [of s p] by (simp add: kmem_inv_def)
qed

section \<open>Initialisation\<close>

lemma PGROUNDUP_unat:
  assumes "unat a + 4095 < 2 ^ 32"
  shows "unat (PGROUNDUP a) = (unat a + 4095) div 4096 * 4096"
proof -
  have "PGROUNDUP a = (a + 4095) AND NOT (mask 12)"
    by (simp add: PGROUNDUP_def mask_eq_exp_minus_1 add.commute)
  also have "\<dots> = push_bit 12 (drop_bit 12 (a + 4095))"
    by (rule bit_word_eqI) (auto simp: bit_simps)
  finally have "PGROUNDUP a = (a + 4095) div 4096 * 4096"
    by (simp add: push_bit_eq_mult drop_bit_eq_div)
  moreover have "unat (a + 4095) div 4096 * 4096 < 4294967296"
    using unat_lt_2p32 [of "a + 4095"] div_times_less_eq_dividend [of "unat (a + 4095)" 4096]
    by linarith
  ultimately have "unat (PGROUNDUP a) = unat (a + 4095) div 4096 * 4096"
    by (simp add: unat_word_ariths(2) unat_div)
  moreover have "unat (a + 4095) = unat a + 4095" using assms by (subst unat_add_u32) auto
  ultimately show ?thesis by simp
qed

definition whole_pages :: "u32 \<Rightarrow> u32 \<Rightarrow> u32 set" where
  "whole_pages p vend = {a. unat a mod 4096 = 0 \<and> p \<le> a \<and> unat a + 4096 \<le> unat vend}"

lemma whole_pages_step:
  assumes "unat p mod 4096 = 0" "unat p + 4096 \<le> unat vend" 
  shows "whole_pages p vend = insert p (whole_pages (p + 4096) vend)"
    and "p \<notin> whole_pages (p + 4096) vend"
proof -
  have u: "unat (p + 4096) = unat p + 4096"
    using assms(2) unat_lt_2p32 [of vend] by (subst unat_add_u32) (simp_all del: unat_lt_2p32)
  show "whole_pages p vend = insert p (whole_pages (p + 4096) vend)"
  proof (rule set_eqI)
    fix a :: u32
    have "unat p < unat a \<longleftrightarrow> unat p + 4096 \<le> unat a" if "unat a mod 4096 = 0"
    proof -
      from that assms(1) obtain i j where "unat p = 4096 * i" "unat a = 4096 * j"
        by (auto simp: mod_eq_0_iff_dvd elim!: dvdE)
      then show ?thesis by auto
    qed
    then show "a \<in> whole_pages p vend \<longleftrightarrow> a \<in> insert p (whole_pages (p + 4096) vend)"
      using assms u by (auto simp: whole_pages_def word_le_nat_alt word_unat_eq_iff le_less)
  qed
  show "p \<notin> whole_pages (p + 4096) vend"
    by (simp add: whole_pages_def word_le_nat_alt u)
qed

lemma kpageI:
  assumes "unat p mod 4096 = 0" "sym_end (link s) \<le> p" "2147483648 \<le> unat p" "unat p < 2382364672"
  shows "kpage s p"
proof -
  have "p mod 4096 = 0" using assms(1) by (simp add: word_unat_eq_iff unat_mod)
  moreover have "unat (V2P p) = unat p - 2147483648"
    using assms(3) by (simp add: V2P_def unat_sub_if')
  ultimately show ?thesis using assms(2-4) by (simp add: kpage_def word_less_nat_alt)
qed

lemma freerange_loop_spec:
  assumes "kmem_inv s ps" "unat p mod 4096 = 0" "sym_end (link s) \<le> p" "KERNBASE \<le> p"
    and "p \<le> P2V PHYSTOP" "vend \<le> P2V PHYSTOP" "set ps \<inter> whole_pages p vend = {}"
  shows "wp (freerange_loop p vend s)
     (\<lambda>_ s'. \<exists>qs. kmem_inv s' (qs @ ps) \<and> set qs = whole_pages p vend)"
  using assms
proof (induction p vend s arbitrary: ps rule: freerange_loop.induct)
  case (1 p vend s)
  note IH = 1(1) and prems = 1(2-)
  have lim: "unat vend \<le> 2382364672" "unat p \<le> 2382364672" "2147483648 \<le> unat p"
    using prems(4-6) by (simp_all add: P2V_def word_le_nat_alt)
  then have u: "unat (p + 4096) = unat p + 4096" by (subst unat_add_u32) auto
  show ?case
  proof (cases "p + 4096 \<le> vend")
    case False
    then have "whole_pages p vend = {}"
      using u by (auto simp: whole_pages_def word_le_nat_alt)
    with False prems(1) show ?thesis by (simp add: freerange_loop.simps)
  next
    case True
    then have le: "unat p + 4096 \<le> unat vend" using u by (simp add: word_le_nat_alt)
    note step = whole_pages_step [OF prems(2) le]
    have page: "kpage s p" using prems(2,3) lim le by (intro kpageI) simp_all
    have p: "p \<notin> set ps" using prems(7) step(1) by auto
    have ret: "kfree p s = Ret () (s\<lparr>mem := store32 p (freelist s) (stosb p 1 4096 (mem s)), freelist := p\<rparr>)"
      (is "_ = Ret () ?s")
      using page prems(1) by (intro kfree_Ret) (auto simp: kmem_inv_def)
    have "wp (freerange_loop (p + 4096) vend ?s)
       (\<lambda>_ s'. \<exists>qs. kmem_inv s' (qs @ p # ps) \<and> set qs = whole_pages (p + 4096) vend)"
    proof (rule IH [OF True ret])
      show "kmem_inv ?s (p # ps)" by (rule kmem_inv_kfree [OF prems(1) page p])
      show "unat (p + 4096) mod 4096 = 0" using u prems(2) by simp
      show "sym_end (link ?s) \<le> p + 4096" "KERNBASE \<le> p + 4096"
        using prems(3,4) u by (simp_all add: word_le_nat_alt)
      show "p + 4096 \<le> P2V PHYSTOP" "vend \<le> P2V PHYSTOP" using True prems(6) by auto
      show "set (p # ps) \<inter> whole_pages (p + 4096) vend = {}" using prems(7) step by auto
    qed
    then have "wp (freerange_loop (p + 4096) vend ?s)
       (\<lambda>_ s'. \<exists>qs. kmem_inv s' (qs @ ps) \<and> set qs = whole_pages p vend)"
    proof (rule wp_mono, elim exE conjE)
      fix s' qs assume "kmem_inv s' (qs @ p # ps)" "set qs = whole_pages (p + 4096) vend"
      then have "kmem_inv s' ((qs @ [p]) @ ps)" "set (qs @ [p]) = whole_pages p vend"
        by (simp_all add: step(1))
      then show "\<exists>qs. kmem_inv s' (qs @ ps) \<and> set qs = whole_pages p vend" by blast
    qed
    with True show ?thesis by (subst freerange_loop.simps) (simp add: ret)
  qed
qed


section \<open>Properties\<close>

text \<open>
  C33. The pages a client of \<^verbatim>\<open>kalloc\<close> and \<^verbatim>\<open>kfree\<close> owns and the pages on the free list
  stay disjoint, and together they are always the same pages, over every sequence of requests in
  which the client frees only pages it owns: no page is lost or handed out twice.
\<close>

theorem kalloc_kfree_partition:
  assumes "kmem_inv s ps" "own \<inter> set ps = {}" "\<And>p. p \<in> own \<Longrightarrow> kpage s p"
  shows "wp (alloc_run kalloc kfree 0 rs own s)
    (\<lambda>own' s'. \<exists>ps'. kmem_inv s' ps' \<and> own' \<inter> set ps' = {} \<and> own' \<union> set ps' = own \<union> set ps)"
  using assms by (rule ka.run_partition)

definition kmem_boot :: kmem where
  "kmem_boot = kbase.extend kbase_boot (kmem.fields (\<lambda>_. 0) True 0)"

lemma kmem_boot_inv: "kmem_inv kmem_boot []"
  by (simp add: kmem_boot_def kmem_inv_def kbase.defs kmem.defs kbase_boot_def)

lemma kmem_boot_sym_end: "sym_end (link kmem_boot) = 0x801154a8"
  by (simp add: kmem_boot_def kbase.defs kmem.defs kbase_boot_def)

theorem kalloc_kfree_partition_witness:
  "wp (alloc_run kalloc kfree 0 [Free 0x80400000, Alloc, Alloc] {0x80400000, 0x80401000} kmem_boot)
    (\<lambda>own' s'. \<exists>ps'. kmem_inv s' ps' \<and> own' \<inter> set ps' = {}
       \<and> own' \<union> set ps' = {0x80400000, 0x80401000})"
proof -
  have "kpage kmem_boot p" if "p \<in> {0x80400000, 0x80401000}" for p
    using that kmem_boot_sym_end by (auto simp: kpage_def V2P_def)
  with kalloc_kfree_partition [OF kmem_boot_inv, of "{0x80400000, 0x80401000}"
      "[Free 0x80400000, Alloc, Alloc]"]
  show ?thesis by simp
qed

text \<open>
  C34. \<^verbatim>\<open>freerange\<close>, and so \<^verbatim>\<open>kinit1\<close> and \<^verbatim>\<open>kinit2\<close>, returns and puts exactly the whole
  pages between \<^verbatim>\<open>vstart\<close> and \<^verbatim>\<open>vend\<close> in front of the free list.
\<close>

theorem freerange_frees_whole_pages:
  assumes "kmem_inv s ps" "sym_end (link s) \<le> vstart" "KERNBASE \<le> vstart"
    and "vstart \<le> P2V PHYSTOP" "vend \<le> P2V PHYSTOP"
    and "set ps \<inter> whole_pages (PGROUNDUP vstart) vend = {}"
  shows "wp (freerange vstart vend s)
     (\<lambda>_ s'. \<exists>qs. kmem_inv s' (qs @ ps) \<and> set qs = whole_pages (PGROUNDUP vstart) vend)"
proof -
  have lim: "unat vstart \<le> 2382364672" "2147483648 \<le> unat vstart"
    using assms(3,4) by (simp_all add: P2V_def word_le_nat_alt)
  then have u: "unat (PGROUNDUP vstart) = (unat vstart + 4095) div 4096 * 4096"
    by (intro PGROUNDUP_unat) simp
  have up: "unat vstart \<le> unat (PGROUNDUP vstart)" "unat (PGROUNDUP vstart) \<le> 2382364672"
    unfolding u using lim div_le_mono [of "unat vstart + 4095" 2382368767 4096] by auto
  show ?thesis unfolding freerange_def
  proof (rule freerange_loop_spec [OF assms(1)])
    show "unat (PGROUNDUP vstart) mod 4096 = 0" unfolding u by simp
    show "sym_end (link s) \<le> PGROUNDUP vstart" "KERNBASE \<le> PGROUNDUP vstart"
      using assms(2,3) up by (simp_all add: word_le_nat_alt)
    show "PGROUNDUP vstart \<le> P2V PHYSTOP" using up by (simp add: P2V_def word_le_nat_alt)
  qed (use assms(5,6) in simp_all)
qed

theorem freerange_frees_whole_pages_witness:
  "wp (freerange 0x80400000 0x80402000 kmem_boot)
     (\<lambda>_ s'. \<exists>qs. kmem_inv s' (qs @ []) \<and> set qs = whole_pages (PGROUNDUP 0x80400000) 0x80402000)"
  using kmem_boot_inv by (rule freerange_frees_whole_pages) (simp_all add: kmem_boot_sym_end P2V_def)

end
