(* ===== verification/Bio.thy ===== *)
theory Bio
  imports Sleeplock Kalloc
begin

text \<open>
  The disk driver \<^verbatim>\<open>ide.c\<close> and the buffer cache \<^verbatim>\<open>bio.c\<close>. The cache is the doubly linked list
  of the code: \<open>bufs\<close> holds the \<^verbatim>\<open>NBUF\<close> buffers and, last, the list head.
\<close>

section \<open>State\<close>

abbreviation (input) BSIZE :: nat where "BSIZE \<equiv> 512"
abbreviation (input) HEAD :: nat where "HEAD \<equiv> 30"

text \<open>
  \<^verbatim>\<open>struct buf\<close>; the two bits of \<^verbatim>\<open>flags\<close>, \<^verbatim>\<open>B_VALID\<close> and \<^verbatim>\<open>B_DIRTY\<close>, are fields of their
  own, and the queue linked through \<^verbatim>\<open>qnext\<close> is the list \<open>idequeue\<close>.
\<close>

record buf =
  b_valid :: bool
  b_dirty :: bool
  b_dev :: u32
  b_blockno :: u32
  b_lock :: sleeplock
  b_refcnt :: nat
  b_prev :: nat
  b_next :: nat
  b_data :: bytes

record bio = kmem +
  bufs :: "buf list"
  idequeue :: "nat list"
  havedisk1 :: bool
  ide_fault :: bool                    \<comment> \<open>the drive reports an error in its status\<close>
  disk :: "u32 \<Rightarrow> u32 \<Rightarrow> bytes"        \<comment> \<open>drive (0 or 1) and sector\<close>
  dwrites :: "(u32 \<times> u32 \<times> bytes) list" \<comment> \<open>the sectors written so far, in order\<close>

abbreviation upd_buf :: "nat \<Rightarrow> (buf \<Rightarrow> buf) \<Rightarrow> 'x bio_scheme \<Rightarrow> 'x bio_scheme" where
  "upd_buf i f s \<equiv> s\<lparr>bufs := (bufs s)[i := f (bufs s ! i)]\<rparr>"

abbreviation acquiresleep_buf :: "nat \<Rightarrow> 'x bio_scheme \<Rightarrow> (unit, 'x bio_scheme) outcome" where
  "acquiresleep_buf b \<equiv> acquiresleep (ChBufLock b) (\<lambda>s. b_lock (bufs s ! b))
     (\<lambda>f. upd_buf b (\<lambda>x. x\<lparr>b_lock := f (b_lock x)\<rparr>))"

abbreviation releasesleep_buf :: "nat \<Rightarrow> 'x bio_scheme \<Rightarrow> (unit, 'x bio_scheme) outcome" where
  "releasesleep_buf b \<equiv> releasesleep (ChBufLock b) (\<lambda>f. upd_buf b (\<lambda>x. x\<lparr>b_lock := f (b_lock x)\<rparr>))"

abbreviation holdingsleep_buf :: "nat \<Rightarrow> 'x bio_scheme \<Rightarrow> (bool, 'x bio_scheme) outcome" where
  "holdingsleep_buf b \<equiv> holdingsleep (ChBufLock b) (\<lambda>s. b_lock (bufs s ! b))"

section \<open>The disk driver\<close>

text \<open>
  \<^verbatim>\<open>idewait\<close> spins until the drive is ready, which it is between requests; then it reports the
  error bits if asked to.
\<close>

definition idewait :: "bool \<Rightarrow> 'x bio_scheme \<Rightarrow> int" where
  "idewait checkerr s = (if checkerr \<and> ide_fault s then -1 else 0)"

text \<open>
  \<^verbatim>\<open>idestart\<close>: the drive is \<^verbatim>\<open>dev & 1\<close> and a block is one sector. A write hands the data over at
  once; the data of a read is fetched by the interrupt handler.
\<close>

definition idestart :: "nat \<Rightarrow> 'x bio_scheme \<Rightarrow> (unit, 'x bio_scheme) outcome" where
  "idestart i s =
     (let b = bufs s ! i; d = b_dev b AND 1; sector = b_blockno b in
      if 1000 \<le> sector then Panic ''incorrect blockno''
      else if b_dirty b
      then Ret () (s\<lparr>disk := (disk s)(d := (disk s d)(sector := b_data b)),
                     dwrites := dwrites s @ [(d, sector, b_data b)]\<rparr>)
      else Ret () s)"

definition ideintr :: "'x bio_scheme \<Rightarrow> (unit, 'x bio_scheme) outcome" where
  "ideintr s =
     kbind (acquire LIde s) (\<lambda>_ s.
     case idequeue s of
       [] \<Rightarrow> release LIde s
     | i # q \<Rightarrow>
         let s = s\<lparr>idequeue := q\<rparr>;
             b = bufs s ! i;
             s = (if \<not> b_dirty b \<and> idewait True s \<ge> 0
                  then upd_buf i (\<lambda>x. x\<lparr>b_data := disk s (b_dev x AND 1) (b_blockno x)\<rparr>) s else s);
             s = upd_buf i (\<lambda>x. x\<lparr>b_valid := True\<rparr>) s;
             s = upd_buf i (\<lambda>x. x\<lparr>b_dirty := False\<rparr>) s
         in kbind (wakeup (ChBuf i) s) (\<lambda>_ s.
            kbind (if q \<noteq> [] then idestart (hd q) s else Ret () s) (\<lambda>_ s.
            release LIde s)))"

text \<open>
  The wait at the end of \<^verbatim>\<open>iderw\<close>. The caller sleeps with the buffer locked until the drive has
  served the requests before its own; each interrupt serves one. The recursion counts them.
\<close>

fun iderw_wait :: "nat \<Rightarrow> nat \<Rightarrow> 'x bio_scheme \<Rightarrow> (unit, 'x bio_scheme) outcome" where
  "iderw_wait n i s =
     (if b_valid (bufs s ! i) \<and> \<not> b_dirty (bufs s ! i) then release LIde s
      else case n of 0 \<Rightarrow> Hang
      | Suc k \<Rightarrow>
          kbind (release LIde s) (\<lambda>_ s.
          kbind (ideintr s) (\<lambda>_ s.
          kbind (acquire LIde s) (\<lambda>_ s. iderw_wait k i s))))"

declare iderw_wait.simps [simp del]

definition iderw :: "nat \<Rightarrow> 'x bio_scheme \<Rightarrow> (unit, 'x bio_scheme) outcome" where
  "iderw i s =
     kbind (holdingsleep_buf i s) (\<lambda>h s.
     if \<not> h then Panic ''iderw: buf not locked''
     else if b_valid (bufs s ! i) \<and> \<not> b_dirty (bufs s ! i) then Panic ''iderw: nothing to do''
     else if b_dev (bufs s ! i) \<noteq> 0 \<and> \<not> havedisk1 s then Panic ''iderw: ide disk 1 not present''
     else
       kbind (acquire LIde s) (\<lambda>_ s.
       let s = s\<lparr>idequeue := idequeue s @ [i]\<rparr>
       in kbind (if hd (idequeue s) = i then idestart i s else Ret () s) (\<lambda>_ s.
          iderw_wait (length (idequeue s)) i s)))"

section \<open>The buffer cache\<close>

text \<open>A walk along the list from \<open>b\<close> to the head, for the first buffer that satisfies a test.\<close>

datatype walk_result = Found nat | NotFound | Endless

fun walk :: "nat \<Rightarrow> (buf \<Rightarrow> nat) \<Rightarrow> (buf \<Rightarrow> bool) \<Rightarrow> buf list \<Rightarrow> nat \<Rightarrow> walk_result" where
  "walk 0 nxt P bs b = Endless"
| "walk (Suc n) nxt P bs b =
     (if b = HEAD then NotFound
      else if P (bs ! b) then Found b
      else walk n nxt P bs (nxt (bs ! b)))"

definition bget :: "u32 \<Rightarrow> u32 \<Rightarrow> 'x bio_scheme \<Rightarrow> (nat, 'x bio_scheme) outcome" where
  "bget dev blockno s =
     kbind (acquire LBcache s) (\<lambda>_ s.
     case walk (NBUF + 1) b_next (\<lambda>b. b_dev b = dev \<and> b_blockno b = blockno) (bufs s)
            (b_next (bufs s ! HEAD)) of
       Endless \<Rightarrow> Hang
     | Found b \<Rightarrow>
         let s = upd_buf b (\<lambda>x. x\<lparr>b_refcnt := b_refcnt x + 1\<rparr>) s
         in kbind (release LBcache s) (\<lambda>_ s.
            kbind (acquiresleep_buf b s) (\<lambda>_ s. Ret b s))
     | NotFound \<Rightarrow>
         (case walk (NBUF + 1) b_prev (\<lambda>b. b_refcnt b = 0 \<and> \<not> b_dirty b) (bufs s)
                 (b_prev (bufs s ! HEAD)) of
            Endless \<Rightarrow> Hang
          | Found b \<Rightarrow>
              let s = upd_buf b (\<lambda>x. x\<lparr>b_dev := dev, b_blockno := blockno, b_valid := False,
                                       b_dirty := False, b_refcnt := 1\<rparr>) s
              in kbind (release LBcache s) (\<lambda>_ s.
                 kbind (acquiresleep_buf b s) (\<lambda>_ s. Ret b s))
          | NotFound \<Rightarrow> Panic ''bget: no buffers''))"

definition bread :: "u32 \<Rightarrow> u32 \<Rightarrow> 'x bio_scheme \<Rightarrow> (nat, 'x bio_scheme) outcome" where
  "bread dev blockno s =
     kbind (bget dev blockno s) (\<lambda>b s.
     kbind (if \<not> b_valid (bufs s ! b) then iderw b s else Ret () s) (\<lambda>_ s. Ret b s))"

definition bwrite :: "nat \<Rightarrow> 'x bio_scheme \<Rightarrow> (unit, 'x bio_scheme) outcome" where
  "bwrite b s =
     kbind (holdingsleep_buf b s) (\<lambda>h s.
     if \<not> h then Panic ''bwrite''
     else iderw b (upd_buf b (\<lambda>x. x\<lparr>b_dirty := True\<rparr>) s))"

text \<open>Unlink a buffer and put it in front of the list, assignment by assignment.\<close>

definition bunlink :: "nat \<Rightarrow> buf list \<Rightarrow> buf list" where
  "bunlink b bs =
     (let bs = bs[b_next (bs ! b) := (bs ! b_next (bs ! b))\<lparr>b_prev := b_prev (bs ! b)\<rparr>]
      in bs[b_prev (bs ! b) := (bs ! b_prev (bs ! b))\<lparr>b_next := b_next (bs ! b)\<rparr>])"

definition bpush :: "nat \<Rightarrow> buf list \<Rightarrow> buf list" where
  "bpush b bs =
     (let bs = bs[b := (bs ! b)\<lparr>b_next := b_next (bs ! HEAD)\<rparr>];
          bs = bs[b := (bs ! b)\<lparr>b_prev := HEAD\<rparr>];
          bs = bs[b_next (bs ! HEAD) := (bs ! b_next (bs ! HEAD))\<lparr>b_prev := b\<rparr>]
      in bs[HEAD := (bs ! HEAD)\<lparr>b_next := b\<rparr>])"

definition brelse :: "nat \<Rightarrow> 'x bio_scheme \<Rightarrow> (unit, 'x bio_scheme) outcome" where
  "brelse b s =
     kbind (holdingsleep_buf b s) (\<lambda>h s.
     if \<not> h then Panic ''brelse''
     else
       kbind (releasesleep_buf b s) (\<lambda>_ s.
       kbind (acquire LBcache s) (\<lambda>_ s.
       let s = upd_buf b (\<lambda>x. x\<lparr>b_refcnt := b_refcnt x - 1\<rparr>) s;
           s = (if b_refcnt (bufs s ! b) = 0 then s\<lparr>bufs := bpush b (bunlink b (bufs s))\<rparr> else s)
       in release LBcache s)))"

text \<open>\<^verbatim>\<open>binit\<close> threads the zeroed buffers on the list one by one, each in front.\<close>

definition buf_zero :: buf where
  "buf_zero = \<lparr>b_valid = False, b_dirty = False, b_dev = 0, b_blockno = 0, b_lock = sl_free,
     b_refcnt = 0, b_prev = 0, b_next = 0, b_data = replicate BSIZE 0\<rparr>"

fun binit_loop :: "nat \<Rightarrow> buf list \<Rightarrow> buf list" where
  "binit_loop 0 bs = bs"
| "binit_loop (Suc n) bs =
     (let b = NBUF - Suc n;
          bs = bpush b bs
      in binit_loop n (bs[b := (bs ! b)\<lparr>b_lock := sl_free\<rparr>]))"

definition binit :: "'x bio_scheme \<Rightarrow> 'x bio_scheme" where
  "binit s =
     s\<lparr>bufs := binit_loop NBUF ((bufs s)[HEAD := (bufs s ! HEAD)\<lparr>b_prev := HEAD, b_next := HEAD\<rparr>])\<rparr>"

section \<open>The list of buffers\<close>

text \<open>
  A segment of a doubly linked list, between the nodes \<open>a\<close> and \<open>z\<close>, and the circular list
  through a head.
\<close>

primrec dseg :: "(nat \<Rightarrow> nat) \<Rightarrow> (nat \<Rightarrow> nat) \<Rightarrow> nat \<Rightarrow> nat list \<Rightarrow> nat \<Rightarrow> bool" where
  "dseg nx pv a [] z \<longleftrightarrow> nx a = z \<and> pv z = a"
| "dseg nx pv a (x # xs) z \<longleftrightarrow> nx a = x \<and> pv x = a \<and> dseg nx pv x xs z"

lemma dseg_append:
  "dseg nx pv a (xs @ y # ys) z \<longleftrightarrow> dseg nx pv a xs y \<and> dseg nx pv y ys z"
  by (induction xs arbitrary: a) auto

lemma dseg_cong:
  assumes "\<And>i. i \<in> set (a # xs) \<Longrightarrow> nx i = nx' i" "\<And>i. i \<in> set (z # xs) \<Longrightarrow> pv i = pv' i"
  shows "dseg nx pv a xs z = dseg nx' pv' a xs z"
  using assms by (induction xs arbitrary: a) auto

lemma dseg_first: "dseg nx pv a xs z \<Longrightarrow> nx a = hd (xs @ [z])"
  by (cases xs) auto

lemma dseg_last: "dseg nx pv a xs z \<Longrightarrow> pv z = last (a # xs)"
  by (induction xs arbitrary: a) auto

definition ring :: "(nat \<Rightarrow> nat) \<Rightarrow> (nat \<Rightarrow> nat) \<Rightarrow> nat \<Rightarrow> nat list \<Rightarrow> bool" where
  "ring nx pv h xs \<longleftrightarrow> dseg nx pv h xs h \<and> distinct (h # xs)"

lemma dseg_glue:
  assumes "dseg nx pv a us b" "dseg nx pv b vs z"
    and "distinct (us @ vs)" "a \<notin> set (us @ vs)" "z \<notin> set (us @ vs)"
    and "l = last (a # us)" "f = hd (vs @ [z])"
  shows "dseg (nx(l := f)) (pv(f := l)) a (us @ vs) z"
  using assms
proof (induction us arbitrary: a)
  case Nil
  then have l: "l = a" by simp
  show ?case
  proof (cases vs)
    case Nil
    then show ?thesis using l assms(7) by simp
  next
    case (Cons v ws)
    then have f: "f = v" using assms(7) by simp
    have "dseg (nx(l := f)) (pv(f := l)) v ws z = dseg nx pv v ws z"
      using Nil.prems Cons l f by (intro dseg_cong) auto
    moreover have "dseg nx pv v ws z" "(nx(l := f)) a = v" "(pv(f := l)) v = a"
      using Nil.prems Cons l f by auto
    ultimately show ?thesis unfolding Cons append_Nil dseg.simps by blast
  qed
next
  case (Cons u us)
  have l: "l = last (u # us)" using Cons.prems(6) by simp
  then have "a \<noteq> l" using Cons.prems(4) last_in_set [of "u # us"] by auto
  moreover have "u \<noteq> f" using Cons.prems(3,5,7) by (cases vs) auto
  moreover have "dseg (nx(l := f)) (pv(f := l)) u (us @ vs) z"
    using Cons.prems l by (intro Cons.IH) auto
  ultimately show ?case using Cons.prems(1) unfolding append_Cons dseg.simps by simp
qed

lemma ring_unlink:
  assumes "ring nx pv h (us @ b # vs)"
  shows "ring (nx(pv b := nx b)) (pv(nx b := pv b)) h (us @ vs)"
proof -
  have d: "dseg nx pv h us b" "dseg nx pv b vs h" "distinct (h # us @ b # vs)"
    using assms by (auto simp: ring_def dseg_append)
  then have "dseg (nx(pv b := nx b)) (pv(nx b := pv b)) h (us @ vs) h"
    using dseg_last [OF d(1)] dseg_first [OF d(2)] by (intro dseg_glue [OF d(1,2)]) auto
  with d(3) show ?thesis by (simp add: ring_def)
qed

lemma ring_push:
  assumes "ring nx pv h xs" "b \<notin> set (h # xs)"
  shows "ring (nx(b := nx h, h := b)) (pv(b := h, nx h := b)) h (b # xs)"
proof (cases xs)
  case Nil
  with assms show ?thesis by (auto simp: ring_def)
next
  case (Cons x ys)
  with assms have d: "nx h = x" "dseg nx pv x ys h" "distinct (h # x # ys)" "b \<notin> set (h # x # ys)"
    by (auto simp: ring_def)
  have "dseg (nx(b := x, h := b)) (pv(b := h, x := b)) x ys h = dseg nx pv x ys h"
    using d(3,4) by (intro dseg_cong) auto
  with d Cons show ?thesis by (auto simp: ring_def)
qed

text \<open>The buffers \<open>xs\<close>, most recently used first, are linked between the head and itself.\<close>

definition bring :: "buf list \<Rightarrow> nat list \<Rightarrow> bool" where
  "bring bs xs \<longleftrightarrow> ring (\<lambda>i. b_next (bs ! i)) (\<lambda>i. b_prev (bs ! i)) HEAD xs
     \<and> length bs = NBUF + 1 \<and> set xs \<subseteq> {..<NBUF}"

lemma dseg_mem: "dseg nx pv a xs z \<Longrightarrow> i \<in> set (a # xs) \<Longrightarrow> nx i \<in> set (z # xs)"
  by (induction xs arbitrary: a) auto

lemma dseg_mem_prev: "dseg nx pv a xs z \<Longrightarrow> i \<in> set (z # xs) \<Longrightarrow> pv i \<in> set (a # xs)"
  by (induction xs arbitrary: a) auto

lemma bring_range:
  assumes "bring bs xs" "i \<in> set (HEAD # xs)"
  shows "b_next (bs ! i) \<in> set (HEAD # xs)" "b_prev (bs ! i) \<in> set (HEAD # xs)"
    "b_next (bs ! i) < length bs" "b_prev (bs ! i) < length bs" "i < length bs"
proof -
  have d: "dseg (\<lambda>i. b_next (bs ! i)) (\<lambda>i. b_prev (bs ! i)) HEAD xs HEAD"
    and l: "length bs = 31" "set xs \<subseteq> {..<30}"
    using assms(1) by (auto simp: bring_def ring_def)
  show n: "b_next (bs ! i) \<in> set (HEAD # xs)" using dseg_mem [OF d assms(2)] .
  show p: "b_prev (bs ! i) \<in> set (HEAD # xs)" using dseg_mem_prev [OF d assms(2)] .
  show "b_next (bs ! i) < length bs" "b_prev (bs ! i) < length bs" "i < length bs"
    using n p l assms(2) by auto
qed

lemma bunlink_links:
  assumes "b_next (bs ! b) < length bs" "b_prev (bs ! b) < length bs" "b_next (bs ! b) \<noteq> b"
  shows "(\<lambda>i. b_next (bunlink b bs ! i)) = (\<lambda>i. b_next (bs ! i))(b_prev (bs ! b) := b_next (bs ! b))"
    and "(\<lambda>i. b_prev (bunlink b bs ! i)) = (\<lambda>i. b_prev (bs ! i))(b_next (bs ! b) := b_prev (bs ! b))"
  using assms by (auto simp: fun_eq_iff bunlink_def Let_def nth_list_update)

lemma bpush_links:
  assumes "b < length bs" "HEAD < length bs" "b_next (bs ! HEAD) < length bs" "b \<noteq> HEAD"
  shows "(\<lambda>i. b_next (bpush b bs ! i)) = (\<lambda>i. b_next (bs ! i))(b := b_next (bs ! HEAD), HEAD := b)"
    and "(\<lambda>i. b_prev (bpush b bs ! i)) = (\<lambda>i. b_prev (bs ! i))(b := HEAD, b_next (bs ! HEAD) := b)"
  using assms by (auto simp: fun_eq_iff bpush_def Let_def nth_list_update)

lemma bring_unlink:
  assumes "bring bs (us @ b # vs)"
  shows "bring (bunlink b bs) (us @ vs)"
proof -
  note r = bring_range [OF assms, of b]
  have "b_next (bs ! b) \<noteq> b"
  proof -
    have "dseg (\<lambda>i. b_next (bs ! i)) (\<lambda>i. b_prev (bs ! i)) b vs HEAD" "distinct (HEAD # us @ b # vs)"
      using assms by (auto simp: bring_def ring_def dseg_append)
    then show ?thesis by (cases vs) auto
  qed
  with r assms show ?thesis
    using ring_unlink [of "\<lambda>i. b_next (bs ! i)" "\<lambda>i. b_prev (bs ! i)" HEAD us b vs]
    by (simp add: bring_def bunlink_links) (simp add: bunlink_def Let_def)
qed

lemma bring_push:
  assumes "bring bs xs" "b < NBUF" "b \<notin> set xs"
  shows "bring (bpush b bs) (b # xs)"
proof -
  note r = bring_range [OF assms(1), of HEAD]
  have "ring ((\<lambda>i. b_next (bs ! i))(b := b_next (bs ! HEAD), HEAD := b))
         ((\<lambda>i. b_prev (bs ! i))(b := HEAD, b_next (bs ! HEAD) := b)) HEAD (b # xs)"
    using assms by (intro ring_push) (auto simp: bring_def)
  with r assms show ?thesis
    by (simp add: bring_def bpush_links) (simp add: bpush_def Let_def)
qed

text \<open>A buffer without its links; moving a buffer changes nothing else.\<close>

definition bcore :: "buf \<Rightarrow> buf" where
  "bcore b = b\<lparr>b_prev := 0, b_next := 0\<rparr>"

lemma bcore_upd [simp]: "bcore (b\<lparr>b_prev := i\<rparr>) = bcore b" "bcore (b\<lparr>b_next := i\<rparr>) = bcore b"
  by (simp_all add: bcore_def)

lemma bcore_sel:
  assumes "bcore b = bcore c"
  shows "b_valid b = b_valid c" "b_dirty b = b_dirty c" "b_dev b = b_dev c"
    "b_blockno b = b_blockno c" "b_lock b = b_lock c" "b_refcnt b = b_refcnt c" "b_data b = b_data c"
  using assms by (cases b, cases c, simp add: bcore_def)+

lemma bcore_nth_upd: "bcore v = bcore (bs ! i) \<Longrightarrow> bcore (bs[i := v] ! j) = bcore (bs ! j)"
  by (cases "i < length bs") (auto simp: nth_list_update list_update_beyond)

lemma bcore_bunlink [simp]: "bcore (bunlink b bs ! i) = bcore (bs ! i)"
  and bcore_bpush [simp]: "bcore (bpush b bs ! i) = bcore (bs ! i)"
  by (simp_all add: bunlink_def bpush_def Let_def bcore_nth_upd)

lemma length_links [simp]: "length (bunlink b bs) = length bs" "length (bpush b bs) = length bs"
  by (simp_all add: bunlink_def bpush_def Let_def)

lemma bring_cong:
  assumes "length cs = length bs" "\<And>i. b_next (cs ! i) = b_next (bs ! i)" "\<And>i. b_prev (cs ! i) = b_prev (bs ! i)"
  shows "bring cs xs = bring bs xs"
  using assms by (simp add: bring_def)

lemma bring_upd [simp]:
  assumes "b_next v = b_next (bs ! i)" "b_prev v = b_prev (bs ! i)"
  shows "bring (bs[i := v]) xs = bring bs xs"
  using assms by (intro bring_cong; cases "i < length bs") (auto simp: nth_list_update list_update_beyond)

text \<open>A walk along the list is a search in the order of the list, or against it; it ends.\<close>

definition walk_of :: "nat option \<Rightarrow> walk_result" where
  "walk_of r = (case r of None \<Rightarrow> NotFound | Some i \<Rightarrow> Found i)"

lemma walk_next_dseg:
  assumes "dseg (\<lambda>i. b_next (bs ! i)) (\<lambda>i. b_prev (bs ! i)) a xs HEAD" "HEAD \<notin> set xs" "length xs < n"
  shows "walk n b_next P bs (b_next (bs ! a)) = walk_of (find (\<lambda>i. P (bs ! i)) xs)"
  using assms
proof (induction xs arbitrary: a n)
  case Nil
  then show ?case by (cases n) (auto simp: walk_of_def)
next
  case (Cons x xs)
  then show ?case by (cases n) (auto simp: walk_of_def)
qed

lemma walk_prev_dseg:
  assumes "dseg (\<lambda>i. b_next (bs ! i)) (\<lambda>i. b_prev (bs ! i)) HEAD xs z" "HEAD \<notin> set xs" "length xs < n"
  shows "walk n b_prev P bs (b_prev (bs ! z)) = walk_of (find (\<lambda>i. P (bs ! i)) (rev xs))"
  using assms
proof (induction xs arbitrary: z n rule: rev_induct)
  case Nil
  then show ?case by (cases n) (auto simp: walk_of_def)
next
  case (snoc x xs)
  then show ?case by (cases n) (auto simp: walk_of_def dseg_append)
qed

lemma bring_length: "bring bs xs \<Longrightarrow> length xs \<le> NBUF"
  using distinct_card [of xs] card_mono [of "{..<NBUF}" "set xs"] by (auto simp: bring_def ring_def)

lemma walk_bring:
  assumes "bring bs xs"
  shows "walk (NBUF + 1) b_next P bs (b_next (bs ! HEAD)) = walk_of (find (\<lambda>i. P (bs ! i)) xs)"
    and "walk (NBUF + 1) b_prev P bs (b_prev (bs ! HEAD)) = walk_of (find (\<lambda>i. P (bs ! i)) (rev xs))"
  using assms bring_length [OF assms]
  by (auto simp: bring_def ring_def intro!: walk_next_dseg walk_prev_dseg)

lemma find_SomeD: "find P xs = Some x \<Longrightarrow> x \<in> set xs \<and> P x"
  by (induction xs) (auto split: if_splits)

lemma bring_binit_loop:
  assumes "bring bs (rev [0..<NBUF - n])" "n \<le> NBUF"
  shows "bring (binit_loop n bs) (rev [0..<NBUF])"
  using assms
proof (induction n arbitrary: bs)
  case 0
  then show ?case by simp
next
  case (Suc n)
  let ?b = "NBUF - Suc n" and ?bs = "bpush (NBUF - Suc n) bs"
  have "bring ?bs (?b # rev [0..<?b])" using Suc.prems by (intro bring_push) auto
  moreover have "NBUF - n = Suc ?b" using Suc.prems by simp
  ultimately have "bring ?bs (rev [0..<NBUF - n])" by simp
  then have "bring (?bs[?b := (?bs ! ?b)\<lparr>b_lock := sl_free\<rparr>]) (rev [0..<NBUF - n])"
    by simp
  with Suc show ?case by (simp add: Let_def)
qed

definition unlinked :: "buf \<Rightarrow> buf" where
  "unlinked b = bcore b\<lparr>b_lock := sl_free\<rparr>"

lemma unlinked_binit_loop: "unlinked (binit_loop n bs ! i) = unlinked (bs ! i)"
proof (induction n arbitrary: bs)
  case (Suc n)
  let ?b = "NBUF - Suc n" and ?bs = "bpush (NBUF - Suc n) bs"
  have "bcore (c\<lparr>b_lock := l\<rparr>) = (bcore c)\<lparr>b_lock := l\<rparr>" for c l by (simp add: bcore_def)
  then have "unlinked (?bs[?b := (?bs ! ?b)\<lparr>b_lock := sl_free\<rparr>] ! i) = unlinked (?bs ! i)"
    by (cases "?b < length ?bs") (auto simp: unlinked_def nth_list_update list_update_beyond)
  also have "\<dots> = unlinked (bs ! i)" by (simp add: unlinked_def)
  finally show ?case using Suc by (simp add: Let_def)
qed simp
section \<open>The driver on an idle disk\<close>

lemma sl_upd [simp]:
  "(l :: sleeplock)\<lparr>sl_locked := a, sl_pid := b\<rparr> = \<lparr>sl_locked = a, sl_pid = b\<rparr>" by simp

lemma holdingsleep_buf_ok:
  assumes "running s"
  shows "holdingsleep_buf b s = Ret (sl_locked (b_lock (bufs s ! b)) \<and> sl_pid (b_lock (bufs s ! b)) = p_pid (curproc s)) s"
  using assms by (auto simp: holdingsleep_def running_def curproc_def myproc_def Let_def)

lemma acquiresleep_buf_ok:
  assumes "running s" "\<not> sl_locked (b_lock (bufs s ! b))"
  shows "acquiresleep_buf b s = Ret () (upd_buf b (\<lambda>x. x\<lparr>b_lock := \<lparr>sl_locked = True, sl_pid = p_pid (curproc s)\<rparr>\<rparr>) s)"
  using assms by (auto simp: acquiresleep_def running_def curproc_def myproc_def Let_def intro!: bio.equality)

lemma releasesleep_buf_ok:
  assumes "running s"
  shows "releasesleep_buf b s = Ret () (upd_buf b (\<lambda>x. x\<lparr>b_lock := sl_free\<rparr>) (s\<lparr>procs := wake (ChBufLock b) (procs s)\<rparr>))"
  using assms by (simp add: releasesleep_def sl_free_def)

lemma iderw_read:
  assumes "running s" "idequeue s = []" "\<not> ide_fault s" "i < length (bufs s)"
    and "sl_locked (b_lock (bufs s ! i))" "sl_pid (b_lock (bufs s ! i)) = p_pid (curproc s)"
    and "\<not> b_valid (bufs s ! i)" "\<not> b_dirty (bufs s ! i)" "b_dev (bufs s ! i) \<noteq> 0 \<longrightarrow> havedisk1 s"
    and "b_blockno (bufs s ! i) < 1000"
  shows "iderw i s = Ret () (upd_buf i (\<lambda>x. x\<lparr>b_data := disk s (b_dev x AND 1) (b_blockno x),
      b_valid := True, b_dirty := False\<rparr>) (s\<lparr>procs := wake (ChBuf i) (procs s)\<rparr>))"
  using assms
  by (simp add: iderw_def holdingsleep_buf_ok idestart_def Let_def linorder_not_le iderw_wait.simps
       ideintr_def idewait_def)
    (auto intro!: bio.equality)

lemma iderw_write:
  assumes "running s" "idequeue s = []" "i < length (bufs s)"
    and "sl_locked (b_lock (bufs s ! i))" "sl_pid (b_lock (bufs s ! i)) = p_pid (curproc s)"
    and "b_dirty (bufs s ! i)" "b_dev (bufs s ! i) \<noteq> 0 \<longrightarrow> havedisk1 s"
    and "b_blockno (bufs s ! i) < 1000"
  shows "iderw i s =
     (let b = bufs s ! i; d = b_dev b AND 1; k = b_blockno b in
      Ret () (upd_buf i (\<lambda>x. x\<lparr>b_valid := True, b_dirty := False\<rparr>)
        (s\<lparr>procs := wake (ChBuf i) (procs s), disk := (disk s)(d := (disk s d)(k := b_data b)),
           dwrites := dwrites s @ [(d, k, b_data b)]\<rparr>)))"
  using assms
  by (simp add: iderw_def holdingsleep_buf_ok idestart_def Let_def linorder_not_le iderw_wait.simps
       ideintr_def idewait_def)
    (auto intro!: bio.equality)

section \<open>The cache as a store of blocks\<close>

text \<open>
  The invariant of the cache while the running process holds the buffers \<open>H\<close> and no other process
  holds any: the buffers are on the list, a buffer is counted and locked exactly when it is in
  \<open>H\<close>, a block has at most one buffer, and a valid buffer that is neither dirty nor held agrees
  with the disk. All file systems live on \<^verbatim>\<open>ROOTDEV\<close>.
\<close>

definition bufok :: "(u32 \<Rightarrow> bytes) \<Rightarrow> nat set \<Rightarrow> int \<Rightarrow> nat \<Rightarrow> buf \<Rightarrow> bool" where
  "bufok dk H pid i b \<longleftrightarrow> length (b_data b) = BSIZE
     \<and> b_refcnt b = (if i \<in> H then 1 else 0)
     \<and> sl_locked (b_lock b) = (i \<in> H) \<and> (i \<in> H \<longrightarrow> sl_pid (b_lock b) = pid)
     \<and> (b_dev b = 0 \<or> b_dev b = ROOTDEV) \<and> (b_valid b \<longrightarrow> b_dev b = ROOTDEV \<and> b_blockno b < 1000)
     \<and> (b_dirty b \<longrightarrow> b_valid b)
     \<and> (b_valid b \<and> \<not> b_dirty b \<and> i \<notin> H \<longrightarrow> b_data b = dk (b_blockno b))"

definition buniq :: "buf list \<Rightarrow> bool" where
  "buniq bs \<longleftrightarrow> (\<forall>i<NBUF. \<forall>j<NBUF. b_dev (bs ! i) = ROOTDEV \<and> b_dev (bs ! j) = ROOTDEV
     \<and> b_blockno (bs ! i) = b_blockno (bs ! j) \<longrightarrow> i = j)"

definition binv :: "buf list \<Rightarrow> (u32 \<Rightarrow> bytes) \<Rightarrow> nat set \<Rightarrow> int \<Rightarrow> bool" where
  "binv bs dk H pid \<longleftrightarrow> (\<exists>xs. bring bs xs \<and> set xs = {..<NBUF})
     \<and> (\<forall>i<NBUF. bufok dk H pid i (bs ! i)) \<and> buniq bs \<and> H \<subseteq> {..<NBUF}"

definition bio_inv :: "'x bio_scheme \<Rightarrow> nat set \<Rightarrow> bool" where
  "bio_inv s H \<longleftrightarrow> running s \<and> binv (bufs s) (disk s 1) H (p_pid (curproc s))
     \<and> idequeue s = [] \<and> \<not> ide_fault s \<and> havedisk1 s \<and> (\<forall>k. length (disk s 1 k) = BSIZE)"

text \<open>The contents of a block as the file system sees them.\<close>

definition bview :: "buf list \<Rightarrow> (u32 \<Rightarrow> bytes) \<Rightarrow> u32 \<Rightarrow> bytes" where
  "bview bs dk k = (case find_idx (\<lambda>b. b_valid b \<and> b_dev b = ROOTDEV \<and> b_blockno b = k) (take NBUF bs) of
      Some i \<Rightarrow> b_data (bs ! i) | None \<Rightarrow> dk k)"

definition view :: "'x bio_scheme \<Rightarrow> u32 \<Rightarrow> bytes" where
  "view s = bview (bufs s) (disk s 1)"

text \<open>The blocks that may not leave the cache yet.\<close>

definition dirtyset :: "'x bio_scheme \<Rightarrow> u32 set" where
  "dirtyset s = {k. \<exists>i<NBUF. b_dirty (bufs s ! i) \<and> b_blockno (bufs s ! i) = k}"

lemma binv_length: "binv bs dk H pid \<Longrightarrow> length bs = NBUF + 1"
  by (auto simp: binv_def bring_def)

lemma binv_bufok: "binv bs dk H pid \<Longrightarrow> i < NBUF \<Longrightarrow> bufok dk H pid i (bs ! i)"
  by (simp add: binv_def)

lemma bview_hit:
  assumes "length bs = NBUF + 1" "buniq bs" "i < NBUF" "b_valid (bs ! i)" "b_dev (bs ! i) = ROOTDEV"
  shows "bview bs dk (b_blockno (bs ! i)) = b_data (bs ! i)"
proof -
  let ?P = "\<lambda>b. b_valid b \<and> b_dev b = ROOTDEV \<and> b_blockno b = b_blockno (bs ! i)"
  obtain j where j: "find_idx ?P (take NBUF bs) = Some j"
    using find_idx_ex [of i "take NBUF bs" ?P] assms by auto
  from find_idx_SomeD [OF j] assms have "j = i" by (auto simp: buniq_def)
  with j show ?thesis by (simp add: bview_def)
qed

lemma bview_miss:
  assumes "length bs = NBUF + 1"
    "\<And>i. i < NBUF \<Longrightarrow> b_valid (bs ! i) \<Longrightarrow> b_dev (bs ! i) = ROOTDEV \<Longrightarrow> b_blockno (bs ! i) \<noteq> k"
  shows "bview bs dk k = dk k"
proof -
  have "find_idx (\<lambda>b. b_valid b \<and> b_dev b = ROOTDEV \<and> b_blockno b = k) (take NBUF bs) = None"
    using assms(1) assms(2) by (fastforce simp: find_idx_None_iff in_set_conv_nth)
  then show ?thesis by (simp add: bview_def)
qed

lemma bview_cases [consumes 2]:
  assumes "length bs = NBUF + 1" "buniq bs"
  obtains (hit) i where "i < NBUF" "b_valid (bs ! i)" "b_dev (bs ! i) = ROOTDEV" "b_blockno (bs ! i) = k"
    "\<And>dk. bview bs dk k = b_data (bs ! i)"
  | (miss) "\<And>i. i < NBUF \<Longrightarrow> b_valid (bs ! i) \<Longrightarrow> b_dev (bs ! i) = ROOTDEV \<Longrightarrow> b_blockno (bs ! i) \<noteq> k"
    "\<And>dk. bview bs dk k = dk k"
  using bview_hit [OF assms] bview_miss [OF assms(1)] by metis

text \<open>Changing one buffer.\<close>

lemma binv_upd:
  assumes "binv bs dk H pid" "i < NBUF" "bufok dk H' pid i v"
    and "b_next v = b_next (bs ! i)" "b_prev v = b_prev (bs ! i)"
    and "\<And>j. j < NBUF \<Longrightarrow> j \<noteq> i \<Longrightarrow> b_dev v = ROOTDEV \<Longrightarrow> b_dev (bs ! j) = ROOTDEV \<Longrightarrow>
           b_blockno (bs ! j) \<noteq> b_blockno v"
    and "H - {i} = H' - {i}"
  shows "binv (bs[i := v]) dk H' pid"
proof -
  have l: "length bs = 31" using binv_length [OF assms(1)] by simp
  have H: "j \<in> H' \<longleftrightarrow> j \<in> H" if "j \<noteq> i" for j using assms(7) that by blast
  have "bufok dk H' pid j (bs[i := v] ! j)" if "j < 30" for j
    using binv_bufok [OF assms(1), of j] that assms(2,3) l H [of j]
    by (cases "j = i") (auto simp: bufok_def)
  moreover have "buniq (bs[i := v])"
    using assms(1,2,6) l by (auto simp: binv_def buniq_def nth_list_update) metis+
  moreover have "\<exists>xs. bring (bs[i := v]) xs \<and> set xs = {..<30}"
    using assms(1,4,5) by (auto simp: binv_def)
  moreover have "H' \<subseteq> {..<30}" using assms(1,2) H by (auto simp: binv_def) (metis lessThan_iff subsetD)
  ultimately show ?thesis by (simp add: binv_def)
qed

lemma bview_upd_same:
  assumes "binv bs dk H pid" "binv (bs[i := v]) dk H' pid" "i < NBUF"
    and "b_valid (bs ! i) \<Longrightarrow> b_data (bs ! i) = dk (b_blockno (bs ! i)) \<or>
          (b_valid v \<and> b_dev v = b_dev (bs ! i) \<and> b_blockno v = b_blockno (bs ! i) \<and> b_data v = b_data (bs ! i))"
    and "b_valid v \<Longrightarrow> b_data v = dk (b_blockno v) \<or>
          (b_valid (bs ! i) \<and> b_dev v = b_dev (bs ! i) \<and> b_blockno v = b_blockno (bs ! i) \<and> b_data v = b_data (bs ! i))"
  shows "bview (bs[i := v]) dk = bview bs dk"
proof
  fix k
  have l: "length bs = 31" and u: "buniq bs" and l': "length (bs[i := v]) = NBUF + 1" and u': "buniq (bs[i := v])"
    using assms(1,2) binv_length [OF assms(1)] by (auto simp: binv_def)
  have l30: "length bs = NBUF + 1" using l by simp
  from l30 u show "bview (bs[i := v]) dk k = bview bs dk k"
  proof (cases rule: bview_cases [where k = k])
    case (hit j)
    show ?thesis
    proof (cases "j = i")
      case True
      show ?thesis
      proof (cases "b_valid v \<and> b_dev v = ROOTDEV \<and> b_blockno v = k")
        case True
        then have "bview (bs[i := v]) dk k = b_data v"
          using bview_hit [OF l' u' assms(3)] l assms(3) by auto
        with True hit \<open>j = i\<close> assms(4,5) show ?thesis by auto
      next
        case False
        then have "b_data (bs ! i) = dk k" using assms(4) hit \<open>j = i\<close> by auto
        moreover have "bview (bs[i := v]) dk k = dk k"
          using False hit u \<open>j = i\<close> l assms(3)
          by (intro bview_miss [OF l']) (auto simp: nth_list_update buniq_def)
        ultimately show ?thesis using hit \<open>j = i\<close> by simp
      qed
    next
      case False
      then show ?thesis using bview_hit [OF l' u' hit(1)] hit by simp
    qed
  next
    case miss
    show ?thesis
    proof (cases "b_valid v \<and> b_dev v = ROOTDEV \<and> b_blockno v = k")
      case True
      then have "bview (bs[i := v]) dk k = b_data v"
        using bview_hit [OF l' u' assms(3)] l assms(3) by auto
      with True miss(1) [OF assms(3)] miss(2) assms(5) show ?thesis by auto
    next
      case False
      have "b_blockno (bs[i := v] ! j) \<noteq> k"
        if "j < NBUF" "b_valid (bs[i := v] ! j)" "b_dev (bs[i := v] ! j) = ROOTDEV" for j
        using False miss(1) [of j] that l assms(3) by (cases "j = i") auto
      then have "bview (bs[i := v]) dk k = dk k" by (intro bview_miss [OF l']) auto
      with miss show ?thesis by simp
    qed
  qed
qed

section \<open>The operations of the cache\<close>

lemma find_None_iff: "find P xs = None \<longleftrightarrow> (\<forall>x\<in>set xs. \<not> P x)"
  by (induction xs) auto

text \<open>The last part of \<^verbatim>\<open>bget\<close>: it leaves the cache lock and takes the buffer's.\<close>

lemma bget_tail:
  assumes "running s" "i < length (bufs s)" "\<not> sl_locked (b_lock (f (bufs s ! i)))"
  shows "kbind (release LBcache (s\<lparr>held := [LBcache], bufs := (bufs s)[i := f (bufs s ! i)]\<rparr>))
           (\<lambda>_ s. kbind (acquiresleep_buf i s) (\<lambda>_ s. Ret i s))
       = Ret i (upd_buf i (\<lambda>x. (f x)\<lparr>b_lock := \<lparr>sl_locked = True, sl_pid = p_pid (curproc s)\<rparr>\<rparr>) s)"
proof -
  let ?t = "upd_buf i f s"
  have "release LBcache (s\<lparr>held := [LBcache], bufs := (bufs s)[i := f (bufs s ! i)]\<rparr>) = Ret () ?t"
    using assms(1) by (auto intro!: bio.equality)
  moreover have "running ?t" "curproc ?t = curproc s"
    using assms(1) by (auto simp: running_def curproc_def myproc_def)
  moreover from this(1) have "acquiresleep_buf i ?t
      = Ret () (upd_buf i (\<lambda>x. x\<lparr>b_lock := \<lparr>sl_locked = True, sl_pid = p_pid (curproc ?t)\<rparr>\<rparr>) ?t)"
    using assms(2,3) by (intro acquiresleep_buf_ok) auto
  ultimately show ?thesis using assms(2) by (simp del: release_ok)
qed

text \<open>\<^verbatim>\<open>bget\<close> returns a buffer for the block, found or recycled, and locked.\<close>

definition got :: "int \<Rightarrow> u32 \<Rightarrow> bool \<Rightarrow> bool \<Rightarrow> buf \<Rightarrow> buf" where
  "got pid k v d x = x\<lparr>b_dev := ROOTDEV, b_blockno := k, b_valid := v, b_dirty := d, b_refcnt := 1,
     b_lock := \<lparr>sl_locked = True, sl_pid = pid\<rparr>\<rparr>"

lemma bget_hit:
  assumes "bio_inv s H" "bring (bufs s) xs" "i < NBUF" "i \<notin> H"
    and F: "find (\<lambda>i. b_dev (bufs s ! i) = ROOTDEV \<and> b_blockno (bufs s ! i) = k) xs = Some i"
  shows "bget ROOTDEV k s = Ret i (upd_buf i
           (got (p_pid (curproc s)) k (b_valid (bufs s ! i)) (b_dirty (bufs s ! i))) s)"
proof -
  have ok: "bufok (disk s 1) H (p_pid (curproc s)) i (bufs s ! i)" and run: "running s"
    and l: "length (bufs s) = 31"
    using assms(1,3) by (auto simp: bio_inv_def binv_def bring_def)
  have w: "walk 31 b_next P (bufs s) (b_next (bufs s ! 30)) = walk_of (find (\<lambda>i. P (bufs s ! i)) xs)" for P
    using walk_bring(1) [OF assms(2), of P] by simp
  have g: "got pid k (b_valid (bufs s ! i)) (b_dirty (bufs s ! i)) (bufs s ! i)
      = (bufs s ! i)\<lparr>b_refcnt := b_refcnt (bufs s ! i) + 1, b_lock := \<lparr>sl_locked = True, sl_pid = pid\<rparr>\<rparr>" for pid
    using find_SomeD [OF F] ok assms(4) by (simp add: got_def bufok_def)
  have "bget ROOTDEV k s = kbind (release LBcache (s\<lparr>held := [LBcache],
           bufs := (bufs s)[i := (bufs s ! i)\<lparr>b_refcnt := b_refcnt (bufs s ! i) + 1\<rparr>]\<rparr>))
       (\<lambda>_ s. kbind (acquiresleep_buf i s) (\<lambda>_ s. Ret i s))"
    unfolding bget_def using run by (simp add: w F walk_of_def Let_def del: release_ok)
  also have "\<dots> = Ret i (upd_buf i (got (p_pid (curproc s)) k (b_valid (bufs s ! i)) (b_dirty (bufs s ! i))) s)"
    using ok assms(3,4) l by (subst bget_tail [OF run]) (auto simp: g bufok_def)
  finally show ?thesis .
qed

lemma bget_miss:
  assumes "bio_inv s H" "bring (bufs s) xs" "i < NBUF" "i \<notin> H"
    and N: "find (\<lambda>i. b_dev (bufs s ! i) = ROOTDEV \<and> b_blockno (bufs s ! i) = k) xs = None"
    and F: "find (\<lambda>i. b_refcnt (bufs s ! i) = 0 \<and> \<not> b_dirty (bufs s ! i)) (rev xs) = Some i"
  shows "bget ROOTDEV k s = Ret i (upd_buf i (got (p_pid (curproc s)) k False False) s)"
proof -
  have ok: "bufok (disk s 1) H (p_pid (curproc s)) i (bufs s ! i)" and run: "running s"
    and l: "length (bufs s) = 31"
    using assms(1,3) by (auto simp: bio_inv_def binv_def bring_def)
  have w: "walk 31 b_next P (bufs s) (b_next (bufs s ! 30)) = walk_of (find (\<lambda>i. P (bufs s ! i)) xs)"
    "walk 31 b_prev P (bufs s) (b_prev (bufs s ! 30)) = walk_of (find (\<lambda>i. P (bufs s ! i)) (rev xs))" for P
    using walk_bring [OF assms(2), of P] by simp_all
  have "bget ROOTDEV k s = kbind (release LBcache (s\<lparr>held := [LBcache],
           bufs := (bufs s)[i := (bufs s ! i)\<lparr>b_dev := ROOTDEV, b_blockno := k, b_valid := False,
              b_dirty := False, b_refcnt := 1\<rparr>]\<rparr>))
       (\<lambda>_ s. kbind (acquiresleep_buf i s) (\<lambda>_ s. Ret i s))"
    unfolding bget_def using run by (simp add: w N F walk_of_def Let_def del: release_ok)
  also have "\<dots> = Ret i (upd_buf i (got (p_pid (curproc s)) k False False) s)"
    using ok assms(3,4) l by (subst bget_tail [OF run]) (auto simp: got_def bufok_def)
  finally show ?thesis .
qed

lemma find_free:
  assumes "bio_inv s H" "set xs \<subseteq> {..<NBUF}"
  shows "find (\<lambda>i. b_refcnt (bufs s ! i) = 0 \<and> \<not> b_dirty (bufs s ! i)) xs
    = find (\<lambda>i. i \<notin> H \<and> \<not> b_dirty (bufs s ! i)) xs"
proof -
  have "\<forall>i<NBUF. (b_refcnt (bufs s ! i) = 0) = (i \<notin> H)"
    using assms(1) by (auto simp: bio_inv_def binv_def bufok_def)
  with assms(2) show ?thesis by (induction xs) auto
qed

lemma bget_ok:
  assumes inv: "bio_inv s H" and nH: "\<And>i. i \<in> H \<Longrightarrow> b_blockno (bufs s ! i) \<noteq> k"
    and free: "k \<in> dirtyset s \<or> (\<exists>i<NBUF. i \<notin> H \<and> \<not> b_dirty (bufs s ! i))"
  obtains i v d where "i < NBUF" "i \<notin> H"
    and "bget ROOTDEV k s = Ret i (upd_buf i (got (p_pid (curproc s)) k v d) s)"
    and "b_dev (bufs s ! i) = ROOTDEV \<and> b_blockno (bufs s ! i) = k
            \<and> v = b_valid (bufs s ! i) \<and> d = b_dirty (bufs s ! i)
       \<or> (\<forall>j<NBUF. \<not> (b_dev (bufs s ! j) = ROOTDEV \<and> b_blockno (bufs s ! j) = k))
            \<and> \<not> b_dirty (bufs s ! i) \<and> \<not> v \<and> \<not> d"
proof -
  obtain xs where xs: "bring (bufs s) xs" "set xs = {..<30}"
    using inv by (auto simp: bio_inv_def binv_def)
  let ?P = "\<lambda>i. b_dev (bufs s ! i) = ROOTDEV \<and> b_blockno (bufs s ! i) = k"
  show thesis
  proof (cases "find ?P xs")
    case (Some i)
    have i: "i < 30" "b_dev (bufs s ! i) = 1" "b_blockno (bufs s ! i) = k"
      using find_SomeD [OF Some] xs(2) by auto
    with nH have "i \<notin> H" by auto
    from bget_hit [OF inv xs(1) i(1) this Some] that i \<open>i \<notin> H\<close> show thesis by blast
  next
    case None
    then have n: "\<forall>j<30. \<not> (b_dev (bufs s ! j) = 1 \<and> b_blockno (bufs s ! j) = k)"
      using xs(2) by (auto simp: find_None_iff)
    have "k \<notin> dirtyset s"
      using n binv_bufok [of "bufs s" "disk s 1" H] inv by (auto simp: bio_inv_def dirtyset_def bufok_def)
    then have "find (\<lambda>i. i \<notin> H \<and> \<not> b_dirty (bufs s ! i)) (rev xs) \<noteq> None"
      using free xs(2) unfolding find_None_iff by auto
    then obtain i where F: "find (\<lambda>i. i \<notin> H \<and> \<not> b_dirty (bufs s ! i)) (rev xs) = Some i" by auto
    then have i: "i < 30" "i \<notin> H" "\<not> b_dirty (bufs s ! i)" using find_SomeD [OF F] xs(2) by auto
    from F have "find (\<lambda>i. b_refcnt (bufs s ! i) = 0 \<and> \<not> b_dirty (bufs s ! i)) (rev xs) = Some i"
      using xs(2) by (subst find_free [OF inv]) auto
    from bget_miss [OF inv xs(1) i(1,2) None this] that i n show thesis by blast
  qed
qed

lemma running_upd_bufs [simp]: "running (s\<lparr>bufs := bs\<rparr>) = running s"
  and curproc_upd_bufs [simp]: "curproc (s\<lparr>bufs := bs\<rparr>) = curproc s"
  by (simp_all add: running_def curproc_def myproc_def)

lemma and_1_ROOTDEV [simp]: "(1 :: u32) AND 1 = 1"
  by simp

lemma bread_step:
  assumes inv: "bio_inv s H" and k: "k < 1000" and nH: "\<And>i. i \<in> H \<Longrightarrow> b_blockno (bufs s ! i) \<noteq> k"
    and free: "k \<in> dirtyset s \<or> (\<exists>i<NBUF. i \<notin> H \<and> \<not> b_dirty (bufs s ! i))"
  obtains b v ps where "bread ROOTDEV k s = Ret b (s\<lparr>procs := ps, bufs := (bufs s)[b := v]\<rparr>)" "woken (procs s) ps"
    and "b < NBUF" "b \<notin> H" "binv ((bufs s)[b := v]) (disk s 1) (insert b H) (p_pid (curproc s))"
    and "b_dev v = ROOTDEV" "b_blockno v = k" "b_valid v" "b_data v = view s k"
    and "b_dirty v = (\<exists>i<NBUF. b_blockno (bufs s ! i) = k \<and> b_dirty (bufs s ! i))"
    and "b_dirty v \<Longrightarrow> b_blockno (bufs s ! b) = k" "b_dirty (bufs s ! b) \<Longrightarrow> b_blockno (bufs s ! b) = k"
    and "bview ((bufs s)[b := v]) (disk s 1) = view s"
proof -
  have binv: "binv (bufs s) (disk s 1) H (p_pid (curproc s))" and run: "running s" and l: "length (bufs s) = 31"
    and u: "buniq (bufs s)" and dl: "\<And>k. length (disk s 1 k) = 512"
    using inv by (auto simp: bio_inv_def binv_def bring_def)
  from bget_ok [OF inv nH free] obtain b v d where b: "b < 30" "b \<notin> H"
    and get: "bget ROOTDEV k s = Ret b (upd_buf b (got (p_pid (curproc s)) k v d) s)"
    and c: "b_dev (bufs s ! b) = ROOTDEV \<and> b_blockno (bufs s ! b) = k \<and> v = b_valid (bufs s ! b) \<and> d = b_dirty (bufs s ! b)
       \<or> (\<forall>j<NBUF. \<not> (b_dev (bufs s ! j) = ROOTDEV \<and> b_blockno (bufs s ! j) = k)) \<and> \<not> b_dirty (bufs s ! b) \<and> \<not> v \<and> \<not> d"
    by metis
  note ok = binv_bufok [OF binv b(1)]
  let ?g = "got (p_pid (curproc s)) k v d (bufs s ! b)"
  let ?w = "if v then ?g else ?g\<lparr>b_data := disk s 1 k, b_valid := True, b_dirty := False\<rparr>"
  have dv: "\<not> v \<Longrightarrow> \<not> d" using c ok by (auto simp: bufok_def)
  have ok': "bufok (disk s 1) (insert b H) (p_pid (curproc s)) b ?w"
    using ok k dl by (auto simp: bufok_def got_def)
  have other: "b_blockno (bufs s ! j) \<noteq> k" if "j < 30" "j \<noteq> b" "b_dev (bufs s ! j) = 1" for j
    using c u that b(1) by (auto simp: buniq_def)
  have binv': "binv ((bufs s)[b := ?w]) (disk s 1) (insert b H) (p_pid (curproc s))"
    using other b by (intro binv_upd [OF binv _ ok']) (auto simp: got_def)
  have view: "bview ((bufs s)[b := ?w]) (disk s 1) = view s"
    unfolding view_def
    by (rule bview_upd_same [OF binv binv']) (use ok b c in \<open>auto simp: bufok_def got_def\<close>)
  have "bread ROOTDEV k s = Ret b (s\<lparr>procs := if v then procs s else wake (ChBuf b) (procs s), bufs := (bufs s)[b := ?w]\<rparr>)"
  proof (cases v)
    case True
    then show ?thesis using b(1) l by (simp add: bread_def get got_def)
  next
    case False
    have "iderw b (upd_buf b (got (p_pid (curproc s)) k v d) s)
       = Ret () (s\<lparr>procs := wake (ChBuf b) (procs s), bufs := (bufs s)[b := ?w]\<rparr>)"
      using False dv b(1) l k inv
      by (subst iderw_read) (auto simp: got_def bio_inv_def intro!: bio.equality)
    then show ?thesis using False b(1) l by (simp add: bread_def get got_def)
  qed
  moreover have "b_data ?w = view s k"
    using bview_hit [OF _ _ b(1), of "(bufs s)[b := ?w]" "disk s 1"] view binv' l b(1)
    by (simp add: binv_def got_def split: if_splits)
  moreover have "b_dirty ?w = (\<exists>i<30. b_blockno (bufs s ! i) = k \<and> b_dirty (bufs s ! i))"
    using c dv b other binv_bufok [OF binv] by (auto simp: got_def bufok_def)
  ultimately show thesis using that [of b ?w "if v then procs s else wake (ChBuf b) (procs s)"] b binv' view c dv by (auto simp: got_def split: if_splits)
qed

text \<open>
  The operations that only move blocks between the disk and the cache change the buffers and wake
  sleepers; nothing else of the kernel state is touched.
\<close>

definition bframe :: "'x bio_scheme \<Rightarrow> 'x bio_scheme \<Rightarrow> bool" where
  "bframe s s' \<longleftrightarrow> (\<exists>ps bs. s' = s\<lparr>procs := ps, bufs := bs\<rparr> \<and> woken (procs s) ps)"

lemma bframe_refl [simp, intro]: "bframe s s"
  unfolding bframe_def by (rule exI [of _ "procs s"], rule exI [of _ "bufs s"]) simp

lemma bframe_bufs [simp, intro]: "bframe s (s\<lparr>bufs := bs\<rparr>)"
  unfolding bframe_def by (rule exI [of _ "procs s"], rule exI [of _ "bs"]) simp

lemma bframe_trans: "bframe s t \<Longrightarrow> bframe t u \<Longrightarrow> bframe s u"
  unfolding bframe_def
proof (elim exE conjE)
  fix ps bs qs cs
  assume "t = s\<lparr>procs := ps, bufs := bs\<rparr>" "u = t\<lparr>procs := qs, bufs := cs\<rparr>"
    "woken (procs s) ps" "woken (procs t) qs"
  then have "u = s\<lparr>procs := qs, bufs := cs\<rparr> \<and> woken (procs s) qs" by (auto intro: woken_trans)
  then show "\<exists>ps bs. u = s\<lparr>procs := ps, bufs := bs\<rparr> \<and> woken (procs s) ps" by blast
qed

lemma bframe_running: "bframe s t \<Longrightarrow> running s \<Longrightarrow> running t \<and> curproc t = curproc s"
  by (auto simp: bframe_def running_woken)

lemma bio_inv_facts:
  assumes "bio_inv s H"
  shows "running s" "H \<subseteq> {..<NBUF}" "finite H" "length (bufs s) = NBUF + 1" "length (view s k) = BSIZE"
    "binv (bufs s) (disk s 1) H (p_pid (curproc s))" "buniq (bufs s)"
proof -
  show b: "binv (bufs s) (disk s 1) H (p_pid (curproc s))" and "running s" "buniq (bufs s)"
    and H: "H \<subseteq> {..<NBUF}" and l: "length (bufs s) = NBUF + 1"
    using assms by (auto simp: bio_inv_def binv_def bring_def)
  show "finite H" using H by (rule finite_subset) simp
  from l \<open>buniq (bufs s)\<close> show "length (view s k) = BSIZE"
  proof (cases rule: bview_cases [where k = k])
    case (hit i)
    then show ?thesis using binv_bufok [OF b hit(1)] by (simp add: view_def bufok_def)
  next
    case miss
    then show ?thesis using assms by (simp add: view_def bio_inv_def)
  qed
qed

lemma held_buf:
  assumes "bio_inv s H" "b \<in> H"
  shows "b < NBUF" "b < length (bufs s)" "length (b_data (bufs s ! b)) = BSIZE" "b_refcnt (bufs s ! b) = 1"
    "sl_locked (b_lock (bufs s ! b))" "sl_pid (b_lock (bufs s ! b)) = p_pid (curproc s)"
    "b_valid (bufs s ! b) \<Longrightarrow> b_dev (bufs s ! b) = ROOTDEV"
    "b_valid (bufs s ! b) \<Longrightarrow> b_blockno (bufs s ! b) < 1000"
    "b_valid (bufs s ! b) \<Longrightarrow> view s (b_blockno (bufs s ! b)) = b_data (bufs s ! b)"
proof -
  note f = bio_inv_facts [OF assms(1)]
  show b: "b < NBUF" using f(2) assms(2) by auto
  with f(4) show "b < length (bufs s)" by simp
  note ok = binv_bufok [OF f(6) b]
  then show "length (b_data (bufs s ! b)) = BSIZE" "b_refcnt (bufs s ! b) = 1"
    "sl_locked (b_lock (bufs s ! b))" "sl_pid (b_lock (bufs s ! b)) = p_pid (curproc s)"
    and d: "b_valid (bufs s ! b) \<Longrightarrow> b_dev (bufs s ! b) = ROOTDEV"
    and "b_valid (bufs s ! b) \<Longrightarrow> b_blockno (bufs s ! b) < 1000"
    using assms(2) by (auto simp: bufok_def)
  show "b_valid (bufs s ! b) \<Longrightarrow> view s (b_blockno (bufs s ! b)) = b_data (bufs s ! b)"
    using bview_hit [OF f(4,7) b] d by (simp add: view_def)
qed

lemma card_dirty:
  assumes "bio_inv s H"
  shows "card {i. i < NBUF \<and> b_dirty (bufs s ! i)} = card (dirtyset s)"
proof -
  have "inj_on (\<lambda>i. b_blockno (bufs s ! i)) {i. i < NBUF \<and> b_dirty (bufs s ! i)}"
    using bio_inv_facts(7) [OF assms] binv_bufok [OF bio_inv_facts(6) [OF assms]]
    by (auto simp: inj_on_def buniq_def bufok_def)
  moreover have "dirtyset s = (\<lambda>i. b_blockno (bufs s ! i)) ` {i. i < NBUF \<and> b_dirty (bufs s ! i)}"
    by (auto simp: dirtyset_def)
  ultimately show ?thesis by (simp add: card_image)
qed

lemma free_buffer:
  assumes "bio_inv s H" "card H + card (dirtyset s) < NBUF"
  shows "\<exists>i<NBUF. i \<notin> H \<and> \<not> b_dirty (bufs s ! i)"
proof (rule ccontr)
  assume "\<not> ?thesis"
  then have "{..<NBUF} \<subseteq> H \<union> {i. i < NBUF \<and> b_dirty (bufs s ! i)}" by auto
  then have "NBUF \<le> card (H \<union> {i. i < NBUF \<and> b_dirty (bufs s ! i)})"
    using card_mono [of "H \<union> {i. i < NBUF \<and> b_dirty (bufs s ! i)}" "{..<NBUF}"] bio_inv_facts(3) [OF assms(1)] by simp
  also have "\<dots> \<le> card H + card (dirtyset s)"
    using card_Un_le [of H] by (simp add: card_dirty [OF assms(1), symmetric])
  finally show False using assms(2) by simp
qed

lemma bio_inv_frame:
  assumes "bio_inv s H" "woken (procs s) ps" "binv bs (disk s 1) H' (p_pid (curproc s))"
  shows "bio_inv (s\<lparr>procs := ps, bufs := bs\<rparr>) H'"
  using assms running_woken [of s ps] by (auto simp: bio_inv_def)

lemma wp_bread [wp_rules]:
  assumes inv: "bio_inv s H" and k: "k < 1000" and nH: "\<And>i. i \<in> H \<Longrightarrow> b_blockno (bufs s ! i) \<noteq> k"
    and free: "k \<in> dirtyset s \<or> card H + card (dirtyset s) < NBUF"
    and Q: "\<And>b s'. b < NBUF \<Longrightarrow> b \<notin> H \<Longrightarrow> bframe s s' \<Longrightarrow> bio_inv s' (insert b H) \<Longrightarrow> b_valid (bufs s' ! b) \<Longrightarrow>
      b_dev (bufs s' ! b) = ROOTDEV \<Longrightarrow> b_blockno (bufs s' ! b) = k \<Longrightarrow> b_data (bufs s' ! b) = view s k \<Longrightarrow>
      (b_dirty (bufs s' ! b) \<longleftrightarrow> k \<in> dirtyset s) \<Longrightarrow>
      view s' = view s \<Longrightarrow> dirtyset s' = dirtyset s \<Longrightarrow>
      (\<And>j. j \<in> H \<Longrightarrow> bcore (bufs s' ! j) = bcore (bufs s ! j)) \<Longrightarrow> Q b s'"
  shows "wp (bread ROOTDEV k s) Q"
proof -
  have "k \<in> dirtyset s \<or> (\<exists>i<NBUF. i \<notin> H \<and> \<not> b_dirty (bufs s ! i))"
    using free free_buffer [OF inv] by blast
  from bread_step [OF inv k nH this] obtain b v ps where
    r: "bread ROOTDEV k s = Ret b (s\<lparr>procs := ps, bufs := (bufs s)[b := v]\<rparr>)" "woken (procs s) ps"
    and b: "b < NBUF" "b \<notin> H" and i': "binv ((bufs s)[b := v]) (disk s 1) (insert b H) (p_pid (curproc s))"
    and v: "b_dev v = ROOTDEV" "b_blockno v = k" "b_valid v" "b_data v = view s k"
    and d: "b_dirty v = (\<exists>i<NBUF. b_blockno (bufs s ! i) = k \<and> b_dirty (bufs s ! i))"
    and d': "b_dirty v \<Longrightarrow> b_blockno (bufs s ! b) = k" "b_dirty (bufs s ! b) \<Longrightarrow> b_blockno (bufs s ! b) = k"
    and vw: "bview ((bufs s)[b := v]) (disk s 1) = view s"
    by metis
  have l: "b < length (bufs s)" using bio_inv_facts(4) [OF inv] b(1) by simp
  have n: "(bufs s)[b := v] ! i = (if i = b then v else bufs s ! i)" for i
    using l by (auto simp: nth_list_update)
  have "dirtyset (s\<lparr>procs := ps, bufs := (bufs s)[b := v]\<rparr>) = dirtyset s"
    (is "?D = _")
  proof (intro set_eqI iffI)
    fix x assume "x \<in> ?D"
    then obtain i where "i < 30" "b_dirty ((bufs s)[b := v] ! i)" "b_blockno ((bufs s)[b := v] ! i) = x"
      by (auto simp: dirtyset_def)
    then show "x \<in> dirtyset s" using d v(2) unfolding n dirtyset_def by (cases "i = b") auto
  next
    fix x assume "x \<in> dirtyset s"
    then obtain i where i: "i < 30" "b_dirty (bufs s ! i)" "b_blockno (bufs s ! i) = x"
      by (auto simp: dirtyset_def)
    show "x \<in> ?D"
    proof (cases "i = b")
      case True
      with i d d'(2) v(2) b(1) have "b_dirty v" "b_blockno v = x" by auto
      then show ?thesis using b(1) l by (auto simp: dirtyset_def intro!: exI [of _ b])
    next
      case False
      then show ?thesis using i by (auto simp: dirtyset_def intro!: exI [of _ i])
    qed
  qed
  then have "Q b (s\<lparr>procs := ps, bufs := (bufs s)[b := v]\<rparr>)"
    using b r(2) v d l vw i' by (intro Q bio_inv_frame [OF inv]) (auto simp: n view_def bframe_def dirtyset_def)
  then show ?thesis by (simp add: r(1))
qed

text \<open>The holder of a buffer may change its data, or mark it to stay until it is written.\<close>

lemma bio_inv_upd_held:
  assumes inv: "bio_inv s H" and b: "b \<in> H" and v: "b_valid (bufs s ! b)"
    and f: "length (b_data v) = BSIZE" "b_refcnt v = b_refcnt (bufs s ! b)" "b_lock v = b_lock (bufs s ! b)"
      "b_dev v = b_dev (bufs s ! b)" "b_blockno v = b_blockno (bufs s ! b)" "b_valid v"
      "b_next v = b_next (bufs s ! b)" "b_prev v = b_prev (bufs s ! b)"
  shows "bio_inv (s\<lparr>bufs := (bufs s)[b := v]\<rparr>) H"
proof -
  note fs = bio_inv_facts [OF inv] and h = held_buf [OF inv b]
  have "binv ((bufs s)[b := v]) (disk s 1) H (p_pid (curproc s))"
  proof (rule binv_upd [OF fs(6) h(1)])
    show "bufok (disk s 1) H (p_pid (curproc s)) b v"
      using binv_bufok [OF fs(6) h(1)] b v f by (auto simp: bufok_def)
  qed (use fs(7) h(1) f in \<open>auto simp: buniq_def\<close>)
  with inv show ?thesis by (auto simp: bio_inv_def)
qed

lemma view_upd_held:
  assumes inv: "bio_inv s H" and b: "b \<in> H" and v: "b_valid (bufs s ! b)"
    and f: "length (b_data v) = BSIZE" "b_refcnt v = b_refcnt (bufs s ! b)" "b_lock v = b_lock (bufs s ! b)"
      "b_dev v = b_dev (bufs s ! b)" "b_blockno v = b_blockno (bufs s ! b)" "b_valid v"
      "b_next v = b_next (bufs s ! b)" "b_prev v = b_prev (bufs s ! b)"
  shows "view (s\<lparr>bufs := (bufs s)[b := v]\<rparr>) = (view s)(b_blockno (bufs s ! b) := b_data v)"
proof
  fix k
  let ?bs = "(bufs s)[b := v]"
  note fs = bio_inv_facts [OF inv] and h = held_buf [OF inv b]
  note fs' = bio_inv_facts [OF bio_inv_upd_held [OF inv b v f]]
  have l: "length ?bs = NBUF + 1" "buniq ?bs" using fs' by auto
  show "view (s\<lparr>bufs := ?bs\<rparr>) k = ((view s)(b_blockno (bufs s ! b) := b_data v)) k"
  proof (cases "k = b_blockno (bufs s ! b)")
    case True
    then show ?thesis using bview_hit [OF l h(1), of "disk s 1"] f h v by (simp add: view_def)
  next
    case False
    from fs(4,7) show ?thesis
    proof (cases rule: bview_cases [where k = k])
      case (hit i)
      then have "i \<noteq> b" using False by auto
      then show ?thesis using bview_hit [OF l hit(1), of "disk s 1"] hit False by (simp add: view_def)
    next
      case miss
      have "bview ?bs (disk s 1) k = disk s 1 k"
      proof (rule bview_miss [OF l(1)])
        fix i assume "i < NBUF" "b_valid (?bs ! i)" "b_dev (?bs ! i) = ROOTDEV"
        then show "b_blockno (?bs ! i) \<noteq> k" using miss(1) [of i] f False h by (cases "i = b") auto
      qed
      then show ?thesis using miss False by (simp add: view_def)
    qed
  qed
qed

lemma bset_ok:
  assumes "bio_inv s H" "b \<in> H" "b_valid (bufs s ! b)" "length d = BSIZE"
  shows "bio_inv (upd_buf b (\<lambda>x. x\<lparr>b_data := d\<rparr>) s) H"
    and "view (upd_buf b (\<lambda>x. x\<lparr>b_data := d\<rparr>) s) = (view s)(b_blockno (bufs s ! b) := d)"
    and "dirtyset (upd_buf b (\<lambda>x. x\<lparr>b_data := d\<rparr>) s) = dirtyset s"
proof -
  show "bio_inv (upd_buf b (\<lambda>x. x\<lparr>b_data := d\<rparr>) s) H"
    using assms by (intro bio_inv_upd_held) auto
  show "view (upd_buf b (\<lambda>x. x\<lparr>b_data := d\<rparr>) s) = (view s)(b_blockno (bufs s ! b) := d)"
    using view_upd_held [OF assms(1-3), of "(bufs s ! b)\<lparr>b_data := d\<rparr>"] assms by simp
  have n: "b_dirty ((bufs s)[b := (bufs s ! b)\<lparr>b_data := d\<rparr>] ! i) = b_dirty (bufs s ! i)"
    "b_blockno ((bufs s)[b := (bufs s ! b)\<lparr>b_data := d\<rparr>] ! i) = b_blockno (bufs s ! i)" for i
    using held_buf(2) [OF assms(1,2)] by (auto simp: nth_list_update)
  show "dirtyset (upd_buf b (\<lambda>x. x\<lparr>b_data := d\<rparr>) s) = dirtyset s"
    by (simp add: dirtyset_def n)
qed

lemma bdirty_ok:
  assumes "bio_inv s H" "b \<in> H" "b_valid (bufs s ! b)"
  shows "bio_inv (upd_buf b (\<lambda>x. x\<lparr>b_dirty := True\<rparr>) s) H"
    and "view (upd_buf b (\<lambda>x. x\<lparr>b_dirty := True\<rparr>) s) = view s"
    and "dirtyset (upd_buf b (\<lambda>x. x\<lparr>b_dirty := True\<rparr>) s) = insert (b_blockno (bufs s ! b)) (dirtyset s)"
proof -
  note h = held_buf [OF assms(1,2)]
  show "bio_inv (upd_buf b (\<lambda>x. x\<lparr>b_dirty := True\<rparr>) s) H"
    using assms h by (intro bio_inv_upd_held) auto
  show "view (upd_buf b (\<lambda>x. x\<lparr>b_dirty := True\<rparr>) s) = view s"
    using view_upd_held [OF assms(1-3), of "(bufs s ! b)\<lparr>b_dirty := True\<rparr>"] assms h by (simp add: fun_eq_iff)
  show "dirtyset (upd_buf b (\<lambda>x. x\<lparr>b_dirty := True\<rparr>) s) = insert (b_blockno (bufs s ! b)) (dirtyset s)"
    using h(1,2) by (auto simp: dirtyset_def nth_list_update split: if_splits)
qed

lemma running_upd_disk [simp]: "running (s\<lparr>disk := d\<rparr>) = running s" "running (s\<lparr>dwrites := w\<rparr>) = running s"
  and curproc_upd_disk [simp]: "curproc (s\<lparr>disk := d\<rparr>) = curproc s" "curproc (s\<lparr>dwrites := w\<rparr>) = curproc s"
  by (simp_all add: running_def curproc_def myproc_def)

lemma wp_bwrite [wp_rules]:
  assumes inv: "bio_inv s H" and b: "b \<in> H" and v: "b_valid (bufs s ! b)"
    and Q: "\<And>s' ps bs. woken (procs s) ps \<Longrightarrow>
      s' = s\<lparr>procs := ps, bufs := bs, disk := (disk s)(1 := (disk s 1)(b_blockno (bufs s ! b) := b_data (bufs s ! b))),
             dwrites := dwrites s @ [(1, b_blockno (bufs s ! b), b_data (bufs s ! b))]\<rparr> \<Longrightarrow>
      bio_inv s' H \<Longrightarrow> view s' = view s \<Longrightarrow> dirtyset s' = dirtyset s - {b_blockno (bufs s ! b)} \<Longrightarrow>
      bs ! b = (bufs s ! b)\<lparr>b_valid := True, b_dirty := False\<rparr> \<Longrightarrow>
      (\<And>j. j \<noteq> b \<Longrightarrow> bs ! j = bufs s ! j) \<Longrightarrow> Q () s'"
  shows "wp (bwrite b s) Q"
proof -
  note fs = bio_inv_facts [OF inv] and h = held_buf [OF inv b]
  let ?k = "b_blockno (bufs s ! b)" and ?v = "(bufs s ! b)\<lparr>b_valid := True, b_dirty := False\<rparr>"
  let ?bs = "(bufs s)[b := ?v]" and ?dk = "(disk s 1)(b_blockno (bufs s ! b) := b_data (bufs s ! b))"
  let ?s = "s\<lparr>procs := wake (ChBuf b) (procs s), bufs := ?bs, disk := (disk s)(1 := ?dk),
             dwrites := dwrites s @ [(1, b_blockno (bufs s ! b), b_data (bufs s ! b))]\<rparr>"
  have q: "idequeue s = []" "havedisk1 s" "\<forall>k. length (disk s 1 k) = BSIZE" using inv by (auto simp: bio_inv_def)
  have d: "b_dev (bufs s ! b) = 1" "?k < 1000" using h v by auto
  have "iderw b (upd_buf b (\<lambda>x. x\<lparr>b_dirty := True\<rparr>) s) = Ret () ?s"
    using h d q fs(1) by (subst iderw_write) (auto simp: Let_def intro!: bio.equality)
  then have w: "bwrite b s = Ret () ?s"
    using h by (simp add: bwrite_def holdingsleep_buf_ok [OF fs(1)])
  have "bufok ?dk H (p_pid (curproc s)) b ?v"
    using binv_bufok [OF fs(6) h(1)] v b d by (auto simp: bufok_def)
  moreover have o: "bufok ?dk H (p_pid (curproc s)) j (bufs s ! j)" if "j < NBUF" "j \<noteq> b" for j
    using binv_bufok [OF fs(6) that(1)] fs(7) that h(1) d by (auto simp: bufok_def buniq_def)
  ultimately have ok: "bufok ?dk H (p_pid (curproc s)) j (?bs ! j)" if "j < NBUF" for j
    using that h(2) by (cases "j = b") auto
  have n: "b_dev (?bs ! j) = b_dev (bufs s ! j)" "b_blockno (?bs ! j) = b_blockno (bufs s ! j)" for j
    using h(2) by (auto simp: nth_list_update)
  have "buniq ?bs" using fs(7) by (simp add: buniq_def n)
  then have bi: "binv ?bs ?dk H (p_pid (curproc s))"
    using fs(6) ok by (simp add: binv_def)
  then have inv': "bio_inv ?s H"
    using inv running_woken [OF fs(1) woken_wake] h by (auto simp: bio_inv_def)
  have l: "length ?bs = NBUF + 1" "buniq ?bs" using binv_length [OF bi] bi by (auto simp: binv_def)
  have "view ?s = view s"
  proof
    fix k
    have "bview ?bs ?dk k = bview (bufs s) (disk s 1) k"
    proof (cases "k = ?k")
      case True
      then show ?thesis using bview_hit [OF l h(1), of ?dk] bview_hit [OF fs(4,7) h(1) v d(1)] h d by simp
    next
      case False
      from fs(4,7) show ?thesis
      proof (cases rule: bview_cases [where k = k])
        case (hit i)
        then have "i \<noteq> b" using False by auto
        then show ?thesis using bview_hit [OF l hit(1), of ?dk] hit by simp
      next
        case miss
        have "bview ?bs ?dk k = ?dk k"
        proof (rule bview_miss [OF l(1)])
          fix i assume "i < NBUF" "b_valid (?bs ! i)" "b_dev (?bs ! i) = ROOTDEV"
          then show "b_blockno (?bs ! i) \<noteq> k" using miss(1) [of i] False h by (cases "i = b") auto
        qed
        then show ?thesis using miss False by simp
      qed
    qed
    then show "view ?s k = view s k" by (simp add: view_def)
  qed
  moreover have "dirtyset ?s = dirtyset s - {?k}"
  proof -
    have "i = b" if "i < 30" "b_dirty (bufs s ! i)" "b_blockno (bufs s ! i) = ?k" for i
      using fs(7) binv_bufok [OF fs(6) that(1)] that h(1) d by (auto simp: bufok_def buniq_def)
    moreover have "b_dirty (?bs ! i) = (b_dirty (bufs s ! i) \<and> i \<noteq> b)" for i
      using h(2) by (auto simp: nth_list_update)
    ultimately show ?thesis by (simp add: dirtyset_def n) blast
  qed
  ultimately have "Q () ?s" using inv' h(2) by (intro Q [OF woken_wake refl]) auto
  then show ?thesis by (simp add: w)
qed

lemma bring_move:
  assumes "bring bs xs" "b \<in> set xs"
  shows "bring (bpush b (bunlink b bs)) (b # remove1 b xs)"
proof -
  from assms(2) obtain us vs where xs: "xs = us @ b # vs" by (auto dest: split_list)
  with assms(1) have d: "distinct xs" "b < NBUF" by (auto simp: bring_def ring_def)
  then have "bring (bpush b (bunlink b bs)) (b # us @ vs)"
    using assms(1) xs by (intro bring_push bring_unlink) auto
  moreover have "remove1 b xs = us @ vs" using d(1) xs by (simp add: remove1_append)
  ultimately show ?thesis by simp
qed

lemma bview_bcore:
  assumes "length cs = length bs" "\<And>i. bcore (cs ! i) = bcore (bs ! i)"
  shows "bview cs dk = bview bs dk"
proof
  fix k
  have "map bcore cs = map bcore bs" using assms by (intro nth_equalityI) auto
  then have m: "map bcore (take NBUF cs) = map bcore (take NBUF bs)" by (metis take_map)
  let ?P = "\<lambda>b. b_valid b \<and> b_dev b = ROOTDEV \<and> b_blockno b = k"
  have P: "find_idx ?P xs = find_idx ?P (map bcore xs)" for xs
    by (induction xs) (auto simp: bcore_def)
  have "find_idx ?P (take NBUF cs) = find_idx ?P (take NBUF bs)"
    by (simp only: P [of "take NBUF cs"] P [of "take NBUF bs"] m)
  then show "bview cs dk k = bview bs dk k"
    using bcore_sel(7) [OF assms(2)] by (simp add: bview_def split: option.splits)
qed

lemma brelse_step:
  assumes "bio_inv s H" "b \<in> H"
  shows "brelse b s = Ret () (s\<lparr>procs := wake (ChBufLock b) (procs s),
     bufs := bpush b (bunlink b ((bufs s)[b := (bufs s ! b)\<lparr>b_lock := sl_free, b_refcnt := 0\<rparr>]))\<rparr>)"
  using held_buf [OF assms] bio_inv_facts(1) [OF assms(1)]
  by (simp add: brelse_def holdingsleep_buf_ok releasesleep_buf_ok Let_def)

lemma wp_brelse [wp_rules]:
  assumes inv: "bio_inv s H" and b: "b \<in> H" and v: "b_valid (bufs s ! b)"
    and c: "b_dirty (bufs s ! b) \<or> b_data (bufs s ! b) = disk s 1 (b_blockno (bufs s ! b))"
    and Q: "\<And>s'. bframe s s' \<Longrightarrow> bio_inv s' (H - {b}) \<Longrightarrow> view s' = view s \<Longrightarrow> dirtyset s' = dirtyset s \<Longrightarrow>
      (\<And>j. j \<noteq> b \<Longrightarrow> bcore (bufs s' ! j) = bcore (bufs s ! j)) \<Longrightarrow> Q () s'"
  shows "wp (brelse b s) Q"
proof -
  note fs = bio_inv_facts [OF inv] and h = held_buf [OF inv b]
  let ?v = "(bufs s ! b)\<lparr>b_lock := sl_free, b_refcnt := 0\<rparr>"
  let ?bs = "(bufs s)[b := ?v]"
  let ?cs = "bpush b (bunlink b ?bs)"
  let ?s = "s\<lparr>procs := wake (ChBufLock b) (procs s), bufs := ?cs\<rparr>"
  note r = brelse_step [OF inv b]
  have "binv ?bs (disk s 1) (H - {b}) (p_pid (curproc s))"
  proof (rule binv_upd [OF fs(6) h(1)])
    show "bufok (disk s 1) (H - {b}) (p_pid (curproc s)) b ?v"
      using binv_bufok [OF fs(6) h(1)] v c by (auto simp: bufok_def sl_free_def)
  qed (use fs(7) h(1) in \<open>auto simp: buniq_def\<close>)
  note bi = this
  have co: "bcore (?cs ! i) = bcore (?bs ! i)" for i by simp
  have "binv ?cs (disk s 1) (H - {b}) (p_pid (curproc s))"
    unfolding binv_def
  proof (intro conjI allI impI)
    obtain xs where xs: "bring ?bs xs" "set xs = {..<NBUF}" using bi by (auto simp: binv_def)
    have "set (b # remove1 b xs) = {..<NBUF}"
      using xs h(1) by (auto simp: bring_def ring_def)
    then show "\<exists>xs. bring ?cs xs \<and> set xs = {..<NBUF}"
      using bring_move [OF xs(1), of b] xs(2) h(1) by auto
  next
    fix i :: nat assume i: "i < NBUF"
    show "bufok (disk s 1) (H - {b}) (p_pid (curproc s)) i (?cs ! i)"
      using binv_bufok [OF bi i] bcore_sel [OF co [of i]] by (simp add: bufok_def)
  next
    show "buniq ?cs" using bi bcore_sel(3,4) [OF co] by (simp add: binv_def buniq_def)
  next
    show "H - {b} \<subseteq> {..<NBUF}" using bi by (simp add: binv_def)
  qed
  then have inv': "bio_inv ?s (H - {b})" by (intro bio_inv_frame [OF inv woken_wake])
  have "bview ?bs (disk s 1) = bview (bufs s) (disk s 1)"
    using bview_upd_same [OF fs(6) bi h(1)] v by simp
  moreover have "bview ?cs (disk s 1) = bview ?bs (disk s 1)" by (rule bview_bcore) simp_all
  ultimately have "view ?s = view s" by (simp add: view_def)
  moreover have "dirtyset ?s = dirtyset s"
    using bcore_sel(2,4) [OF co] h(2) by (auto simp: dirtyset_def nth_list_update split: if_splits)
  moreover have "bframe s ?s" unfolding bframe_def using woken_wake by blast
  moreover have "bcore (bufs ?s ! j) = bcore (bufs s ! j)" if "j \<noteq> b" for j using co [of j] that by simp
  ultimately have "Q () ?s" using inv' by (intro Q)
  then show ?thesis by (simp add: r)
qed

section \<open>Start-up\<close>

lemma unlinked_sel:
  assumes "unlinked b = unlinked c"
  shows "b_valid b = b_valid c" "b_dirty b = b_dirty c" "b_dev b = b_dev c"
    "b_blockno b = b_blockno c" "b_refcnt b = b_refcnt c" "b_data b = b_data c"
  using assms by (cases b, cases c, simp add: bcore_def unlinked_def)+

lemma binit_loop_unlocked:
  "i < NBUF - n \<Longrightarrow> n \<le> NBUF \<Longrightarrow> length bs = NBUF + 1 \<Longrightarrow> b_lock (bs ! i) = sl_free \<Longrightarrow> b_lock (binit_loop n bs ! i) = sl_free"
proof (induction n arbitrary: bs)
  case (Suc n)
  then show ?case
    using bcore_sel(5) [OF bcore_bpush [of "NBUF - Suc n" bs i]] by (simp add: Let_def nth_list_update)
qed simp

lemma binit_loop_locks:
  assumes "i < NBUF" "NBUF - n \<le> i" "n \<le> NBUF" "length bs = NBUF + 1"
  shows "b_lock (binit_loop n bs ! i) = sl_free"
  using assms
proof (induction n arbitrary: bs)
  case (Suc n)
  show ?case
  proof (cases "i = NBUF - Suc n")
    case True
    then show ?thesis using Suc.prems by (simp add: Let_def binit_loop_unlocked)
  next
    case False
    then show ?thesis using Suc by (simp add: Let_def)
  qed
qed simp

lemma bio_inv_binit:
  assumes run: "running s" and z: "bufs s = replicate (NBUF + 1) buf_zero"
    and d: "idequeue s = []" "\<not> ide_fault s" "havedisk1 s" "\<forall>k. length (disk s 1 k) = BSIZE"
  shows "bio_inv (binit s) {} \<and> view (binit s) = disk s 1 \<and> dirtyset (binit s) = {}"
proof -
  let ?b0 = "(replicate (NBUF + 1) buf_zero)[HEAD := buf_zero\<lparr>b_prev := HEAD, b_next := HEAD\<rparr>]"
  let ?bs = "binit_loop NBUF ?b0"
  have s: "bufs (binit s) = ?bs" by (simp add: binit_def z)
  have "bring ?b0 (rev [0..<NBUF - NBUF])" by (simp add: bring_def ring_def)
  then have r: "bring ?bs (rev [0..<NBUF])" by (rule bring_binit_loop) simp
  have u: "unlinked (?bs ! i) = unlinked buf_zero" if "i < NBUF" for i
    using that by (simp add: unlinked_binit_loop)
  have lk: "b_lock (?bs ! i) = sl_free" if "i < NBUF" for i
    using that by (intro binit_loop_locks) auto
  note sel = unlinked_sel [OF u]
  have ok: "bufok dk {} pid i (?bs ! i)" if "i < NBUF" for dk pid i
    using sel [OF that] lk [OF that] by (simp add: bufok_def buf_zero_def sl_free_def)
  have "buniq ?bs" using sel(3) by (simp add: buniq_def buf_zero_def)
  with r ok have "binv ?bs dk {} pid" for dk pid
    by (auto simp: binv_def intro!: exI [of _ "rev [0..<NBUF]"])
  then have "bio_inv (binit s) {}" using run d s by (auto simp: bio_inv_def binit_def)
  moreover have "view (binit s) = disk s 1"
  proof
    fix k
    have "bview ?bs (disk s 1) k = disk s 1 k"
      using r sel(1) by (intro bview_miss) (auto simp: bring_def buf_zero_def)
    then show "view (binit s) k = disk s 1 k" by (simp add: view_def s [unfolded binit_def] binit_def)
  qed
  moreover have "dirtyset (binit s) = {}" using sel(2) by (auto simp: dirtyset_def s buf_zero_def)
  ultimately show ?thesis by blast
qed

definition bio_boot :: bio where
  "bio_boot = binit (kmem.extend (kbase.extend kbase_run (kmem.fields (\<lambda>_. 0) True 0))
     (bio.fields (replicate (NBUF + 1) buf_zero) [] True False (\<lambda>_ _. replicate BSIZE 0) []))"

lemma running_run: "running (kmem.extend (kbase.extend kbase_run m) b)"
  by (simp add: running_def kbase_run_def kbase_boot_def kbase.defs kmem.defs myproc_def)

lemma bio_boot: "bio_inv bio_boot {}" "view bio_boot k = replicate BSIZE 0" "dirtyset bio_boot = {}"
proof -
  let ?s = "kmem.extend (kbase.extend kbase_run (kmem.fields (\<lambda>_. 0) True 0))
     (bio.fields (replicate (NBUF + 1) buf_zero) [] True False (\<lambda>_ _. replicate BSIZE 0) [])"
  have "bio_inv (binit ?s) {} \<and> view (binit ?s) = disk ?s 1 \<and> dirtyset (binit ?s) = {}"
    by (rule bio_inv_binit) (simp_all add: running_run, simp_all add: kmem.defs kbase.defs bio.defs)
  then have "bio_inv bio_boot {} \<and> view bio_boot = (\<lambda>_. replicate BSIZE 0) \<and> dirtyset bio_boot = {}"
    by (simp add: bio_boot_def) (simp add: kmem.defs kbase.defs bio.defs)
  then show "bio_inv bio_boot {}" "view bio_boot k = replicate BSIZE 0" "dirtyset bio_boot = {}" by auto
qed

lemma finite_dirtyset [simp]: "finite (dirtyset s)"
  by (rule finite_subset [of _ "(\<lambda>i. b_blockno (bufs s ! i)) ` {..<NBUF}"]) (auto simp: dirtyset_def)

text \<open>A block written through: read, changed, written and released.\<close>

lemma wp_write_block:
  assumes inv: "bio_inv s {}" and k: "k < 1000" and free: "card (dirtyset s) < NBUF" and d: "length d = BSIZE"
    and f: "\<And>b s'. bframe s s' \<Longrightarrow> b_data (bufs s' ! b) = view s k \<Longrightarrow> f b s' = d"
    and Q: "\<And>s' ps bs. s' = s\<lparr>procs := ps, bufs := bs, disk := (disk s)(1 := (disk s 1)(k := d)),
          dwrites := dwrites s @ [(1, k, d)]\<rparr> \<Longrightarrow> woken (procs s) ps \<Longrightarrow>
       bio_inv s' {} \<Longrightarrow> view s' = (view s)(k := d) \<Longrightarrow> dirtyset s' = dirtyset s - {k} \<Longrightarrow> Q () s'"
  shows "wp (kbind (bread ROOTDEV k s) (\<lambda>b s.
           kbind (bwrite b (upd_buf b (\<lambda>x. x\<lparr>b_data := f b s\<rparr>) s)) (\<lambda>_ s. brelse b s))) Q"
  unfolding wp_kbind
proof (rule wp_bread [OF inv k])
  show "k \<in> dirtyset s \<or> card {} + card (dirtyset s) < NBUF" using free by simp
next
  fix b s1
  assume b: "b < NBUF" "bframe s s1" "bio_inv s1 {b}" "b_valid (bufs s1 ! b)" "b_blockno (bufs s1 ! b) = k"
      "b_data (bufs s1 ! b) = view s k"
    and v: "view s1 = view s" "dirtyset s1 = dirtyset s"
  let ?s2 = "upd_buf b (\<lambda>x. x\<lparr>b_data := d\<rparr>) s1"
  have l: "b < length (bufs s1)" using held_buf(2) [OF b(3)] by simp
  note u = bset_ok [OF b(3) _ b(4) d, simplified]
  show "wp (bwrite b (upd_buf b (\<lambda>x. x\<lparr>b_data := f b s1\<rparr>) s1)) (\<lambda>_ s. wp (brelse b s) Q)"
    unfolding f [OF b(2,6)]
  proof (rule wp_bwrite [OF u(1)])
    fix s3 ps bs
    assume w: "woken (procs ?s2) ps" "s3 = ?s2\<lparr>procs := ps, bufs := bs,
        disk := (disk ?s2)(1 := (disk ?s2 1)(b_blockno (bufs ?s2 ! b) := b_data (bufs ?s2 ! b))),
        dwrites := dwrites ?s2 @ [(1, b_blockno (bufs ?s2 ! b), b_data (bufs ?s2 ! b))]\<rparr>"
      "bio_inv s3 {b}" "view s3 = view ?s2" "dirtyset s3 = dirtyset ?s2 - {b_blockno (bufs ?s2 ! b)}"
      "bs ! b = (bufs ?s2 ! b)\<lparr>b_valid := True, b_dirty := False\<rparr>"
    show "wp (brelse b s3) Q"
    proof (rule wp_brelse [OF w(3)])
      fix s4 assume r: "bframe s3 s4" "bio_inv s4 ({b} - {b})" "view s4 = view s3" "dirtyset s4 = dirtyset s3"
      obtain ps1 bs1 where s1: "s1 = s\<lparr>procs := ps1, bufs := bs1\<rparr>" "woken (procs s) ps1"
        using b(2) by (auto simp: bframe_def)
      obtain ps4 bs4 where s4: "s4 = s3\<lparr>procs := ps4, bufs := bs4\<rparr>" "woken (procs s3) ps4"
        using r(1) by (auto simp: bframe_def)
      show "Q () s4"
      proof (rule Q)
        show "s4 = s\<lparr>procs := ps4, bufs := bs4, disk := (disk s)(1 := (disk s 1)(k := d)),
          dwrites := dwrites s @ [(1, k, d)]\<rparr>"
          using w(2) s1(1) s4(1) b(5) l by simp
        show "woken (procs s) ps4" using w(1,2) s1 s4 by (auto intro: woken_trans)
        show "bio_inv s4 {}" using r(2) by simp
        show "view s4 = (view s)(k := d)" using r(3) w(4) u(2) v b(5) by simp
        show "dirtyset s4 = dirtyset s - {k}" using r(4) w(5) u(3) v b(5) l by simp
      qed
    qed (use w l b in auto)
  qed (use l b in auto)
qed simp_all

lemma dseg_unique:
  "dseg nx pv a xs z \<Longrightarrow> dseg nx pv a ys z \<Longrightarrow> z \<notin> set xs \<Longrightarrow> z \<notin> set ys \<Longrightarrow> xs = ys"
proof (induction xs arbitrary: a ys)
  case Nil
  then show ?case by (cases ys) auto
next
  case (Cons x xs)
  then show ?case by (cases ys) auto
qed

lemma bring_unique: "bring bs xs \<Longrightarrow> bring bs ys \<Longrightarrow> xs = ys"
  by (auto simp: bring_def ring_def intro: dseg_unique)

lemma bio_boot_blockno: "i < NBUF \<Longrightarrow> b_blockno (bufs bio_boot ! i) = 0"
proof -
  let ?b0 = "(replicate (NBUF + 1) buf_zero)[HEAD := buf_zero\<lparr>b_prev := HEAD, b_next := HEAD\<rparr>]"
  assume i: "i < NBUF"
  have "bufs bio_boot = binit_loop NBUF ?b0"
    by (simp add: bio_boot_def binit_def) (simp add: kmem.defs kbase.defs bio.defs)
  moreover have "unlinked (binit_loop NBUF ?b0 ! i) = unlinked buf_zero"
    using i by (simp add: unlinked_binit_loop)
  ultimately have "b_blockno (bufs bio_boot ! i) = b_blockno buf_zero" by (metis unlinked_sel(4))
  then show ?thesis by (simp add: buf_zero_def)
qed

section \<open>Properties\<close>

text \<open>
  C24. With a buffer for the block or one to recycle, \<^verbatim>\<open>bread\<close> returns a buffer locked by the caller
  that holds exactly the block's current contents, and it changes the contents of no block.
\<close>

theorem bread_returns_block:
  assumes "bio_inv s H" "k < 1000" "\<forall>i\<in>H. b_blockno (bufs s ! i) \<noteq> k"
    and "k \<in> dirtyset s \<or> card H + card (dirtyset s) < NBUF"
  shows "wp (bread ROOTDEV k s) (\<lambda>b s'. b < NBUF \<and> b \<notin> H \<and> bio_inv s' (insert b H)
     \<and> b_valid (bufs s' ! b) \<and> b_blockno (bufs s' ! b) = k \<and> b_data (bufs s' ! b) = view s k
     \<and> view s' = view s \<and> disk s' = disk s \<and> dirtyset s' = dirtyset s)"
  using assms(3,4) by (intro wp_bread [OF assms(1,2)]) (auto simp: bframe_def)

theorem bread_returns_block_witness:
  "wp (bread ROOTDEV 7 bio_boot) (\<lambda>b s'. b < NBUF \<and> b \<notin> {} \<and> bio_inv s' (insert b {})
     \<and> b_valid (bufs s' ! b) \<and> b_blockno (bufs s' ! b) = 7 \<and> b_data (bufs s' ! b) = view bio_boot 7
     \<and> view s' = view bio_boot \<and> disk s' = disk bio_boot \<and> dirtyset s' = dirtyset bio_boot)"
  by (rule bread_returns_block [OF bio_boot(1)]) (simp_all add: bio_boot)

text \<open>
  C31. Written through the cache and released, a block reads back as it was written, every other block
  as it was before, and the disk holds the new contents.
\<close>

theorem bwrite_bread_roundtrip:
  assumes "bio_inv s {}" "k < 1000" "j < 1000" "card (dirtyset s) < NBUF" "length d = BSIZE"
  shows "wp (kbind (kbind (bread ROOTDEV k s) (\<lambda>b s.
                    kbind (bwrite b (upd_buf b (\<lambda>x. x\<lparr>b_data := d\<rparr>) s)) (\<lambda>_ s. brelse b s)))
             (\<lambda>_ s. bread ROOTDEV j s))
     (\<lambda>c s'. b_data (bufs s' ! c) = (if j = k then d else view s j)
        \<and> disk s' 1 = (disk s 1)(k := d) \<and> view s' = (view s)(k := d))"
  unfolding wp_kbind [where f = "\<lambda>_ s. bread ROOTDEV j s"]
proof (rule wp_write_block [OF assms(1,2,4,5) refl])
  fix s' ps bs
  assume s0: "s' = s\<lparr>procs := ps, bufs := bs, disk := (disk s)(1 := (disk s 1)(k := d)),
          dwrites := dwrites s @ [(1, k, d)]\<rparr>"
    and "bio_inv s' {}" "view s' = (view s)(k := d)" "dirtyset s' = dirtyset s - {k}"
  moreover have "disk s' 1 = (disk s 1)(k := d)" using s0 by simp
  ultimately have s': "bio_inv s' {}" "view s' = (view s)(k := d)" "disk s' 1 = (disk s 1)(k := d)"
    "dirtyset s' = dirtyset s - {k}" by blast+
  have "card (dirtyset s - {k}) \<le> card (dirtyset s)" by (intro card_mono) (simp_all add: finite_dirtyset)
  then have "j \<in> dirtyset s' \<or> card {} + card (dirtyset s') < NBUF" using assms(4) s'(4) by simp
  then show "wp (bread ROOTDEV j s')
     (\<lambda>c s'. b_data (bufs s' ! c) = (if j = k then d else view s j)
        \<and> disk s' 1 = (disk s 1)(k := d) \<and> view s' = (view s)(k := d))"
  proof (rule wp_bread [OF s'(1) assms(3), rotated])
    fix c t assume "bframe s' t" "b_data (bufs t ! c) = view s' j" "view t = view s'"
    moreover from this(1) have "disk t = disk s'" by (auto simp: bframe_def)
    ultimately show "b_data (bufs t ! c) = (if j = k then d else view s j)
        \<and> disk t 1 = (disk s 1)(k := d) \<and> view t = (view s)(k := d)"
      using s'(2,3) by simp
  qed simp
qed

theorem bwrite_bread_roundtrip_witness:
  "wp (kbind (kbind (bread ROOTDEV 7 bio_boot) (\<lambda>b s.
                    kbind (bwrite b (upd_buf b (\<lambda>x. x\<lparr>b_data := replicate BSIZE 255\<rparr>) s)) (\<lambda>_ s. brelse b s)))
             (\<lambda>_ s. bread ROOTDEV 7 s))
     (\<lambda>c s'. b_data (bufs s' ! c) = (if 7 = (7 :: u32) then replicate BSIZE 255 else view bio_boot 7)
        \<and> disk s' 1 = (disk bio_boot 1)(7 := replicate BSIZE 255)
        \<and> view s' = (view bio_boot)(7 := replicate BSIZE 255))"
  by (rule bwrite_bread_roundtrip [OF bio_boot(1)]) (simp_all add: bio_boot)

text \<open>
  C32. The list is kept in the order of use: a buffer that is released for the last time moves to the
  front, and when a block has no buffer \<^verbatim>\<open>bget\<close> recycles the one that was released longest ago
  among those that are free and clean.
\<close>

theorem bcache_lru:
  assumes "bio_inv s H" "bring (bufs s) xs" "b \<in> H"
    and "\<forall>i<NBUF. b_blockno (bufs s ! i) \<noteq> k" "card H + card (dirtyset s) < NBUF"
  shows "wp (brelse b s) (\<lambda>_ s'. bring (bufs s') (b # remove1 b xs))
    \<and> wp (bget ROOTDEV k s)
        (\<lambda>c s'. find (\<lambda>i. i \<notin> H \<and> \<not> b_dirty (bufs s ! i)) (rev xs) = Some c)"
proof
  have xs: "set xs = {..<NBUF}"
    using assms(1) bring_unique [OF assms(2)] by (auto simp: bio_inv_def binv_def)
  have b: "b \<in> set xs" using xs held_buf(1) [OF assms(1,3)] by simp
  have "bring ((bufs s)[b := (bufs s ! b)\<lparr>b_lock := sl_free, b_refcnt := 0\<rparr>]) xs"
    using assms(2) by simp
  from bring_move [OF this b] show "wp (brelse b s) (\<lambda>_ s'. bring (bufs s') (b # remove1 b xs))"
    by (simp add: brelse_step [OF assms(1,3)])
  have "find (\<lambda>i. i \<notin> H \<and> \<not> b_dirty (bufs s ! i)) (rev xs) \<noteq> None"
    using free_buffer [OF assms(1,5)] xs unfolding find_None_iff by auto
  then obtain i where F: "find (\<lambda>i. i \<notin> H \<and> \<not> b_dirty (bufs s ! i)) (rev xs) = Some i" by auto
  then have i: "i < NBUF" "i \<notin> H" using find_SomeD [OF F] xs by auto
  have "find (\<lambda>i. b_dev (bufs s ! i) = ROOTDEV \<and> b_blockno (bufs s ! i) = k) xs = None"
    using assms(4) xs by (auto simp: find_None_iff)
  moreover have "find (\<lambda>i. b_refcnt (bufs s ! i) = 0 \<and> \<not> b_dirty (bufs s ! i)) (rev xs) = Some i"
    using F xs by (subst find_free [OF assms(1)]) auto
  ultimately show "wp (bget ROOTDEV k s)
        (\<lambda>c s'. find (\<lambda>i. i \<notin> H \<and> \<not> b_dirty (bufs s ! i)) (rev xs) = Some c)"
    using F by (simp add: bget_miss [OF assms(1,2) i])
qed

theorem bcache_lru_witness:
  "wp (bread ROOTDEV 3 bio_boot) (\<lambda>b s. \<exists>xs. bring (bufs s) xs
     \<and> wp (brelse b s) (\<lambda>_ s'. bring (bufs s') (b # remove1 b xs))
     \<and> wp (bget ROOTDEV 7 s)
        (\<lambda>c s'. find (\<lambda>i. i \<notin> {b} \<and> \<not> b_dirty (bufs s ! i)) (rev xs) = Some c))"
proof -
  have nd: "\<not> b_dirty (bufs bio_boot ! i)" if "i < NBUF" for i
    using bio_boot(3) that by (auto simp: dirtyset_def)
  obtain b v ps where
    r: "bread ROOTDEV 3 bio_boot = Ret b (bio_boot\<lparr>procs := ps, bufs := (bufs bio_boot)[b := v]\<rparr>)"
      "woken (procs bio_boot) ps" "binv ((bufs bio_boot)[b := v]) (disk bio_boot 1) {b} (p_pid (curproc bio_boot))"
    and bv: "b < NBUF" "b_blockno v = 3"
      "b_dirty v = (\<exists>i<NBUF. b_blockno (bufs bio_boot ! i) = 3 \<and> b_dirty (bufs bio_boot ! i))"
    by (rule bread_step [OF bio_boot(1), of 3]) (use nd in \<open>auto intro!: exI [of _ 0]\<close>)
  then have b: "b < NBUF" "b_blockno v = 3" "\<not> b_dirty v" using nd by auto
  let ?s = "bio_boot\<lparr>procs := ps, bufs := (bufs bio_boot)[b := v]\<rparr>"
  have inv: "bio_inv ?s {b}" by (rule bio_inv_frame [OF bio_boot(1) r(2,3)])
  have k: "b_blockno (bufs ?s ! i) \<noteq> 7" if "i < NBUF" for i
    using that b bio_boot_blockno [of i] bio_inv_facts(4) [OF bio_boot(1)]
    by (cases "i = b") (auto simp: nth_list_update)
  have "dirtyset ?s = {}" using b nd bio_inv_facts(4) [OF bio_boot(1)]
    by (auto simp: dirtyset_def nth_list_update)
  moreover obtain xs where "bring (bufs ?s) xs" using r(3) by (auto simp: binv_def)
  ultimately show ?thesis using bcache_lru [OF inv, of xs b 7] k r(1) by auto
qed

end
