(* ===== verification/Layout.thy ===== *)
theory Layout
  imports Prelude
begin

text \<open>
  Structures in a block of bytes: little-endian 16- and 32-bit fields at an offset, and a copy of
  bytes to an offset, as the casts \<^verbatim>\<open>(struct logheader *) buf->data\<close> and the calls of \<^verbatim>\<open>memmove\<close> in
  \<^verbatim>\<open>log.c\<close> and \<^verbatim>\<open>fs.c\<close> read and write them.
\<close>

definition blit :: "nat \<Rightarrow> bytes \<Rightarrow> bytes \<Rightarrow> bytes" where
  "blit off src bs = take off bs @ src @ drop (off + length src) bs"

definition slice :: "nat \<Rightarrow> nat \<Rightarrow> bytes \<Rightarrow> bytes" where
  "slice off n bs = take n (drop off bs)"

definition le16 :: "nat \<Rightarrow> bytes \<Rightarrow> u16" where
  "le16 off bs = ucast (bs ! off) OR push_bit 8 (ucast (bs ! (off + 1)))"

definition le32 :: "nat \<Rightarrow> bytes \<Rightarrow> u32" where
  "le32 off bs = ucast (bs ! off) OR push_bit 8 (ucast (bs ! (off + 1)))
     OR push_bit 16 (ucast (bs ! (off + 2))) OR push_bit 24 (ucast (bs ! (off + 3)))"

definition set_le16 :: "nat \<Rightarrow> u16 \<Rightarrow> bytes \<Rightarrow> bytes" where
  "set_le16 off v bs = blit off [ucast v, ucast (drop_bit 8 v)] bs"

definition set_le32 :: "nat \<Rightarrow> u32 \<Rightarrow> bytes \<Rightarrow> bytes" where
  "set_le32 off v bs =
     blit off [ucast v, ucast (drop_bit 8 v), ucast (drop_bit 16 v), ucast (drop_bit 24 v)] bs"

section \<open>Copies\<close>

lemma length_blit [simp]: "off + length src \<le> length bs \<Longrightarrow> length (blit off src bs) = length bs"
  by (simp add: blit_def)

lemma nth_blit:
  assumes "off + length src \<le> length bs"
  shows "blit off src bs ! i = (if off \<le> i \<and> i < off + length src then src ! (i - off) else bs ! i)"
  using assms by (auto simp: blit_def nth_append)

lemma slice_blit_same:
  assumes "off + length src \<le> length bs"
  shows "slice off (length src) (blit off src bs) = src"
  using assms by (simp add: slice_def blit_def)

lemma length_slice [simp]: "off + n \<le> length bs \<Longrightarrow> length (slice off n bs) = n"
  by (simp add: slice_def)

lemma nth_slice: "off + n \<le> length bs \<Longrightarrow> i < n \<Longrightarrow> slice off n bs ! i = bs ! (off + i)"
  by (simp add: slice_def)

lemma slice_blit_other:
  assumes "off + length src \<le> length bs" "o2 + n \<le> length bs" "o2 + n \<le> off \<or> off + length src \<le> o2"
  shows "slice o2 n (blit off src bs) = slice o2 n bs"
  using assms by (intro nth_equalityI) (auto simp: nth_slice nth_blit)

section \<open>Fields\<close>

lemma length_set_le32 [simp]: "off + 4 \<le> length bs \<Longrightarrow> length (set_le32 off v bs) = length bs"
  and length_set_le16 [simp]: "off + 2 \<le> length bs \<Longrightarrow> length (set_le16 off w bs) = length bs"
  by (simp_all add: set_le32_def set_le16_def)

lemma le32_set_le32 [simp]: "off + 4 \<le> length bs \<Longrightarrow> le32 off (set_le32 off v bs) = v"
  by (simp add: le32_def set_le32_def nth_blit nth_Cons' bytes_of_u32)

lemma le16_set_le16 [simp]: "off + 2 \<le> length bs \<Longrightarrow> le16 off (set_le16 off v bs) = v"
  by (simp add: le16_def set_le16_def nth_blit nth_Cons' bytes_of_u16)

lemma le32_blit_other:
  "off + length src \<le> length bs \<Longrightarrow> o2 + 4 \<le> off \<or> off + length src \<le> o2 \<Longrightarrow>
     le32 o2 (blit off src bs) = le32 o2 bs"
  by (auto simp: le32_def nth_blit)

lemma le16_blit_other:
  "off + length src \<le> length bs \<Longrightarrow> o2 + 2 \<le> off \<or> off + length src \<le> o2 \<Longrightarrow>
     le16 o2 (blit off src bs) = le16 o2 bs"
  by (auto simp: le16_def nth_blit)

lemma le32_set_le32_other:
  "off + 4 \<le> length bs \<Longrightarrow> o2 + 4 \<le> off \<or> off + 4 \<le> o2 \<Longrightarrow> le32 o2 (set_le32 off v bs) = le32 o2 bs"
  unfolding set_le32_def by (rule le32_blit_other) auto

lemma le32_set_le16_other:
  "off + 2 \<le> length bs \<Longrightarrow> o2 + 4 \<le> off \<or> off + 2 \<le> o2 \<Longrightarrow> le32 o2 (set_le16 off v bs) = le32 o2 bs"
  unfolding set_le16_def by (rule le32_blit_other) auto

lemma le16_set_le16_other:
  "off + 2 \<le> length bs \<Longrightarrow> o2 + 2 \<le> off \<or> off + 2 \<le> o2 \<Longrightarrow> le16 o2 (set_le16 off v bs) = le16 o2 bs"
  unfolding set_le16_def by (rule le16_blit_other) auto

lemma le16_set_le32_other:
  "off + 4 \<le> length bs \<Longrightarrow> o2 + 2 \<le> off \<or> off + 4 \<le> o2 \<Longrightarrow> le16 o2 (set_le32 off v bs) = le16 o2 bs"
  unfolding set_le32_def by (rule le16_blit_other) auto

end
