(* ===== verification/Log.thy ===== *)
theory Log
  imports Bio Layout
begin

text \<open>
  The redo log, \<^verbatim>\<open>log.c\<close>, and \<^verbatim>\<open>readsb\<close> of \<^verbatim>\<open>fs.c\<close>, which it needs at start-up. The main result is
  that a commit is atomic: whatever write of it is the last to reach the disk before a crash,
  recovery leaves the file system's blocks either all as before the transaction or all as after.
\<close>

section \<open>State and operations\<close>

record superblock =
  sb_size :: u32
  sb_nblocks :: u32
  sb_ninodes :: u32
  sb_nlog :: u32
  sb_logstart :: u32
  sb_inodestart :: u32
  sb_bmapstart :: u32

text \<open>
  \<^verbatim>\<open>struct log\<close> and, inside it, \<^verbatim>\<open>struct logheader\<close>. The block numbers are compared with and passed as
  unsigned numbers, so they are words.
\<close>

record log = bio +
  log_start :: int
  log_size :: int
  log_outstanding :: int
  log_committing :: bool
  log_dev :: u32
  lh_n :: int
  lh_block :: "u32 list"

definition readsb :: "u32 \<Rightarrow> 'x bio_scheme \<Rightarrow> (superblock, 'x bio_scheme) outcome" where
  "readsb dev s =
     kbind (bread dev 1 s) (\<lambda>bp s.
     let d = b_data (bufs s ! bp);
         sb = \<lparr>sb_size = le32 0 d, sb_nblocks = le32 4 d, sb_ninodes = le32 8 d, sb_nlog = le32 12 d,
               sb_logstart = le32 16 d, sb_inodestart = le32 20 d, sb_bmapstart = le32 24 d\<rparr>
     in kbind (brelse bp s) (\<lambda>_ s. Ret sb s))"

abbreviation (input) log_blockno :: "'x log_scheme \<Rightarrow> nat \<Rightarrow> u32" where
  "log_blockno s tail \<equiv> word_of_int (log_start s + int tail + 1)"

text \<open>The loop of \<^verbatim>\<open>install_trans\<close>: \<open>m\<close> more blocks, the next one is \<open>tail\<close>.\<close>

fun install_trans_loop :: "nat \<Rightarrow> nat \<Rightarrow> 'x log_scheme \<Rightarrow> (unit, 'x log_scheme) outcome" where
  "install_trans_loop 0 tail s = Ret () s"
| "install_trans_loop (Suc m) tail s =
     kbind (bread (log_dev s) (log_blockno s tail) s) (\<lambda>lbuf s.
     kbind (bread (log_dev s) (lh_block s ! tail) s) (\<lambda>dbuf s.
     kbind (bwrite dbuf (upd_buf dbuf (\<lambda>x. x\<lparr>b_data := b_data (bufs s ! lbuf)\<rparr>) s)) (\<lambda>_ s.
     kbind (brelse lbuf s) (\<lambda>_ s.
     kbind (brelse dbuf s) (\<lambda>_ s.
     install_trans_loop m (Suc tail) s)))))"

definition install_trans :: "'x log_scheme \<Rightarrow> (unit, 'x log_scheme) outcome" where
  "install_trans s = install_trans_loop (nat (lh_n s)) 0 s"

text \<open>A header that claims more than \<^verbatim>\<open>LOGSIZE\<close> blocks would be copied past the array.\<close>

definition read_head :: "'x log_scheme \<Rightarrow> (unit, 'x log_scheme) outcome" where
  "read_head s =
     kbind (bread (log_dev s) (word_of_int (log_start s)) s) (\<lambda>b s.
     let d = b_data (bufs s ! b);
         n = sint (le32 0 d)
     in if n > int LOGSIZE then undef
        else let s = s\<lparr>lh_n := n,
                   lh_block := map (\<lambda>i. if int i < n then le32 (4 + 4 * i) d else lh_block s ! i) [0..<LOGSIZE]\<rparr>
             in brelse b s)"

fun put_blocks :: "nat \<Rightarrow> u32 list \<Rightarrow> bytes \<Rightarrow> bytes" where
  "put_blocks i [] d = d"
| "put_blocks i (b # bs) d = put_blocks (Suc i) bs (set_le32 (4 + 4 * i) b d)"

definition write_head :: "'x log_scheme \<Rightarrow> (unit, 'x log_scheme) outcome" where
  "write_head s =
     kbind (bread (log_dev s) (word_of_int (log_start s)) s) (\<lambda>b s.
     let d = set_le32 0 (word_of_int (lh_n s)) (b_data (bufs s ! b));
         d = put_blocks 0 (take (nat (lh_n s)) (lh_block s)) d
     in kbind (bwrite b (upd_buf b (\<lambda>x. x\<lparr>b_data := d\<rparr>) s)) (\<lambda>_ s. brelse b s))"

definition recover_from_log :: "'x log_scheme \<Rightarrow> (unit, 'x log_scheme) outcome" where
  "recover_from_log s =
     kbind (read_head s) (\<lambda>_ s.
     kbind (install_trans s) (\<lambda>_ s.
     write_head (s\<lparr>lh_n := 0\<rparr>)))"

text \<open>\<^verbatim>\<open>sizeof(struct logheader)\<close> is 124, less than \<^verbatim>\<open>BSIZE\<close>.\<close>

definition initlog :: "u32 \<Rightarrow> 'x log_scheme \<Rightarrow> (unit, 'x log_scheme) outcome" where
  "initlog dev s =
     kbind (readsb dev s) (\<lambda>sb s.
     recover_from_log (s\<lparr>log_start := sint (sb_logstart sb), log_size := sint (sb_nlog sb), log_dev := dev\<rparr>))"

definition begin_op :: "'x log_scheme \<Rightarrow> (unit, 'x log_scheme) outcome" where
  "begin_op s =
     kbind (acquire LLog s) (\<lambda>_ s.
     if log_committing s then sleep ChLog LLog s
     else if lh_n s + (log_outstanding s + 1) * int MAXOPBLOCKS > int LOGSIZE then sleep ChLog LLog s
     else release LLog (s\<lparr>log_outstanding := log_outstanding s + 1\<rparr>))"

fun write_log_loop :: "nat \<Rightarrow> nat \<Rightarrow> 'x log_scheme \<Rightarrow> (unit, 'x log_scheme) outcome" where
  "write_log_loop 0 tail s = Ret () s"
| "write_log_loop (Suc m) tail s =
     kbind (bread (log_dev s) (log_blockno s tail) s) (\<lambda>to s.
     kbind (bread (log_dev s) (lh_block s ! tail) s) (\<lambda>from s.
     kbind (bwrite to (upd_buf to (\<lambda>x. x\<lparr>b_data := b_data (bufs s ! from)\<rparr>) s)) (\<lambda>_ s.
     kbind (brelse from s) (\<lambda>_ s.
     kbind (brelse to s) (\<lambda>_ s.
     write_log_loop m (Suc tail) s)))))"

definition write_log :: "'x log_scheme \<Rightarrow> (unit, 'x log_scheme) outcome" where
  "write_log s = write_log_loop (nat (lh_n s)) 0 s"

definition commit :: "'x log_scheme \<Rightarrow> (unit, 'x log_scheme) outcome" where
  "commit s =
     (if lh_n s > 0 then
        kbind (write_log s) (\<lambda>_ s.
        kbind (write_head s) (\<lambda>_ s.
        kbind (install_trans s) (\<lambda>_ s.
        write_head (s\<lparr>lh_n := 0\<rparr>))))
      else Ret () s)"

definition end_op :: "'x log_scheme \<Rightarrow> (unit, 'x log_scheme) outcome" where
  "end_op s =
     kbind (acquire LLog s) (\<lambda>_ s.
     let s = s\<lparr>log_outstanding := log_outstanding s - 1\<rparr>
     in if log_committing s then Panic ''log.committing''
        else
          let do_commit = (log_outstanding s = 0)
          in kbind (if do_commit then Ret () (s\<lparr>log_committing := True\<rparr>) else wakeup ChLog s) (\<lambda>_ s.
             kbind (release LLog s) (\<lambda>_ s.
             if do_commit then
               kbind (commit s) (\<lambda>_ s.
               kbind (acquire LLog s) (\<lambda>_ s.
               kbind (wakeup ChLog (s\<lparr>log_committing := False\<rparr>)) (\<lambda>_ s.
               release LLog s)))
             else Ret () s)))"

text \<open>
  \<^verbatim>\<open>log_write\<close>: the loop looks for the block among the first \<^verbatim>\<open>n\<close> entries and stops at \<^verbatim>\<open>n\<close> if it
  is not there.
\<close>

definition log_write :: "nat \<Rightarrow> 'x log_scheme \<Rightarrow> (unit, 'x log_scheme) outcome" where
  "log_write b s =
     (if lh_n s \<ge> int LOGSIZE \<or> lh_n s \<ge> log_size s - 1 then Panic ''too big a transaction''
      else if log_outstanding s < 1 then Panic ''log_write outside of trans''
      else
        kbind (acquire LLog s) (\<lambda>_ s.
        let k = b_blockno (bufs s ! b);
            n = nat (lh_n s);
            i = (case find_idx (\<lambda>x. x = k) (take n (lh_block s)) of Some i \<Rightarrow> i | None \<Rightarrow> n);
            s = s\<lparr>lh_block := (lh_block s)[i := k]\<rparr>;
            s = (if int i = lh_n s then s\<lparr>lh_n := lh_n s + 1\<rparr> else s);
            s = upd_buf b (\<lambda>x. x\<lparr>b_dirty := True\<rparr>) s
        in release LLog s))"

section \<open>Copying a block\<close>

text \<open>The part the loops of \<^verbatim>\<open>write_log\<close> and \<^verbatim>\<open>install_trans\<close> share, from buffer \<open>x\<close> to \<open>y\<close>.\<close>

lemma wp_copy:
  assumes inv: "bio_inv s {x, y}" and xy: "x \<noteq> y" and v: "b_valid (bufs s ! x)" "b_valid (bufs s ! y)"
    and c: "b_dirty (bufs s ! x) \<or> b_data (bufs s ! x) = disk s 1 (b_blockno (bufs s ! x))"
    and ne: "b_blockno (bufs s ! x) \<noteq> b_blockno (bufs s ! y)"
    and K: "\<And>s' ps bs. let ky = b_blockno (bufs s ! y); d = b_data (bufs s ! x) in
       s' = s\<lparr>procs := ps, bufs := bs, disk := (disk s)(1 := (disk s 1)(ky := d)),
              dwrites := dwrites s @ [(1, ky, d)]\<rparr> \<and> woken (procs s) ps \<and>
       bio_inv s' {} \<and> view s' = (view s)(ky := d) \<and> dirtyset s' = dirtyset s - {ky} \<Longrightarrow> wp (K s') Q"
  shows "wp (kbind (bwrite y (upd_buf y (\<lambda>z. z\<lparr>b_data := b_data (bufs s ! x)\<rparr>) s)) (\<lambda>_ s.
             kbind (brelse x s) (\<lambda>_ s. kbind (brelse y s) (\<lambda>_ s. K s)))) Q"
  unfolding wp_kbind
proof -
  let ?ky = "b_blockno (bufs s ! y)" and ?d = "b_data (bufs s ! x)"
  let ?s2 = "upd_buf y (\<lambda>z. z\<lparr>b_data := ?d\<rparr>) s"
  have l: "y < length (bufs s)" "length ?d = BSIZE" using held_buf [OF inv] by auto
  note u = bset_ok [OF inv _ v(2) l(2), simplified]
  show "wp (bwrite y ?s2) (\<lambda>_ s. wp (brelse x s) (\<lambda>_ s. wp (brelse y s) (\<lambda>_ s. wp (K s) Q)))"
  proof (rule wp_bwrite [OF u(1)])
    fix s3 ps bs
    assume w: "woken (procs ?s2) ps" "s3 = ?s2\<lparr>procs := ps, bufs := bs,
        disk := (disk ?s2)(1 := (disk ?s2 1)(b_blockno (bufs ?s2 ! y) := b_data (bufs ?s2 ! y))),
        dwrites := dwrites ?s2 @ [(1, b_blockno (bufs ?s2 ! y), b_data (bufs ?s2 ! y))]\<rparr>"
      "bio_inv s3 {x, y}" "view s3 = view ?s2" "dirtyset s3 = dirtyset ?s2 - {b_blockno (bufs ?s2 ! y)}"
      "bs ! y = (bufs ?s2 ! y)\<lparr>b_valid := True, b_dirty := False\<rparr>" "\<And>j. j \<noteq> y \<Longrightarrow> bs ! j = bufs ?s2 ! j"
    have s3: "s3 = s\<lparr>procs := ps, bufs := bs, disk := (disk s)(1 := (disk s 1)(?ky := ?d)),
              dwrites := dwrites s @ [(1, ?ky, ?d)]\<rparr>" using w(2) l by simp
    have x3: "bs ! x = bufs s ! x" using w(7) [of x] xy by simp
    show "wp (brelse x s3) (\<lambda>_ s. wp (brelse y s) (\<lambda>_ s. wp (K s) Q))"
    proof (rule wp_brelse [OF w(3)])
      show "b_dirty (bufs s3 ! x) \<or> b_data (bufs s3 ! x) = disk s3 1 (b_blockno (bufs s3 ! x))"
        using c ne by (simp add: s3 x3)
    next
      fix s4 assume r: "bframe s3 s4" "bio_inv s4 ({x, y} - {x})" "view s4 = view s3" "dirtyset s4 = dirtyset s3"
        "\<And>j. j \<noteq> x \<Longrightarrow> bcore (bufs s4 ! j) = bcore (bufs s3 ! j)"
      have y: "bcore (bufs s4 ! y) = bcore (bs ! y)" using r(5) [of y] xy s3 by simp
      have i4: "bio_inv s4 {y}" using r(2) xy by (simp add: insert_Diff_if)
      have d4: "disk s4 = disk s3" using r(1) by (auto simp: bframe_def)
      show "wp (brelse y s4) (\<lambda>_ s. wp (K s) Q)"
      proof (rule wp_brelse [OF i4])
        show "b_valid (bufs s4 ! y)" using bcore_sel(1) [OF y] w(6) by simp
        show "b_dirty (bufs s4 ! y) \<or> b_data (bufs s4 ! y) = disk s4 1 (b_blockno (bufs s4 ! y))"
          using bcore_sel [OF y] w(6) d4 l by (simp add: s3)
      next
        fix s5 assume q: "bframe s4 s5" "bio_inv s5 ({y} - {y})" "view s5 = view s4" "dirtyset s5 = dirtyset s4"
        from bframe_trans [OF r(1) q(1)] obtain ps5 bs5 where
          s5: "s5 = s3\<lparr>procs := ps5, bufs := bs5\<rparr>" "woken (procs s3) ps5" by (auto simp: bframe_def)
        show "wp (K s5) Q"
        proof (rule K [where ps = ps5 and bs = bs5, unfolded Let_def], intro conjI)
          show "s5 = s\<lparr>procs := ps5, bufs := bs5, disk := (disk s)(1 := (disk s 1)(?ky := ?d)),
              dwrites := dwrites s @ [(1, ?ky, ?d)]\<rparr>" using s5(1) s3 by simp
          show "woken (procs s) ps5" using s5(2) w(1) s3 by (auto intro: woken_trans)
          show "bio_inv s5 {}" using q(2) by simp
          show "view s5 = (view s)(?ky := ?d)" using q(3) r(3) w(4) u(2) by simp
          show "dirtyset s5 = dirtyset s - {?ky}" using q(4) r(4) w(5) u(3) l by simp
        qed
      qed simp
    qed (use v x3 s3 in auto)
  qed (use l v in auto)
qed

text \<open>The effect of a list of writes on drive 1, and the part of the state a run of writes changes.\<close>

fun apply_writes :: "(u32 \<times> u32 \<times> bytes) list \<Rightarrow> (u32 \<Rightarrow> bytes) \<Rightarrow> u32 \<Rightarrow> bytes" where
  "apply_writes [] f = f"
| "apply_writes ((d, k, b) # ws) f = apply_writes ws (if d = 1 then f(k := b) else f)"

lemma apply_writes_append [simp]: "apply_writes (us @ ws) f = apply_writes ws (apply_writes us f)"
  by (induction us f rule: apply_writes.induct) auto

lemma apply_writes_other: "k \<notin> (\<lambda>(d, k, b). k) ` set ws \<Longrightarrow> apply_writes ws f k = f k"
  by (induction ws f rule: apply_writes.induct) auto

definition lframe :: "'x bio_scheme \<Rightarrow> 'x bio_scheme \<Rightarrow> (u32 \<times> u32 \<times> bytes) list \<Rightarrow> bool" where
  "lframe s s' ws \<longleftrightarrow> (\<exists>ps bs. s' = s\<lparr>procs := ps, bufs := bs,
     disk := (disk s)(1 := apply_writes ws (disk s 1)), dwrites := dwrites s @ ws\<rparr> \<and> woken (procs s) ps)"

lemma bframe_lframe: "bframe s s' \<Longrightarrow> lframe s s' []"
  by (auto simp: bframe_def lframe_def)

lemma lframe_refl [simp]: "lframe s s []"
  by (rule bframe_lframe) simp

lemma lframe_trans: "lframe s t us \<Longrightarrow> lframe t u ws \<Longrightarrow> lframe s u (us @ ws)"
  unfolding lframe_def
proof (elim exE conjE)
  fix ps bs qs cs
  assume t: "t = s\<lparr>procs := ps, bufs := bs, disk := (disk s)(1 := apply_writes us (disk s 1)), dwrites := dwrites s @ us\<rparr>"
    and u: "u = t\<lparr>procs := qs, bufs := cs, disk := (disk t)(1 := apply_writes ws (disk t 1)), dwrites := dwrites t @ ws\<rparr>"
    and w: "woken (procs s) ps" "woken (procs t) qs"
  have "u = s\<lparr>procs := qs, bufs := cs, disk := (disk s)(1 := apply_writes (us @ ws) (disk s 1)), dwrites := dwrites s @ us @ ws\<rparr>"
    using t u by simp
  moreover have "woken (procs s) qs" using t w by (auto intro: woken_trans)
  ultimately show "\<exists>ps bs. u = s\<lparr>procs := ps, bufs := bs, disk := (disk s)(1 := apply_writes (us @ ws) (disk s 1)),
      dwrites := dwrites s @ us @ ws\<rparr> \<and> woken (procs s) ps" by blast
qed

lemma lframe_disk: "lframe s s' ws \<Longrightarrow> disk s' 1 = apply_writes ws (disk s 1) \<and> dwrites s' = dwrites s @ ws"
  by (auto simp: lframe_def)

lemma lframe_log:
  assumes "lframe s s' ws"
  shows "log_dev s' = log_dev s" "log_start s' = log_start s" "log_size s' = log_size s" "lh_n s' = lh_n s"
    "lh_block s' = lh_block s" "log_outstanding s' = log_outstanding s" "log_committing s' = log_committing s"
  using assms by (auto simp: lframe_def)

lemma view_clean:
  assumes inv: "bio_inv s H" and d: "k \<notin> dirtyset s" and H: "\<And>i. i \<in> H \<Longrightarrow> b_blockno (bufs s ! i) \<noteq> k"
  shows "view s k = disk s 1 k"
proof -
  note f = bio_inv_facts [OF inv]
  from f(4,7) show ?thesis
  proof (cases rule: bview_cases [where k = k])
    case (hit i)
    then have "i \<notin> H" "\<not> b_dirty (bufs s ! i)" using d H by (auto simp: dirtyset_def)
    then show ?thesis using binv_bufok [OF f(6) hit(1)] hit by (auto simp: bufok_def view_def)
  next
    case miss
    then show ?thesis by (simp add: view_def)
  qed
qed

lemma bframe_log:
  assumes "bframe s s'"
  shows "log_dev s' = log_dev s" "log_start s' = log_start s" "log_size s' = log_size s" "lh_n s' = lh_n s"
    "lh_block s' = lh_block s" "log_outstanding s' = log_outstanding s" "log_committing s' = log_committing s"
    "disk s' = disk s" "dwrites s' = dwrites s"
  using assms by (auto simp: bframe_def)

text \<open>Two different blocks read one after the other.\<close>

lemma wp_bread2:
  assumes inv: "bio_inv s {}" and k: "a < 1000" "c < 1000" "a \<noteq> c"
    and free: "card (dirtyset s) < NBUF" "c \<in> dirtyset s \<or> Suc (card (dirtyset s)) < NBUF"
    and c: "\<And>s'. bframe s s' \<Longrightarrow> f s' = c" and g: "\<And>s'. bframe s s' \<Longrightarrow> g s' = ROOTDEV"
    and K: "\<And>x y s'. x \<noteq> y \<Longrightarrow> bframe s s' \<Longrightarrow> bio_inv s' {x, y} \<Longrightarrow> b_valid (bufs s' ! x) \<Longrightarrow> b_valid (bufs s' ! y) \<Longrightarrow>
      b_blockno (bufs s' ! x) = a \<Longrightarrow> b_blockno (bufs s' ! y) = c \<Longrightarrow>
      b_data (bufs s' ! x) = view s a \<Longrightarrow> b_data (bufs s' ! y) = view s c \<Longrightarrow>
      b_dirty (bufs s' ! x) = (a \<in> dirtyset s) \<Longrightarrow> b_dirty (bufs s' ! y) = (c \<in> dirtyset s) \<Longrightarrow>
      view s' = view s \<Longrightarrow> dirtyset s' = dirtyset s \<Longrightarrow> wp (K x y s') Q"
  shows "wp (kbind (bread ROOTDEV a s) (\<lambda>x s. kbind (bread (g s) (f s) s) (\<lambda>y s. K x y s))) Q"
  unfolding wp_kbind
proof (rule wp_bread [OF inv k(1)])
  show "a \<in> dirtyset s \<or> card {} + card (dirtyset s) < NBUF" using free by simp
next
  fix x s1
  assume x: "x < NBUF" "bframe s s1" "bio_inv s1 {x}" "b_valid (bufs s1 ! x)" "b_blockno (bufs s1 ! x) = a"
      "b_data (bufs s1 ! x) = view s a" "b_dirty (bufs s1 ! x) = (a \<in> dirtyset s)"
    and v: "view s1 = view s" "dirtyset s1 = dirtyset s"
  show "wp (bread (g s1) (f s1) s1) (\<lambda>y s. wp (K x y s) Q)"
    unfolding g [OF x(2)]
  proof (rule wp_bread [OF x(3)])
    show "f s1 < 1000" using c [OF x(2)] k by simp
    show "b_blockno (bufs s1 ! i) \<noteq> f s1" if "i \<in> {x}" for i using that c [OF x(2)] x(5) k(3) by simp
    show "f s1 \<in> dirtyset s1 \<or> card {x} + card (dirtyset s1) < NBUF"
      using free(2) v c [OF x(2)] by simp
  next
    fix y s2
    assume y: "y \<notin> {x}" "bframe s1 s2" "bio_inv s2 (insert y {x})" "b_valid (bufs s2 ! y)"
      "b_blockno (bufs s2 ! y) = f s1" "b_data (bufs s2 ! y) = view s1 (f s1)"
      "b_dirty (bufs s2 ! y) = (f s1 \<in> dirtyset s1)" "view s2 = view s1" "dirtyset s2 = dirtyset s1"
      "\<And>j. j \<in> {x} \<Longrightarrow> bcore (bufs s2 ! j) = bcore (bufs s1 ! j)"
    note x2 = bcore_sel [OF y(10) [of x, simplified]]
    show "wp (K x y s2) Q"
      using y x v x2 c [OF x(2)] bframe_trans [OF x(2) y(2)] by (intro K) (auto simp: insert_commute)
  qed
qed simp_all

lemma write_log_step:
  assumes inv: "bio_inv s {}" and d: "log_dev s = ROOTDEV" and k: "log_blockno s tail < 1000" "lh_block s ! tail < 1000"
    and ne: "log_blockno s tail \<noteq> lh_block s ! tail" "lh_block s ! tail \<in> dirtyset s" "log_blockno s tail \<notin> dirtyset s"
    and free: "card (dirtyset s) < NBUF"
    and K: "\<And>s'. lframe s s' [(1, log_blockno s tail, view s (lh_block s ! tail))] \<Longrightarrow> bio_inv s' {} \<Longrightarrow>
      view s' = (view s)(log_blockno s tail := view s (lh_block s ! tail)) \<Longrightarrow> dirtyset s' = dirtyset s \<Longrightarrow>
      wp (write_log_loop m (Suc tail) s') Q"
  shows "wp (write_log_loop (Suc m) tail s) Q"
  unfolding write_log_loop.simps(2) d
proof (rule wp_bread2 [OF inv k ne(1) free])
  show "lh_block s ! tail \<in> dirtyset s \<or> Suc (card (dirtyset s)) < NBUF" using ne(2) by simp
next
  fix x y s1
  assume a: "x \<noteq> y" "bframe s s1" "bio_inv s1 {x, y}" "b_valid (bufs s1 ! x)" "b_valid (bufs s1 ! y)"
     "b_blockno (bufs s1 ! x) = log_blockno s tail" "b_blockno (bufs s1 ! y) = lh_block s ! tail"
     "b_data (bufs s1 ! y) = view s (lh_block s ! tail)" "b_dirty (bufs s1 ! y) = (lh_block s ! tail \<in> dirtyset s)"
     "view s1 = view s" "dirtyset s1 = dirtyset s"
  note lg = bframe_log [OF a(2)]
  show "wp (kbind (bwrite x (upd_buf x (\<lambda>xa. xa\<lparr>b_data := b_data (bufs s1 ! y)\<rparr>) s1)) (\<lambda>_ s.
      kbind (brelse y s) (\<lambda>_ s. kbind (brelse x s) (\<lambda>_ s. write_log_loop m (Suc tail) s)))) Q"
  proof (rule wp_copy)
    show "bio_inv s1 {y, x}" using a(3) by (simp add: insert_commute)
  next
    fix s' ps bs
    assume c: "let ky = b_blockno (bufs s1 ! x); d = b_data (bufs s1 ! y)
          in s' = s1\<lparr>procs := ps, bufs := bs, disk := (disk s1)(1 := (disk s1 1)(ky := d)),
                    dwrites := dwrites s1 @ [(1, ky, d)]\<rparr> \<and> woken (procs s1) ps \<and>
             bio_inv s' {} \<and> view s' = (view s1)(ky := d) \<and> dirtyset s' = dirtyset s1 - {ky}"
    have "lframe s1 s' [(1, log_blockno s tail, view s (lh_block s ! tail))]"
      unfolding lframe_def using c a by (auto simp: Let_def)
    from lframe_trans [OF bframe_lframe [OF a(2)] this]
    have "lframe s s' [(1, log_blockno s tail, view s (lh_block s ! tail))]" by simp
    then show "wp (write_log_loop m (Suc tail) s') Q"
      using c a ne by (intro K) (auto simp: Let_def)
  qed (use a ne in auto)
qed (use d in \<open>auto simp: bframe_log\<close>)

lemma install_step:
  assumes inv: "bio_inv s {}" and d: "log_dev s = ROOTDEV" and k: "log_blockno s tail < 1000" "lh_block s ! tail < 1000"
    and ne: "log_blockno s tail \<noteq> lh_block s ! tail" "log_blockno s tail \<notin> dirtyset s"
    and free: "card (dirtyset s) < NBUF" "lh_block s ! tail \<in> dirtyset s \<or> Suc (card (dirtyset s)) < NBUF"
    and K: "\<And>s'. lframe s s' [(1, lh_block s ! tail, view s (log_blockno s tail))] \<Longrightarrow> bio_inv s' {} \<Longrightarrow>
      view s' = (view s)(lh_block s ! tail := view s (log_blockno s tail)) \<Longrightarrow>
      dirtyset s' = dirtyset s - {lh_block s ! tail} \<Longrightarrow> wp (install_trans_loop m (Suc tail) s') Q"
  shows "wp (install_trans_loop (Suc m) tail s) Q"
  unfolding install_trans_loop.simps(2) d
proof (rule wp_bread2 [OF inv k ne(1) free])
  fix x y s1
  assume a: "x \<noteq> y" "bframe s s1" "bio_inv s1 {x, y}" "b_valid (bufs s1 ! x)" "b_valid (bufs s1 ! y)"
     "b_blockno (bufs s1 ! x) = log_blockno s tail" "b_blockno (bufs s1 ! y) = lh_block s ! tail"
     "b_data (bufs s1 ! x) = view s (log_blockno s tail)"
     "view s1 = view s" "dirtyset s1 = dirtyset s"
  note lg = bframe_log [OF a(2)]
  show "wp (kbind (bwrite y (upd_buf y (\<lambda>xa. xa\<lparr>b_data := b_data (bufs s1 ! x)\<rparr>) s1)) (\<lambda>_ s.
      kbind (brelse x s) (\<lambda>_ s. kbind (brelse y s) (\<lambda>_ s. install_trans_loop m (Suc tail) s)))) Q"
  proof (rule wp_copy [OF a(3,1,4,5)])
    show "b_dirty (bufs s1 ! x) \<or> b_data (bufs s1 ! x) = disk s1 1 (b_blockno (bufs s1 ! x))"
      using view_clean [OF inv ne(2)] a(6,8) lg(8) by simp
  next
    fix s' ps bs
    assume c: "let ky = b_blockno (bufs s1 ! y); d = b_data (bufs s1 ! x)
          in s' = s1\<lparr>procs := ps, bufs := bs, disk := (disk s1)(1 := (disk s1 1)(ky := d)),
                    dwrites := dwrites s1 @ [(1, ky, d)]\<rparr> \<and> woken (procs s1) ps \<and>
             bio_inv s' {} \<and> view s' = (view s1)(ky := d) \<and> dirtyset s' = dirtyset s1 - {ky}"
    have "lframe s1 s' [(1, lh_block s ! tail, view s (log_blockno s tail))]"
      unfolding lframe_def using c a by (auto simp: Let_def)
    from lframe_trans [OF bframe_lframe [OF a(2)] this]
    have "lframe s s' [(1, lh_block s ! tail, view s (log_blockno s tail))]" by simp
    then show "wp (install_trans_loop m (Suc tail) s') Q"
      using c a ne by (intro K) (auto simp: Let_def)
  qed (use a ne in auto)
qed (use d in \<open>auto simp: bframe_log\<close>)

text \<open>The writes of the two loops.\<close>

definition log_writes :: "'x log_scheme \<Rightarrow> nat \<Rightarrow> nat \<Rightarrow> (u32 \<times> u32 \<times> bytes) list" where
  "log_writes s m tail = map (\<lambda>i. (1, log_blockno s i, view s (lh_block s ! i))) [tail..<tail + m]"

definition home_writes :: "'x log_scheme \<Rightarrow> nat \<Rightarrow> nat \<Rightarrow> (u32 \<times> u32 \<times> bytes) list" where
  "home_writes s m tail = map (\<lambda>i. (1, lh_block s ! i, view s (log_blockno s i))) [tail..<tail + m]"

lemma upt_Suc_first: "[t..<t + Suc m] = t # [Suc t..<Suc t + m]"
  by (simp add: upt_conv_Cons)

lemma wp_write_log_loop:
  assumes "bio_inv s {}" "log_dev s = ROOTDEV" "card (dirtyset s) < NBUF"
    and "\<forall>i\<in>{tail..<tail + m}. log_blockno s i < 1000 \<and> lh_block s ! i < 1000
           \<and> log_blockno s i \<notin> dirtyset s \<and> lh_block s ! i \<in> dirtyset s"
  shows "wp (write_log_loop m tail s) (\<lambda>_ s'. lframe s s' (log_writes s m tail) \<and> bio_inv s' {}
     \<and> dirtyset s' = dirtyset s \<and> view s' = apply_writes (log_writes s m tail) (view s))"
  using assms
proof (induction m arbitrary: tail s)
  case 0
  then show ?case by (simp add: log_writes_def)
next
  case (Suc m)
  have r: "log_blockno s tail < 1000" "lh_block s ! tail < 1000" "log_blockno s tail \<notin> dirtyset s"
    "lh_block s ! tail \<in> dirtyset s" using Suc.prems(4) by auto
  then have ne: "log_blockno s tail \<noteq> lh_block s ! tail" by metis
  show ?case
  proof (rule write_log_step [OF Suc.prems(1,2) r(1,2) ne r(4,3) Suc.prems(3)])
    fix s1 assume a: "lframe s s1 [(1, log_blockno s tail, view s (lh_block s ! tail))]" "bio_inv s1 {}"
      "view s1 = (view s)(log_blockno s tail := view s (lh_block s ! tail))" "dirtyset s1 = dirtyset s"
    note lg = lframe_log [OF a(1)]
    have "view s1 (lh_block s ! i) = view s (lh_block s ! i)" if "i \<in> {Suc tail..<Suc tail + m}" for i
    proof -
      have "lh_block s ! i \<in> dirtyset s" using that Suc.prems(4) by auto
      with r(3) have "lh_block s ! i \<noteq> log_blockno s tail" by metis
      then show ?thesis by (simp add: a(3))
    qed
    then have W: "log_writes s (Suc m) tail = (1, log_blockno s tail, view s (lh_block s ! tail)) # log_writes s1 m (Suc tail)"
      unfolding log_writes_def upt_Suc_first by (simp add: lg del: upt_Suc)
    have "\<forall>i\<in>{Suc tail..<Suc tail + m}. log_blockno s1 i < 1000 \<and> lh_block s1 ! i < 1000
           \<and> log_blockno s1 i \<notin> dirtyset s1 \<and> lh_block s1 ! i \<in> dirtyset s1"
      using Suc.prems(4) by (auto simp: lg a(4))
    then have "wp (write_log_loop m (Suc tail) s1) (\<lambda>_ s'. lframe s1 s' (log_writes s1 m (Suc tail)) \<and> bio_inv s' {}
     \<and> dirtyset s' = dirtyset s1 \<and> view s' = apply_writes (log_writes s1 m (Suc tail)) (view s1))"
      using Suc.prems(2,3) a lg by (intro Suc.IH) auto
    then show "wp (write_log_loop m (Suc tail) s1) (\<lambda>_ s'. lframe s s' (log_writes s (Suc m) tail) \<and> bio_inv s' {}
     \<and> dirtyset s' = dirtyset s \<and> view s' = apply_writes (log_writes s (Suc m) tail) (view s))"
      by (rule wp_mono) (use lframe_trans [OF a(1)] a(3,4) W in fastforce)
  qed
qed

lemma wp_install_loop:
  assumes "bio_inv s {}" "log_dev s = ROOTDEV" "card (dirtyset s) < NBUF"
    and "\<forall>i\<in>{tail..<tail + m}. log_blockno s i < 1000 \<and> lh_block s ! i < 1000 \<and> log_blockno s i \<notin> dirtyset s
           \<and> (\<forall>j\<in>{tail..<tail + m}. log_blockno s i \<noteq> lh_block s ! j)
           \<and> (lh_block s ! i \<in> dirtyset s \<or> Suc (card (dirtyset s)) < NBUF)"
    and "inj_on (\<lambda>i. lh_block s ! i) {tail..<tail + m}"
  shows "wp (install_trans_loop m tail s) (\<lambda>_ s'. lframe s s' (home_writes s m tail) \<and> bio_inv s' {}
     \<and> dirtyset s' = dirtyset s - (\<lambda>i. lh_block s ! i) ` {tail..<tail + m}
     \<and> view s' = apply_writes (home_writes s m tail) (view s))"
  using assms
proof (induction m arbitrary: tail s)
  case 0
  then show ?case by (simp add: home_writes_def)
next
  case (Suc m)
  have r: "log_blockno s tail < 1000" "lh_block s ! tail < 1000" "log_blockno s tail \<notin> dirtyset s"
    "lh_block s ! tail \<in> dirtyset s \<or> Suc (card (dirtyset s)) < NBUF" "log_blockno s tail \<noteq> lh_block s ! tail"
    using Suc.prems(4) by auto
  show ?case
  proof (rule install_step [OF Suc.prems(1,2) r(1,2,5,3) Suc.prems(3) r(4)])
    fix s1 assume a: "lframe s s1 [(1, lh_block s ! tail, view s (log_blockno s tail))]" "bio_inv s1 {}"
      "view s1 = (view s)(lh_block s ! tail := view s (log_blockno s tail))" "dirtyset s1 = dirtyset s - {lh_block s ! tail}"
    note lg = lframe_log [OF a(1)]
    have "view s1 (log_blockno s i) = view s (log_blockno s i)" if "i \<in> {Suc tail..<Suc tail + m}" for i
      using that Suc.prems(4) a(3) by auto
    then have W: "home_writes s (Suc m) tail = (1, lh_block s ! tail, view s (log_blockno s tail)) # home_writes s1 m (Suc tail)"
      unfolding home_writes_def upt_Suc_first by (simp add: lg del: upt_Suc)
    have ins: "{tail..<tail + Suc m} = insert tail {Suc tail..<Suc tail + m}" by auto
    have c: "card (dirtyset s1) \<le> card (dirtyset s)" unfolding a(4) by (intro card_mono) auto
    have inj: "lh_block s ! i \<noteq> lh_block s ! tail" if "i \<in> {Suc tail..<Suc tail + m}" for i
      using inj_onD [OF Suc.prems(5), of i tail] that by auto
    have "\<forall>i\<in>{Suc tail..<Suc tail + m}. log_blockno s1 i < 1000 \<and> lh_block s1 ! i < 1000 \<and> log_blockno s1 i \<notin> dirtyset s1
           \<and> (\<forall>j\<in>{Suc tail..<Suc tail + m}. log_blockno s1 i \<noteq> lh_block s1 ! j)
           \<and> (lh_block s1 ! i \<in> dirtyset s1 \<or> Suc (card (dirtyset s1)) < NBUF)"
      using Suc.prems(4) inj c unfolding lg a(4) ins by auto
    moreover have "inj_on (\<lambda>i. lh_block s1 ! i) {Suc tail..<Suc tail + m}"
      using Suc.prems(5) unfolding lg ins by auto
    ultimately have "wp (install_trans_loop m (Suc tail) s1) (\<lambda>_ s'. lframe s1 s' (home_writes s1 m (Suc tail)) \<and> bio_inv s' {}
     \<and> dirtyset s' = dirtyset s1 - (\<lambda>i. lh_block s1 ! i) ` {Suc tail..<Suc tail + m}
     \<and> view s' = apply_writes (home_writes s1 m (Suc tail)) (view s1))"
      using Suc.prems(2,3) a lg c by (intro Suc.IH) auto
    then show "wp (install_trans_loop m (Suc tail) s1) (\<lambda>_ s'. lframe s s' (home_writes s (Suc m) tail) \<and> bio_inv s' {}
     \<and> dirtyset s' = dirtyset s - (\<lambda>i. lh_block s ! i) ` {tail..<tail + Suc m}
     \<and> view s' = apply_writes (home_writes s (Suc m) tail) (view s))"
      by (rule wp_mono) (use lframe_trans [OF a(1)] a(3,4) W lg ins in fastforce)
  qed
qed

section \<open>The header block\<close>

lemma length_put_blocks [simp]: "4 + 4 * (i + length bs) \<le> length d \<Longrightarrow> length (put_blocks i bs d) = length d"
  by (induction i bs d rule: put_blocks.induct) auto

lemma put_blocks_before:
  "4 + 4 * (i + length bs) \<le> length d \<Longrightarrow> off + 4 \<le> 4 + 4 * i \<Longrightarrow> le32 off (put_blocks i bs d) = le32 off d"
proof (induction i bs d rule: put_blocks.induct)
  case (2 i b bs d)
  then have "le32 off (put_blocks (Suc i) bs (set_le32 (4 + 4 * i) b d)) = le32 off (set_le32 (4 + 4 * i) b d)" by simp
  also have "\<dots> = le32 off d" using 2(2,3) by (intro le32_set_le32_other) auto
  finally show ?case by simp
qed simp

lemma put_blocks_nth:
  "4 + 4 * (i + length bs) \<le> length d \<Longrightarrow> j < length bs \<Longrightarrow> le32 (4 + 4 * (i + j)) (put_blocks i bs d) = bs ! j"
proof (induction i bs d arbitrary: j rule: put_blocks.induct)
  case (2 i b bs d)
  show ?case
  proof (cases j)
    case 0
    have "le32 (4 + 4 * i) (put_blocks (Suc i) bs (set_le32 (4 + 4 * i) b d)) = le32 (4 + 4 * i) (set_le32 (4 + 4 * i) b d)"
      using 2(2) by (intro put_blocks_before) auto
    with 0 2(2) show ?thesis by simp
  next
    case (Suc l)
    with 2(1) [of l] 2(2,3) show ?thesis by simp
  qed
qed simp

definition header :: "nat \<Rightarrow> u32 list \<Rightarrow> bytes \<Rightarrow> bytes" where
  "header n bs d = put_blocks 0 bs (set_le32 0 (of_nat n) d)"

lemma header_facts:
  assumes "length d = BSIZE" "length bs \<le> LOGSIZE"
  shows "length (header n bs d) = BSIZE" "le32 0 (header n bs d) = of_nat n"
    "i < length bs \<Longrightarrow> le32 (4 + 4 * i) (header n bs d) = bs ! i"
  using assms put_blocks_before [of 0 bs "set_le32 0 (of_nat n) d" 0] put_blocks_nth [of 0 bs "set_le32 0 (of_nat n) d" i]
  by (auto simp: header_def)

section \<open>Well-formed logs\<close>

definition log_ok :: "'x log_scheme \<Rightarrow> bool" where
  "log_ok s \<longleftrightarrow> log_dev s = ROOTDEV \<and> 1 < log_start s \<and> 0 < log_size s \<and> log_size s \<le> int LOGSIZE
     \<and> log_start s + log_size s \<le> 1000 \<and> length (lh_block s) = LOGSIZE"

text \<open>The blocks of the disk outside the log, and the header's claim on a transaction.\<close>

definition home :: "'x log_scheme \<Rightarrow> u32 \<Rightarrow> bool" where
  "home s k \<longleftrightarrow> k < 1000 \<and> \<not> (log_start s \<le> uint k \<and> uint k < log_start s + log_size s)"

definition txn :: "'x log_scheme \<Rightarrow> u32 list" where
  "txn s = take (nat (lh_n s)) (lh_block s)"

definition txn_ok :: "'x log_scheme \<Rightarrow> bool" where
  "txn_ok s \<longleftrightarrow> 0 \<le> lh_n s \<and> lh_n s < log_size s \<and> distinct (txn s) \<and> (\<forall>k\<in>set (txn s). home s k)"

lemma uint_log_blockno:
  assumes "log_ok s" "int i < log_size s"
  shows "uint (word_of_int (log_start s + int i) :: u32) = log_start s + int i"
proof -
  have "0 \<le> log_start s + int i" "log_start s + int i < 2 ^ LENGTH(32)"
    using assms by (auto simp: log_ok_def)
  then show ?thesis by (simp only: uint_word_of_int mod_pos_pos_trivial)
qed

lemma log_area:
  assumes "log_ok s" "int i < log_size s"
  shows "(word_of_int (log_start s + int i) :: u32) < 1000" "\<not> home s (word_of_int (log_start s + int i))"
  using uint_log_blockno [OF assms] assms
  by (auto simp: word_less_def log_ok_def home_def)

lemma log_area_inj:
  assumes "log_ok s" "int i < log_size s" "int j < log_size s"
  shows "(word_of_int (log_start s + int i) :: u32) = word_of_int (log_start s + int j) \<longleftrightarrow> i = j"
proof
  assume "(word_of_int (log_start s + int i) :: u32) = word_of_int (log_start s + int j)"
  from arg_cong [OF this, of uint] show "i = j"
    unfolding uint_log_blockno [OF assms(1,2)] uint_log_blockno [OF assms(1,3)] by simp
qed simp

lemma txn_facts:
  assumes "log_ok s" "txn_ok s"
  shows "length (txn s) = nat (lh_n s)" "\<And>i. i < nat (lh_n s) \<Longrightarrow> txn s ! i = lh_block s ! i"
    "\<And>i. i < nat (lh_n s) \<Longrightarrow> home s (lh_block s ! i)" "nat (lh_n s) < LOGSIZE"
    "\<And>i. i < nat (lh_n s) \<Longrightarrow> int (Suc i) < log_size s"
    "inj_on (\<lambda>i. lh_block s ! i) {0..<nat (lh_n s)}" "(\<lambda>i. lh_block s ! i) ` {0..<nat (lh_n s)} = set (txn s)"
proof -
  show l: "length (txn s) = nat (lh_n s)" and n: "nat (lh_n s) < LOGSIZE"
    using assms by (auto simp: txn_def log_ok_def txn_ok_def)
  show nth: "\<And>i. i < nat (lh_n s) \<Longrightarrow> txn s ! i = lh_block s ! i" by (simp add: txn_def)
  then show "\<And>i. i < nat (lh_n s) \<Longrightarrow> home s (lh_block s ! i)"
    using assms(2) l nth_mem [of _ "txn s"] by (auto simp: txn_ok_def)
  show "\<And>i. i < nat (lh_n s) \<Longrightarrow> int (Suc i) < log_size s" using assms(2) by (auto simp: txn_ok_def)
  have "inj_on (\<lambda>i. txn s ! i) {0..<nat (lh_n s)}"
    using assms(2) l by (auto simp: txn_ok_def inj_on_def nth_eq_iff_index_eq)
  then show "inj_on (\<lambda>i. lh_block s ! i) {0..<nat (lh_n s)}" using nth by (auto simp: inj_on_def)
  show "(\<lambda>i. lh_block s ! i) ` {0..<nat (lh_n s)} = set (txn s)"
    using nth l by (force simp: in_set_conv_nth image_iff)
qed

text \<open>The fields of the log are no part of the cache.\<close>

lemma bio_inv_upd_log [simp]:
  "bio_inv (s\<lparr>log_start := a\<rparr>) H = bio_inv s H"
  "bio_inv (s\<lparr>log_size := b\<rparr>) H = bio_inv s H"
  "bio_inv (s\<lparr>log_outstanding := c\<rparr>) H = bio_inv s H"
  "bio_inv (s\<lparr>log_committing := d\<rparr>) H = bio_inv s H"
  "bio_inv (s\<lparr>log_dev := e\<rparr>) H = bio_inv s H"
  "bio_inv (s\<lparr>lh_n := n\<rparr>) H = bio_inv s H"
  "bio_inv (s\<lparr>lh_block := bs\<rparr>) H = bio_inv s H"
  by (simp_all add: bio_inv_def running_def curproc_def myproc_def)

lemma view_upd_log [simp]:
  "view (s\<lparr>log_start := a\<rparr>) = view s"
  "view (s\<lparr>log_size := b\<rparr>) = view s"
  "view (s\<lparr>log_outstanding := c\<rparr>) = view s"
  "view (s\<lparr>log_committing := d\<rparr>) = view s"
  "view (s\<lparr>log_dev := e\<rparr>) = view s"
  "view (s\<lparr>lh_n := n\<rparr>) = view s"
  "view (s\<lparr>lh_block := bs\<rparr>) = view s"
  by (simp_all add: view_def)

lemma dirtyset_upd_log [simp]:
  "dirtyset (s\<lparr>log_start := a\<rparr>) = dirtyset s"
  "dirtyset (s\<lparr>log_size := b\<rparr>) = dirtyset s"
  "dirtyset (s\<lparr>log_outstanding := c\<rparr>) = dirtyset s"
  "dirtyset (s\<lparr>log_committing := d\<rparr>) = dirtyset s"
  "dirtyset (s\<lparr>log_dev := e\<rparr>) = dirtyset s"
  "dirtyset (s\<lparr>lh_n := n\<rparr>) = dirtyset s"
  "dirtyset (s\<lparr>lh_block := bs\<rparr>) = dirtyset s"
  by (simp_all add: dirtyset_def)

abbreviation (input) loghead :: "'x log_scheme \<Rightarrow> u32" where
  "loghead s \<equiv> word_of_int (log_start s)"

lemma loghead:
  assumes "log_ok s"
  shows "loghead s < 1000" "\<not> home s (loghead s)"
  using log_area [OF assms, of 0] assms by (auto simp: log_ok_def)

lemma wp_write_head:
  assumes inv: "bio_inv s {}" and ok: "log_ok s" and n: "0 \<le> lh_n s" "lh_n s \<le> int LOGSIZE"
    and d: "card (dirtyset s) < NBUF" "loghead s \<notin> dirtyset s"
    and Q: "\<And>s'. lframe s s' [(1, loghead s, header (nat (lh_n s)) (txn s) (view s (loghead s)))] \<Longrightarrow> bio_inv s' {} \<Longrightarrow>
      view s' = (view s)(loghead s := header (nat (lh_n s)) (txn s) (view s (loghead s))) \<Longrightarrow> dirtyset s' = dirtyset s \<Longrightarrow> Q () s'"
  shows "wp (write_head s) Q"
proof -
  have dev: "log_dev s = ROOTDEV" using ok by (simp add: log_ok_def)
  have "length (txn s) \<le> LOGSIZE" using n by (simp add: txn_def)
  note h = header_facts(1) [OF bio_inv_facts(5) [OF inv] this]
  show ?thesis
    unfolding write_head_def Let_def dev
  proof (rule wp_write_block [OF inv loghead(1) [OF ok] d(1) h])
    fix b s' assume b: "bframe s s'" "b_data (bufs s' ! b) = view s (loghead s)"
    show "put_blocks 0 (take (nat (lh_n s')) (lh_block s')) (set_le32 0 (word_of_int (lh_n s')) (b_data (bufs s' ! b)))
        = header (nat (lh_n s)) (txn s) (view s (loghead s))"
      using n(1) b by (simp add: header_def txn_def bframe_log)
  next
    fix s' ps bs
    assume "s' = s\<lparr>procs := ps, bufs := bs, disk := (disk s)(1 := (disk s 1)(loghead s := header (nat (lh_n s)) (txn s) (view s (loghead s)))),
          dwrites := dwrites s @ [(1, loghead s, header (nat (lh_n s)) (txn s) (view s (loghead s)))]\<rparr>" "woken (procs s) ps"
       and "bio_inv s' {}" "view s' = (view s)(loghead s := header (nat (lh_n s)) (txn s) (view s (loghead s)))"
       "dirtyset s' = dirtyset s - {loghead s}"
    then show "Q () s'" using d(2) by (intro Q) (auto simp: lframe_def)
  qed
qed

text \<open>What the header block \<open>h\<close> on disk says, and when it can be trusted.\<close>

definition hdr_blocks :: "bytes \<Rightarrow> u32 list" where
  "hdr_blocks h = map (\<lambda>i. le32 (4 + 4 * i) h) [0..<nat (sint (le32 0 h))]"

definition hdr_ok :: "'x log_scheme \<Rightarrow> bytes \<Rightarrow> bool" where
  "hdr_ok s h \<longleftrightarrow> 0 \<le> sint (le32 0 h) \<and> sint (le32 0 h) < log_size s \<and> distinct (hdr_blocks h)
     \<and> (\<forall>k\<in>set (hdr_blocks h). home s k)"

lemma wp_read_head:
  assumes inv: "bio_inv s {}" and ok: "log_ok s" and d: "dirtyset s = {}"
    and h: "hdr_ok s (view s (loghead s))"
    and Q: "\<And>s'. lframe (s\<lparr>lh_n := sint (le32 0 (view s (loghead s))), lh_block := lh_block s'\<rparr>) s' [] \<Longrightarrow> bio_inv s' {} \<Longrightarrow>
      log_ok s' \<Longrightarrow> txn_ok s' \<Longrightarrow> txn s' = hdr_blocks (view s (loghead s)) \<Longrightarrow>
      view s' = view s \<Longrightarrow> dirtyset s' = {} \<Longrightarrow> Q () s'"
  shows "wp (read_head s) Q"
proof -
  have dev: "log_dev s = ROOTDEV" using ok by (simp add: log_ok_def)
  let ?h = "view s (loghead s)"
  show ?thesis
    unfolding read_head_def dev wp_kbind
  proof (rule wp_bread [OF inv loghead(1) [OF ok]])
    show "loghead s \<in> dirtyset s \<or> card {} + card (dirtyset s) < NBUF" using d by simp
  next
    fix b s1
    assume b: "bframe s s1" "bio_inv s1 {b}" "b_valid (bufs s1 ! b)" "b_blockno (bufs s1 ! b) = loghead s"
      "b_data (bufs s1 ! b) = ?h" "view s1 = view s" "dirtyset s1 = dirtyset s"
    let ?n = "sint (le32 0 ?h)"
    let ?s2 = "s1\<lparr>lh_n := ?n, lh_block := map (\<lambda>i. if int i < ?n then le32 (4 + 4 * i) ?h else lh_block s1 ! i) [0..<LOGSIZE]\<rparr>"
    have n: "0 \<le> ?n" "?n < log_size s" "log_size s \<le> int LOGSIZE" using h ok by (auto simp: hdr_ok_def log_ok_def)
    have inv2: "bio_inv ?s2 {b}" using b(2) by simp
    have v2: "view ?s2 = view s" "dirtyset ?s2 = {}" using b(6,7) d by simp_all
    have "wp (brelse b ?s2) Q"
    proof (rule wp_brelse [OF inv2])
      show "b_dirty (bufs ?s2 ! b) \<or> b_data (bufs ?s2 ! b) = disk ?s2 1 (b_blockno (bufs ?s2 ! b))"
        using view_clean [OF inv, of "loghead s"] d b(4,5) bframe_log(8) [OF b(1)] by simp
    next
      fix s3 assume r: "bframe ?s2 s3" "bio_inv s3 ({b} - {b})" "view s3 = view ?s2" "dirtyset s3 = dirtyset ?s2"
      note lg = bframe_log [OF r(1)] and lg1 = bframe_log [OF b(1)]
      have ok3: "log_ok s3" using ok by (simp add: log_ok_def lg lg1)
      have t: "txn s3 = hdr_blocks ?h"
        using n by (auto simp: txn_def hdr_blocks_def lg take_map)
      moreover have "home s3 k = home s k" for k by (simp add: home_def lg lg1)
      ultimately have "txn_ok s3" using h n by (simp add: txn_ok_def hdr_ok_def lg lg1)
      show "Q () s3"
      proof (rule Q)
        obtain ps bs qs cs where "s1 = s\<lparr>procs := ps, bufs := bs\<rparr>" "woken (procs s) ps"
          "s3 = ?s2\<lparr>procs := qs, bufs := cs\<rparr>" "woken (procs ?s2) qs" using b(1) r(1) by (auto simp: bframe_def)
        then show "lframe (s\<lparr>lh_n := ?n, lh_block := lh_block s3\<rparr>) s3 []"
          unfolding lframe_def by (intro exI [of _ qs] exI [of _ cs]) (auto intro: woken_trans intro!: log.equality)
      qed (use r ok3 \<open>txn_ok s3\<close> t v2 in auto)
    qed (use b in auto)
    then show "wp (let d = b_data (bufs s1 ! b); n = sint (le32 0 d) in if int LOGSIZE < n then undef
        else let s = s1\<lparr>lh_n := n, lh_block := map (\<lambda>i. if int i < n then le32 (4 + 4 * i) d else lh_block s1 ! i) [0..<LOGSIZE]\<rparr>
             in brelse b s) Q"
      using n by (simp add: Let_def b(5))
  qed simp_all
qed

section \<open>Recovery and commit\<close>

text \<open>The writes recovery makes on a disk \<open>D\<close>.\<close>

definition redo_writes :: "u32 \<Rightarrow> (u32 \<Rightarrow> bytes) \<Rightarrow> (u32 \<times> u32 \<times> bytes) list" where
  "redo_writes L D = map (\<lambda>i. (1, hdr_blocks (D L) ! i, D (L + of_nat i + 1))) [0..<length (hdr_blocks (D L))]
      @ [(1, L, header 0 [] (D L))]"

lemma log_blockno_eq: "log_blockno s i = word_of_int (log_start s + int (Suc i))"
  by (simp add: add.commute add.left_commute)

lemma txn_prems:
  assumes "log_ok s" "txn_ok s" "\<And>k. \<not> home s k \<Longrightarrow> k \<notin> dirtyset s"
  shows "\<forall>i\<in>{0..<0 + nat (lh_n s)}. log_blockno s i < 1000 \<and> lh_block s ! i < 1000 \<and> log_blockno s i \<notin> dirtyset s
           \<and> (\<forall>j\<in>{0..<0 + nat (lh_n s)}. log_blockno s i \<noteq> lh_block s ! j)"
proof
  fix i assume "i \<in> {0..<0 + nat (lh_n s)}"
  then have i: "i < nat (lh_n s)" by simp
  note f = txn_facts [OF assms(1,2)]
  note a = log_area [OF assms(1) f(5) [OF i], folded log_blockno_eq]
  show "log_blockno s i < 1000 \<and> lh_block s ! i < 1000 \<and> log_blockno s i \<notin> dirtyset s
           \<and> (\<forall>j\<in>{0..<0 + nat (lh_n s)}. log_blockno s i \<noteq> lh_block s ! j)"
    using a assms(3) [OF a(2)] f(3) i by (auto simp: home_def)
qed

lemma wp_recover:
  assumes inv: "bio_inv s {}" and ok: "log_ok s" and d: "dirtyset s = {}"
    and h: "hdr_ok s (disk s 1 (loghead s))"
    and Q: "\<And>s'. bio_inv s' {} \<Longrightarrow> dirtyset s' = {} \<Longrightarrow> lh_n s' = 0 \<Longrightarrow> log_ok s' \<Longrightarrow>
      log_start s' = log_start s \<Longrightarrow> log_size s' = log_size s \<Longrightarrow>
      disk s' 1 = apply_writes (redo_writes (loghead s) (disk s 1)) (disk s 1) \<Longrightarrow>
      dwrites s' = dwrites s @ redo_writes (loghead s) (disk s 1) \<Longrightarrow> Q () s'"
  shows "wp (recover_from_log s) Q"
proof -
  have vd: "view s k = disk s 1 k" for k using view_clean [OF inv] d by simp
  let ?L = "loghead s" and ?D = "disk s 1"
  let ?h = "?D ?L"
  show ?thesis
    unfolding recover_from_log_def wp_kbind
  proof (rule wp_read_head [OF inv ok d])
    show "hdr_ok s (view s ?L)" using h vd by simp
  next
    fix s1
    assume lf: "lframe (s\<lparr>lh_n := sint (le32 0 (view s ?L)), lh_block := lh_block s1\<rparr>) s1 []"
      and a: "bio_inv s1 {}" "log_ok s1" "txn_ok s1" "txn s1 = hdr_blocks (view s ?L)" "view s1 = view s" "dirtyset s1 = {}"
    have lg: "log_start s1 = log_start s" "log_size s1 = log_size s" "disk s1 1 = ?D" "dwrites s1 = dwrites s"
      "log_dev s1 = log_dev s"
      using lframe_log [OF lf] lframe_disk [OF lf] by simp_all
    note t = txn_facts [OF a(2,3)]
    have p: "\<forall>i\<in>{0..<0 + nat (lh_n s1)}. log_blockno s1 i < 1000 \<and> lh_block s1 ! i < 1000 \<and> log_blockno s1 i \<notin> dirtyset s1
           \<and> (\<forall>j\<in>{0..<0 + nat (lh_n s1)}. log_blockno s1 i \<noteq> lh_block s1 ! j)
           \<and> (lh_block s1 ! i \<in> dirtyset s1 \<or> Suc (card (dirtyset s1)) < NBUF)"
      using txn_prems [OF a(2,3)] a(6) by simp
    have W: "home_writes s1 (nat (lh_n s1)) 0 = map (\<lambda>i. (1, hdr_blocks ?h ! i, ?D (?L + of_nat i + 1))) [0..<length (hdr_blocks ?h)]"
      using t(1,2) a(4,5) vd by (auto simp: home_writes_def lg)
    have "wp (install_trans s1) (\<lambda>_ s2. lframe s1 s2 (home_writes s1 (nat (lh_n s1)) 0) \<and> bio_inv s2 {}
     \<and> dirtyset s2 = dirtyset s1 - (\<lambda>i. lh_block s1 ! i) ` {0..<0 + nat (lh_n s1)}
     \<and> view s2 = apply_writes (home_writes s1 (nat (lh_n s1)) 0) (view s1))"
      unfolding install_trans_def using p t(6) a ok lg
      by (intro wp_install_loop) (auto simp: log_ok_def)
    then show "wp (install_trans s1) (\<lambda>_ s. wp (write_head (s\<lparr>lh_n := 0\<rparr>)) Q)"
    proof (rule wp_mono, elim conjE)
      fix u s2
      assume b: "lframe s1 s2 (home_writes s1 (nat (lh_n s1)) 0)" "bio_inv s2 {}"
        "dirtyset s2 = dirtyset s1 - (\<lambda>i. lh_block s1 ! i) ` {0..<0 + nat (lh_n s1)}"
        "view s2 = apply_writes (home_writes s1 (nat (lh_n s1)) 0) (view s1)"
      note lg2 = lframe_log [OF b(1)]
      let ?s = "s2\<lparr>lh_n := 0\<rparr>"
      have inv2: "bio_inv ?s {}" using b(2) by simp
      have ok2: "log_ok ?s" using ok a(2) by (simp add: log_ok_def lg2)
      have d2: "dirtyset ?s = {}" using b(3) a(6) by simp
      have "?L \<notin> (\<lambda>(d, k, b). k) ` set (home_writes s1 (nat (lh_n s1)) 0)"
        using t(3) loghead(2) [OF a(2)] lg by (auto simp: home_writes_def)
      then have L: "view ?s ?L = ?h" using b(4) a(5) vd apply_writes_other by simp
      have lgs: "log_start ?s = log_start s" by (simp add: lg lg2)
      show "wp (write_head ?s) Q"
      proof (rule wp_write_head [OF inv2 ok2], goal_cases)
        case (5 s3)
        note lg3 = lframe_log [OF 5(1)] and dk = lframe_disk [OF 5(1)]
        have W': "redo_writes ?L ?D = home_writes s1 (nat (lh_n s1)) 0 @ [(1, ?L, header 0 [] ?h)]"
          by (simp add: redo_writes_def W)
        show ?case
        proof (rule Q)
          show "log_ok s3" using ok2 by (simp add: log_ok_def lg3)
          show "disk s3 1 = apply_writes (redo_writes ?L ?D) ?D" "dwrites s3 = dwrites s @ redo_writes ?L ?D"
            using dk lframe_disk [OF b(1)] L by (simp_all add: W' lg lgs txn_def)
        qed (use 5 d2 lg3 lg lg2 in auto)
      qed (use d2 in auto)
    qed
  qed
qed

lemma apply_writes_map:
  assumes "j < n" "inj_on f {0..<n}"
  shows "apply_writes (map (\<lambda>i. (1, f i, g i)) [0..<n]) D (f j) = g j"
  using assms
proof (induction n)
  case (Suc n)
  have ii: "inj_on f {0..<n}" using Suc.prems(2) by (auto simp: inj_on_def)
  show ?case
  proof (cases "j = n")
    case False
    then have "f j \<noteq> f n" using Suc.prems by (auto simp: inj_on_def)
    then show ?thesis using Suc False ii by simp
  qed simp
qed simp

definition commit_writes :: "'x log_scheme \<Rightarrow> (u32 \<times> u32 \<times> bytes) list" where
  "commit_writes s =
     (let n = nat (lh_n s); hb = header n (txn s) (view s (loghead s))
      in log_writes s n 0 @ [(1, loghead s, hb)]
         @ map (\<lambda>i. (1, lh_block s ! i, view s (lh_block s ! i))) [0..<n]
         @ [(1, loghead s, header 0 [] hb)])"

lemma log_blockno_inj:
  assumes "log_ok s" "txn_ok s"
  shows "inj_on (\<lambda>i. log_blockno s i) {0..<nat (lh_n s)}"
proof (rule inj_onI)
  fix i j assume "i \<in> {0..<nat (lh_n s)}" "j \<in> {0..<nat (lh_n s)}" and e: "log_blockno s i = log_blockno s j"
  then have "int (Suc i) < log_size s" "int (Suc j) < log_size s" using txn_facts(5) [OF assms] by auto
  from log_area_inj [OF assms(1) this] e show "i = j" unfolding log_blockno_eq by simp
qed

lemma log_blockno_ne_loghead:
  assumes "log_ok s" "txn_ok s" "i < nat (lh_n s)"
  shows "log_blockno s i \<noteq> loghead s"
proof -
  have "int (Suc i) < log_size s" "int 0 < log_size s" using txn_facts(5) [OF assms] by auto
  from log_area_inj [OF assms(1) this] show ?thesis unfolding log_blockno_eq by simp
qed

lemma wp_commit:
  assumes inv: "bio_inv s {}" and ok: "log_ok s" "txn_ok s" and d: "dirtyset s = set (txn s)" and n: "0 < lh_n s"
    and Q: "\<And>s'. lframe (s\<lparr>lh_n := 0\<rparr>) s' (commit_writes s) \<Longrightarrow> bio_inv s' {} \<Longrightarrow> dirtyset s' = {} \<Longrightarrow>
      view s' = apply_writes (commit_writes s) (view s) \<Longrightarrow> Q () s'"
  shows "wp (commit s) Q"
proof -
  let ?n = "nat (lh_n s)" and ?L = "loghead s"
  note t = txn_facts [OF ok]
  have dev: "log_dev s = ROOTDEV" using ok by (simp add: log_ok_def)
  have c: "card (dirtyset s) < NBUF" unfolding d using t(1,4) card_length [of "txn s"] by linarith
  have nh: "k \<notin> dirtyset s" if "\<not> home s k" for k using ok(2) that unfolding d txn_ok_def by auto
  have p: "\<forall>i\<in>{0..<0 + ?n}. log_blockno s i < 1000 \<and> lh_block s ! i < 1000 \<and> log_blockno s i \<notin> dirtyset s
           \<and> (\<forall>j\<in>{0..<0 + ?n}. log_blockno s i \<noteq> lh_block s ! j)"
    by (rule txn_prems [OF ok nh])
  have hd: "lh_block s ! i \<in> dirtyset s" if "i < ?n" for i
    unfolding d using t(1,2) that nth_mem [of i "txn s"] by simp
  have "wp (write_log s) (\<lambda>_ s'. lframe s s' (log_writes s ?n 0) \<and> bio_inv s' {}
     \<and> dirtyset s' = dirtyset s \<and> view s' = apply_writes (log_writes s ?n 0) (view s))"
    unfolding write_log_def using p hd by (intro wp_write_log_loop [OF inv dev c]) auto
  then have "wp (write_log s) (\<lambda>_ s. wp (write_head s) (\<lambda>_ s. wp (install_trans s) (\<lambda>_ s. wp (write_head (s\<lparr>lh_n := 0\<rparr>)) Q)))"
  proof (rule wp_mono, elim conjE)
    fix u s1
    assume a: "lframe s s1 (log_writes s ?n 0)" "bio_inv s1 {}" "dirtyset s1 = dirtyset s" "view s1 = apply_writes (log_writes s ?n 0) (view s)"
    note lg = lframe_log [OF a(1)]
    have ok1: "log_ok s1" "txn_ok s1" using ok by (simp_all add: log_ok_def txn_ok_def txn_def home_def lg)
    have "?L \<notin> (\<lambda>(d, k, b). k) ` set (log_writes s ?n 0)"
      using log_blockno_ne_loghead [OF ok] by (force simp: log_writes_def)
    then have L1: "view s1 ?L = view s ?L" unfolding a(4) by (rule apply_writes_other)
    have B1: "view s1 (log_blockno s i) = view s (lh_block s ! i)" if "i < ?n" for i
      unfolding a(4) log_writes_def using apply_writes_map [OF that log_blockno_inj [OF ok]] by simp
    let ?hb = "header ?n (txn s) (view s ?L)"
    show "wp (write_head s1) (\<lambda>_ s. wp (install_trans s) (\<lambda>_ s. wp (write_head (s\<lparr>lh_n := 0\<rparr>)) Q))"
    proof (rule wp_write_head [OF a(2) ok1(1)], goal_cases)
      case (5 s2)
      have t1: "txn s1 = txn s" by (simp add: txn_def lg)
      note b = 5 [unfolded lg t1 L1]
      note lg2 = lframe_log [OF b(1), unfolded lg]
      have ok2: "log_ok s2" "txn_ok s2" using ok by (simp_all add: log_ok_def txn_ok_def txn_def home_def lg2)
      have B2: "view s2 (log_blockno s i) = view s (lh_block s ! i)" if "i < ?n" for i
        using B1 [OF that] log_blockno_ne_loghead [OF ok that] by (simp add: b(3))
      have W: "home_writes s2 ?n 0 = map (\<lambda>i. (1, lh_block s ! i, view s (lh_block s ! i))) [0..<?n]"
        using B2 by (simp add: home_writes_def lg2)
      have "wp (install_trans s2) (\<lambda>_ s3. lframe s2 s3 (home_writes s2 ?n 0) \<and> bio_inv s3 {}
         \<and> dirtyset s3 = dirtyset s2 - (\<lambda>i. lh_block s2 ! i) ` {0..<0 + ?n}
         \<and> view s3 = apply_writes (home_writes s2 ?n 0) (view s2))"
        unfolding install_trans_def lg2(4) using p hd b a(3) c t(6) lg2 dev
        by (intro wp_install_loop) auto
      then show ?case
      proof (rule wp_mono, elim conjE)
        fix u s3
        assume e: "lframe s2 s3 (home_writes s2 ?n 0)" "bio_inv s3 {}"
         "dirtyset s3 = dirtyset s2 - (\<lambda>i. lh_block s2 ! i) ` {0..<0 + ?n}" "view s3 = apply_writes (home_writes s2 ?n 0) (view s2)"
        note lg3 = lframe_log [OF e(1), unfolded lg2]
        let ?s = "s3\<lparr>lh_n := 0\<rparr>"
        have d3: "dirtyset ?s = {}" using e(3) b(4) a(3) t(7) d by (simp add: lg2)
        have ok3: "log_ok ?s" using ok by (simp add: log_ok_def lg3)
        have "?L \<notin> (\<lambda>(d, k, b). k) ` set (home_writes s2 ?n 0)"
          unfolding W using t(3) loghead(2) [OF ok(1)] by auto
        then have L3: "view ?s ?L = ?hb" using apply_writes_other b(3) by (simp add: e(4))
        show "wp (write_head ?s) Q"
        proof (rule wp_write_head [OF _ ok3], goal_cases)
          case (6 s4)
          have f: "lframe ?s s4 [(1, ?L, header 0 [] ?hb)]" "view s4 = (view s3)(?L := header 0 [] ?hb)"
            using 6(1,3) L3 by (simp_all add: lg3 txn_def)
          have CW: "commit_writes s = log_writes s ?n 0 @ [(1, ?L, ?hb)] @ home_writes s2 ?n 0 @ [(1, ?L, header 0 [] ?hb)]"
            by (simp add: commit_writes_def Let_def W)
          have "lframe s s3 (log_writes s ?n 0 @ [(1, ?L, ?hb)] @ home_writes s2 ?n 0)"
            using lframe_trans [OF a(1) lframe_trans [OF b(1) e(1)]] .
          then have "lframe (s\<lparr>lh_n := 0\<rparr>) ?s (log_writes s ?n 0 @ [(1, ?L, ?hb)] @ home_writes s2 ?n 0)"
            unfolding lframe_def by auto (auto intro!: log.equality exI)
          from lframe_trans [OF this f(1)] 6 f(2) d3 show ?case
            by (intro Q) (auto simp: CW e(4) b(3) a(4))
        qed (use e(2) d3 in auto)
      qed
    qed (use a n lg ok c d nh loghead [OF ok(1)] in \<open>auto simp: log_ok_def txn_ok_def\<close>)
  qed
  then show ?thesis using n by (simp add: commit_def)
qed

section \<open>Crashes\<close>

lemma hdr_blocks_header:
  assumes "length d = BSIZE" "length bs \<le> LOGSIZE"
  shows "hdr_blocks (header (length bs) bs d) = bs" "sint (le32 0 (header (length bs) bs d)) = int (length bs)"
proof -
  note h = header_facts [OF assms, where n = "length bs"]
  show s: "sint (le32 0 (header (length bs) bs d)) = int (length bs)"
    unfolding h(2) using assms(2) by (intro sint_small) simp
  show "hdr_blocks (header (length bs) bs d) = bs"
    unfolding hdr_blocks_def s using h(3) by (intro nth_equalityI) auto
qed

text \<open>
  The state of drive 1 before a transaction commits: the header on disk is empty and only the
  blocks of the transaction differ from the cache.
\<close>

definition pre_commit :: "'x log_scheme \<Rightarrow> bool" where
  "pre_commit s \<longleftrightarrow> bio_inv s {} \<and> log_ok s \<and> txn_ok s \<and> dirtyset s = set (txn s)
     \<and> le32 0 (disk s 1 (loghead s)) = 0"

lemma pre_commit_facts:
  assumes "pre_commit s"
  shows "bio_inv s {}" "log_ok s" "txn_ok s" "dirtyset s = set (txn s)" "le32 0 (disk s 1 (loghead s)) = 0"
    "\<And>k. k \<notin> set (txn s) \<Longrightarrow> view s k = disk s 1 k" "view s (loghead s) = disk s 1 (loghead s)"
proof -
  show a: "bio_inv s {}" "log_ok s" "txn_ok s" "dirtyset s = set (txn s)" "le32 0 (disk s 1 (loghead s)) = 0"
    using assms by (simp_all add: pre_commit_def)
  show v: "\<And>k. k \<notin> set (txn s) \<Longrightarrow> view s k = disk s 1 k" using view_clean [OF a(1)] a(4) by simp
  have "loghead s \<notin> set (txn s)" using a(3) loghead(2) [OF a(2)] by (auto simp: txn_ok_def)
  with v show "view s (loghead s) = disk s 1 (loghead s)" by simp
qed

definition recovered :: "u32 \<Rightarrow> (u32 \<Rightarrow> bytes) \<Rightarrow> u32 \<Rightarrow> bytes" where
  "recovered L D = apply_writes (redo_writes L D) D"

lemma recovered_clean:
  assumes "le32 0 (D L) = 0" "k \<noteq> L"
  shows "recovered L D k = D k"
  using assms by (simp add: recovered_def redo_writes_def hdr_blocks_def)

lemma apply_writes_keys:
  assumes "\<And>i. i < n \<Longrightarrow> f i \<noteq> k"
  shows "apply_writes (take m (map (\<lambda>i. (1, f i, g i)) [0..<n])) D k = D k"
  using assms by (intro apply_writes_other) (fastforce dest: in_set_takeD)

lemma commit_crash_before:
  assumes p: "pre_commit s" and n: "n \<le> nat (lh_n s)"
    and D: "D = apply_writes (take n (commit_writes s)) (disk s 1)"
  shows "hdr_ok s (D (loghead s)) \<and> (\<forall>k. home s k \<longrightarrow> recovered (loghead s) D k = disk s 1 k)"
proof -
  note f = pre_commit_facts [OF p]
  have W: "take n (commit_writes s) = take n (map (\<lambda>i. (1, log_blockno s i, view s (lh_block s ! i))) [0..<nat (lh_n s)])"
    using n by (simp add: commit_writes_def Let_def log_writes_def)
  have L: "D (loghead s) = disk s 1 (loghead s)"
    unfolding D W using log_blockno_ne_loghead [OF f(2,3)] by (intro apply_writes_keys) auto
  have H: "D k = disk s 1 k" if "home s k" for k
    unfolding D W using log_area(2) [OF f(2) txn_facts(5) [OF f(2,3)], folded log_blockno_eq] that
    by (intro apply_writes_keys) metis
  have "hdr_ok s (D (loghead s))" using f(2,5) by (simp add: L hdr_ok_def hdr_blocks_def log_ok_def)
  moreover have "recovered (loghead s) D k = disk s 1 k" if "home s k" for k
    using recovered_clean [of D "loghead s" k] L f(5) H [OF that] loghead(2) [OF f(2)] that by auto
  ultimately show ?thesis by blast
qed

lemma commit_crash_after:
  assumes p: "pre_commit s" and n: "nat (lh_n s) < n" "n \<le> 2 * nat (lh_n s) + 1"
    and D: "D = apply_writes (take n (commit_writes s)) (disk s 1)"
  shows "hdr_ok s (D (loghead s)) \<and> (\<forall>k. home s k \<longrightarrow> recovered (loghead s) D k = view s k)"
proof -
  note f = pre_commit_facts [OF p] and t = txn_facts [OF f(2,3)]
  let ?n = "nat (lh_n s)" and ?L = "loghead s"
  let ?W1 = "map (\<lambda>i. (1, log_blockno s i, view s (lh_block s ! i))) [0..<?n]"
  let ?W3 = "map (\<lambda>i. (1, lh_block s ! i, view s (lh_block s ! i))) [0..<?n]"
  let ?hb = "header ?n (txn s) (view s ?L)" and ?m = "n - Suc ?n"
  have W: "take n (commit_writes s) = ?W1 @ [(1, ?L, ?hb)] @ take ?m ?W3"
    using n by (simp add: commit_writes_def Let_def log_writes_def take_Cons')
  have keys: "lh_block s ! i \<noteq> ?L" "lh_block s ! i \<noteq> log_blockno s j" if "i < ?n" "j < ?n" for i j
    using loghead(2) [OF f(2)] t(3) [OF that(1)] log_area(2) [OF f(2) t(5) [OF that(2)], folded log_blockno_eq]
    by metis+
  have L: "D ?L = ?hb"
    unfolding D W apply_writes_append using keys(1) by (subst apply_writes_keys) auto
  have hb: "hdr_blocks ?hb = txn s" "sint (le32 0 ?hb) = int ?n"
    using hdr_blocks_header [OF bio_inv_facts(5) [OF f(1)], of "txn s"] t(1,4) by simp_all
  have B: "D (log_blockno s j) = view s (lh_block s ! j)" if "j < ?n" for j
    unfolding D W apply_writes_append
    using keys(2) that apply_writes_map [OF that log_blockno_inj [OF f(2,3)]] log_blockno_ne_loghead [OF f(2,3) that]
    by (subst apply_writes_keys) auto
  have O: "D k = disk s 1 k" if "home s k" "k \<notin> set (txn s)" for k
  proof -
    have ne: "log_blockno s i \<noteq> k" "lh_block s ! i \<noteq> k" if "i < ?n" for i
      using \<open>home s k\<close> \<open>k \<notin> set (txn s)\<close> log_area(2) [OF f(2) t(5) [OF that], folded log_blockno_eq] t(7) that
      by (metis, metis atLeastLessThan_iff image_eqI zero_le)
    have "?L \<noteq> k" using loghead(2) [OF f(2)] that(1) by auto
    moreover have "apply_writes (take ?n ?W1) (disk s 1) k = disk s 1 k"
      by (rule apply_writes_keys) (rule ne(1))
    ultimately show ?thesis
      unfolding D W apply_writes_append using ne(2) by (subst apply_writes_keys) simp_all
  qed
  have R: "redo_writes ?L D = map (\<lambda>i. (1, lh_block s ! i, view s (lh_block s ! i))) [0..<?n] @ [(1, ?L, header 0 [] ?hb)]"
    using B t(1,2) by (simp add: redo_writes_def L hb(1) add.assoc)
  have "hdr_ok s (D ?L)" using f(3) by (simp add: L hdr_ok_def hb txn_ok_def)
  moreover have "recovered ?L D k = view s k" if "home s k" for k
  proof -
    have "k \<noteq> ?L" using loghead(2) [OF f(2)] that by auto
    then have r: "recovered ?L D k = apply_writes ?W3 D k" by (simp add: recovered_def R)
    show ?thesis
    proof (cases "k \<in> set (txn s)")
      case True
      then have "k \<in> (\<lambda>i. lh_block s ! i) ` {0..<?n}" using t(7) by simp
      then obtain j where j: "j < ?n" "k = lh_block s ! j" by auto
      then show ?thesis unfolding r using apply_writes_map [OF j(1) t(6)] by simp
    next
      case False
      then have "apply_writes ?W3 D k = D k" using t(7) by (intro apply_writes_other) force
      then show ?thesis unfolding r using O [OF that False] f(6) [OF False] by simp
    qed
  qed
  ultimately show ?thesis by blast
qed

lemma commit_crash_end:
  assumes p: "pre_commit s" and n: "0 < lh_n s" "2 * nat (lh_n s) + 1 < n"
    and D: "D = apply_writes (take n (commit_writes s)) (disk s 1)"
  shows "hdr_ok s (D (loghead s)) \<and> (\<forall>k. home s k \<longrightarrow> recovered (loghead s) D k = view s k)"
proof -
  note f = pre_commit_facts [OF p] and t = txn_facts [OF f(2,3)]
  let ?n = "nat (lh_n s)" and ?L = "loghead s"
  let ?W3 = "map (\<lambda>i. (1, lh_block s ! i, view s (lh_block s ! i))) [0..<?n]"
  let ?hb = "header ?n (txn s) (view s ?L)"
  define D' where "D' = apply_writes (take (2 * ?n + 1) (commit_writes s)) (disk s 1)"
  have W: "take n (commit_writes s) = take (2 * ?n + 1) (commit_writes s) @ [(1, ?L, header 0 [] ?hb)]"
    using n by (simp add: commit_writes_def Let_def log_writes_def)
  have DL: "D = D'(?L := header 0 [] ?hb)" unfolding D W D'_def by simp
  have len: "length ?hb = BSIZE"
    using header_facts(1) [OF bio_inv_facts(5) [OF f(1)], of "txn s"] t(1,4) by simp
  have h: "le32 0 (D ?L) = 0" using header_facts(2) [OF len, of "[]" 0] by (simp add: DL)
  have hb: "hdr_blocks ?hb = txn s"
    using hdr_blocks_header [OF bio_inv_facts(5) [OF f(1)], of "txn s"] t(1,4) by simp
  have full: "take (2 * ?n + 1) (commit_writes s) = log_writes s ?n 0 @ [(1, ?L, ?hb)] @ ?W3"
    by (simp add: commit_writes_def Let_def log_writes_def)
  have v: "D k = view s k" if "home s k" for k
  proof -
    have "k \<noteq> ?L" using loghead(2) [OF f(2)] that by auto
    then have "D k = D' k" by (simp add: DL)
    also have "\<dots> = view s k"
    proof (cases "k \<in> set (txn s)")
      case True
      then have "k \<in> (\<lambda>i. lh_block s ! i) ` {0..<?n}" using t(7) by simp
      then obtain j where j: "j < ?n" "k = lh_block s ! j" by auto
      then show ?thesis
        unfolding D'_def full apply_writes_append using apply_writes_map [OF j(1) t(6)] by simp
    next
      case False
      have ne: "log_blockno s i \<noteq> k" "lh_block s ! i \<noteq> k" if "i < ?n" for i
        using \<open>home s k\<close> False log_area(2) [OF f(2) t(5) [OF that], folded log_blockno_eq] t(7) that
        by (metis, metis atLeastLessThan_iff image_eqI zero_le)
      have "apply_writes (take ?n (log_writes s ?n 0)) (disk s 1) k = disk s 1 k"
        unfolding log_writes_def by (simp only: add_0, rule apply_writes_keys) (rule ne(1))
      moreover have "apply_writes (take ?n ?W3) E k = E k" for E
        by (rule apply_writes_keys) (rule ne(2))
      ultimately show ?thesis
        unfolding D'_def full apply_writes_append
        using \<open>k \<noteq> ?L\<close> f(6) [OF False] by (simp add: log_writes_def)
    qed
    finally show ?thesis .
  qed
  have "hdr_ok s (D ?L)" using h f(2) by (simp add: hdr_ok_def hdr_blocks_def log_ok_def)
  moreover have "recovered ?L D k = view s k" if "home s k" for k
    using recovered_clean [of D "loghead s", OF h] v [OF that] loghead(2) [OF f(2)] that by metis
  ultimately show ?thesis by blast
qed

lemma commit_crash:
  assumes p: "pre_commit s" and n: "0 < lh_n s" and D: "D = apply_writes (take n (commit_writes s)) (disk s 1)"
  shows "hdr_ok s (D (loghead s)) \<and> ((\<forall>k. home s k \<longrightarrow> recovered (loghead s) D k = disk s 1 k)
     \<or> (\<forall>k. home s k \<longrightarrow> recovered (loghead s) D k = view s k))"
proof -
  consider "n \<le> nat (lh_n s)" | "nat (lh_n s) < n" "n \<le> 2 * nat (lh_n s) + 1" | "2 * nat (lh_n s) + 1 < n"
    by linarith
  then show ?thesis
    using commit_crash_before [OF p _ D] commit_crash_after [OF p _ _ D] commit_crash_end [OF p assms(2) _ D]
    by cases blast+
qed

text \<open>
  The machine restarts on a disk \<open>D\<close>: nothing is cached, and the log is where it was.
\<close>

definition reboot :: "'x log_scheme \<Rightarrow> (u32 \<Rightarrow> bytes) \<Rightarrow> 'x log_scheme \<Rightarrow> bool" where
  "reboot s D t \<longleftrightarrow> bio_inv t {} \<and> dirtyset t = {} \<and> log_ok t \<and> log_start t = log_start s
     \<and> log_size t = log_size s \<and> disk t 1 = D"

lemma reboot_recover:
  assumes "reboot s D t" "hdr_ok s (D (loghead s))"
    and "(\<forall>k. home s k \<longrightarrow> recovered (loghead s) D k = f k) \<or> (\<forall>k. home s k \<longrightarrow> recovered (loghead s) D k = g k)"
  shows "wp (recover_from_log t) (\<lambda>_ t'. (\<forall>k. home s k \<longrightarrow> view t' k = f k) \<or> (\<forall>k. home s k \<longrightarrow> view t' k = g k))"
proof -
  have t: "bio_inv t {}" "log_ok t" "dirtyset t = {}" "loghead t = loghead s" "disk t 1 = D"
    using assms(1) by (auto simp: reboot_def)
  have h: "hdr_ok t (disk t 1 (loghead t))"
    using assms by (simp add: hdr_ok_def home_def reboot_def)
  show ?thesis
  proof (rule wp_recover [OF t(1-3) h])
    fix s' assume a: "bio_inv s' {}" "dirtyset s' = {}" "disk s' 1 = apply_writes (redo_writes (loghead t) (disk t 1)) (disk t 1)"
    have "view s' k = recovered (loghead s) D k" for k
      using view_clean [OF a(1), of k] a(2,3) t(4,5) by (simp add: recovered_def)
    then show "(\<forall>k. home s k \<longrightarrow> view s' k = f k) \<or> (\<forall>k. home s k \<longrightarrow> view s' k = g k)"
      using assms(3) by simp
  qed
qed

section \<open>Inside a transaction\<close>

text \<open>
  The invariant between \<^verbatim>\<open>begin_op\<close> and \<^verbatim>\<open>end_op\<close> while the process holds the buffers \<open>H\<close>: the blocks
  of the transaction are exactly the dirty ones, and the header on disk is empty.
\<close>

definition tx :: "'x log_scheme \<Rightarrow> nat set \<Rightarrow> bool" where
  "tx s H \<longleftrightarrow> bio_inv s H \<and> log_ok s \<and> txn_ok s \<and> dirtyset s = set (txn s)
     \<and> le32 0 (disk s 1 (loghead s)) = 0 \<and> \<not> log_committing s \<and> 1 \<le> log_outstanding s"

text \<open>What the operations of a transaction may change: no write reaches the disk.\<close>

definition tframe :: "'x log_scheme \<Rightarrow> 'x log_scheme \<Rightarrow> bool" where
  "tframe s s' \<longleftrightarrow> (\<exists>ps bs n ks. s' = s\<lparr>procs := ps, bufs := bs, lh_n := n, lh_block := ks\<rparr> \<and> woken (procs s) ps)"

lemma tframeI: "s' = s\<lparr>procs := ps, bufs := bs, lh_n := n, lh_block := ks\<rparr> \<Longrightarrow> woken (procs s) ps \<Longrightarrow> tframe s s'"
  unfolding tframe_def by blast

lemma bframe_tframe: "bframe s s' \<Longrightarrow> tframe s s'"
proof -
  assume "bframe s s'"
  then obtain ps bs where "s' = s\<lparr>procs := ps, bufs := bs\<rparr>" "woken (procs s) ps" by (auto simp: bframe_def)
  then show ?thesis by (intro tframeI [where ps = ps and bs = bs and n = "lh_n s" and ks = "lh_block s"]) simp_all
qed

lemma tframe_refl [simp, intro]: "tframe s s"
  by (rule bframe_tframe) simp

lemma tframe_trans: "tframe s t \<Longrightarrow> tframe t u \<Longrightarrow> tframe s u"
  unfolding tframe_def
proof (elim exE conjE)
  fix ps bs n ks qs cs m ls
  assume t: "t = s\<lparr>procs := ps, bufs := bs, lh_n := n, lh_block := ks\<rparr>" "woken (procs s) ps"
    and u: "u = t\<lparr>procs := qs, bufs := cs, lh_n := m, lh_block := ls\<rparr>" "woken (procs t) qs"
  have "u = s\<lparr>procs := qs, bufs := cs, lh_n := m, lh_block := ls\<rparr>" using t(1) u(1) by simp
  moreover have "woken (procs s) qs" using t u(2) woken_trans by simp
  ultimately show "\<exists>ps bs n ks. u = s\<lparr>procs := ps, bufs := bs, lh_n := n, lh_block := ks\<rparr> \<and> woken (procs s) ps" by blast
qed

lemma tframe_log:
  assumes "tframe s s'"
  shows "log_dev s' = log_dev s" "log_start s' = log_start s" "log_size s' = log_size s"
    "log_outstanding s' = log_outstanding s" "log_committing s' = log_committing s"
    "disk s' = disk s" "dwrites s' = dwrites s" "home s' = home s"
  using assms by (auto simp: tframe_def home_def fun_eq_iff)

lemma tframe_running: "tframe s t \<Longrightarrow> running s \<Longrightarrow> running t \<and> curproc t = curproc s"
proof -
  assume "tframe s t" "running s"
  then obtain ps bs n ks where t: "t = s\<lparr>procs := ps, bufs := bs, lh_n := n, lh_block := ks\<rparr>" "woken (procs s) ps"
    by (auto simp: tframe_def)
  have "running t = running (s\<lparr>procs := ps\<rparr>)" "curproc t = curproc (s\<lparr>procs := ps\<rparr>)"
    unfolding t by (simp_all add: running_def curproc_def myproc_def)
  with running_woken [OF \<open>running s\<close> t(2)] show ?thesis by simp
qed

lemma bframe_txn: "bframe s s' \<Longrightarrow> txn s' = txn s \<and> home s' = home s \<and> log_ok s' = log_ok s \<and> txn_ok s' = txn_ok s"
proof -
  assume "bframe s s'"
  note l = bframe_log [OF this]
  have "txn s' = txn s" "home s' = home s" by (simp_all add: txn_def home_def fun_eq_iff l)
  then show ?thesis by (simp add: log_ok_def txn_ok_def l)
qed

lemma tx_bframe:
  assumes "tx s H" "bframe s s'" "bio_inv s' H'" "dirtyset s' = dirtyset s"
  shows "tx s' H'"
  using assms bframe_log [OF assms(2)] bframe_txn [OF assms(2)] by (simp add: tx_def)

lemma tx_bio: "tx s H \<Longrightarrow> bio_inv s H"
  by (simp add: tx_def)

lemma tx_card: "tx s H \<Longrightarrow> card (dirtyset s) < LOGSIZE"
  using txn_facts(1,4) [of s] card_length [of "txn s"] by (fastforce simp: tx_def)

lemma txn_length: "tx s H \<Longrightarrow> int (length (txn s)) = lh_n s"
  using txn_facts(1) [of s] by (auto simp: tx_def txn_ok_def)

lemma wp_tx_bread:
  assumes t: "tx s H" and k: "k < 1000" and nH: "\<And>i. i \<in> H \<Longrightarrow> b_blockno (bufs s ! i) \<noteq> k"
    and free: "k \<in> set (txn s) \<or> card H + length (txn s) < NBUF"
    and Q: "\<And>b s'. b < NBUF \<Longrightarrow> b \<notin> H \<Longrightarrow> bframe s s' \<Longrightarrow> tx s' (insert b H) \<Longrightarrow> b_valid (bufs s' ! b) \<Longrightarrow>
      b_blockno (bufs s' ! b) = k \<Longrightarrow> b_data (bufs s' ! b) = view s k \<Longrightarrow>
      b_dirty (bufs s' ! b) \<or> view s k = disk s 1 k \<Longrightarrow>
      view s' = view s \<Longrightarrow> txn s' = txn s \<Longrightarrow>
      (\<And>j. j \<in> H \<Longrightarrow> bcore (bufs s' ! j) = bcore (bufs s ! j)) \<Longrightarrow> Q b s'"
  shows "wp (bread ROOTDEV k s) Q"
proof (rule wp_bread [OF tx_bio [OF t] k nH])
  have d: "dirtyset s = set (txn s)" using t by (simp add: tx_def)
  show "k \<in> dirtyset s \<or> card H + card (dirtyset s) < NBUF"
    using free card_length [of "txn s"] unfolding d by linarith
next
  fix b s'
  assume a: "b < NBUF" "b \<notin> H" "bframe s s'" "bio_inv s' (insert b H)" "b_valid (bufs s' ! b)"
    "b_blockno (bufs s' ! b) = k" "b_data (bufs s' ! b) = view s k" "b_dirty (bufs s' ! b) = (k \<in> dirtyset s)"
    "view s' = view s" "dirtyset s' = dirtyset s" "\<And>j. j \<in> H \<Longrightarrow> bcore (bufs s' ! j) = bcore (bufs s ! j)"
  have "b_dirty (bufs s' ! b) \<or> view s k = disk s 1 k" using view_clean [OF tx_bio [OF t] _ nH] a(8) by blast
  then show "Q b s'" using a bframe_txn [OF a(3)] by (intro Q tx_bframe [OF t a(3)]) auto
qed auto

lemma find_idx_eq_some:
  assumes "k \<in> set xs"
  shows "\<exists>i<length xs. find_idx (\<lambda>x. x = k) xs = Some i \<and> xs ! i = k"
proof (cases "find_idx (\<lambda>x. x = k) xs")
  case None
  with assms show ?thesis by (auto simp: find_idx_None_iff)
next
  case (Some i)
  with find_idx_SomeD [OF this] show ?thesis by auto
qed

text \<open>\<^verbatim>\<open>log_write\<close> pins the block and records it once.\<close>

lemma wp_log_write [wp_rules]:
  assumes t: "tx s H" and b: "b \<in> H" "b_valid (bufs s ! b)" and h: "home s (b_blockno (bufs s ! b))"
    and n: "lh_n s < log_size s - 1"
    and Q: "\<And>s'. tframe s s' \<Longrightarrow> tx s' H \<Longrightarrow> view s' = view s \<Longrightarrow>
      txn s' = (if b_blockno (bufs s ! b) \<in> set (txn s) then txn s else txn s @ [b_blockno (bufs s ! b)]) \<Longrightarrow>
      bufs s' = (bufs s)[b := (bufs s ! b)\<lparr>b_dirty := True\<rparr>] \<Longrightarrow> Q () s'"
  shows "wp (log_write b s) Q"
proof -
  let ?k = "b_blockno (bufs s ! b)" and ?n = "nat (lh_n s)"
  have ok: "log_ok s" "txn_ok s" "running s" "dirtyset s = set (txn s)" using t by (auto simp: tx_def bio_inv_def)
  note tf = txn_facts [OF ok(1,2)]
  have l: "length (lh_block s) = LOGSIZE" "0 \<le> lh_n s" "lh_n s < int LOGSIZE - 1"
    using ok n by (auto simp: log_ok_def txn_ok_def)
  define i where "i = (case find_idx (\<lambda>x. x = ?k) (take ?n (lh_block s)) of Some i \<Rightarrow> i | None \<Rightarrow> ?n)"
  let ?s = "upd_buf b (\<lambda>x. x\<lparr>b_dirty := True\<rparr>) (s\<lparr>lh_block := (lh_block s)[i := ?k],
      lh_n := (if int i = lh_n s then lh_n s + 1 else lh_n s)\<rparr>)"
  have g: "\<not> (lh_n s \<ge> int LOGSIZE \<or> lh_n s \<ge> log_size s - 1)" "\<not> log_outstanding s < 1"
    using l n t by (auto simp: tx_def)
  have r: "log_write b s = Ret () ?s"
    unfolding log_write_def if_not_P [OF g(1)] if_not_P [OF g(2)]
    using ok(3) l(2) by (cases "find_idx (\<lambda>x. x = ?k) (take ?n (lh_block s))")
      (auto simp: Let_def i_def intro!: log.equality)
  have T: "txn ?s = (if ?k \<in> set (txn s) then txn s else txn s @ [?k])"
  proof (cases "?k \<in> set (txn s)")
    case True
    then obtain j where j: "j < ?n" "find_idx (\<lambda>x. x = ?k) (txn s) = Some j" "txn s ! j = ?k"
      using find_idx_eq_some [OF True] tf(1) by auto
    then have i: "i = j" by (simp add: i_def txn_def)
    then have "(lh_block s)[i := ?k] = lh_block s" using j tf(2) [OF j(1)] by (metis list_update_id)
    with i j(1) True show ?thesis by (simp add: txn_def)
  next
    case False
    then have "find_idx (\<lambda>x. x = ?k) (txn s) = None" by (auto simp: find_idx_None_iff)
    then have i: "i = ?n" by (simp add: i_def txn_def)
    have "take (Suc ?n) ((lh_block s)[?n := ?k]) = take ?n (lh_block s) @ [?k]"
      using l by (subst take_Suc_conv_app_nth) auto
    then show ?thesis using False i l(2) by (simp add: txn_def Suc_nat_eq_nat_zadd1 add.commute)
  qed
  have inv: "bio_inv ?s H" "view ?s = view s" "dirtyset ?s = insert ?k (dirtyset s)"
    using bdirty_ok [OF tx_bio [OF t] b] by (simp_all add: bio_inv_def running_def curproc_def myproc_def view_def dirtyset_def)
  have "txn_ok ?s"
    using ok(2) h n l(2) T by (auto simp: txn_ok_def home_def)
  then have "tx ?s H" using t inv T l(1) by (auto simp: tx_def log_ok_def)
  moreover have "tframe s ?s" by (rule tframeI [where ps = "procs s" and bs = "(bufs s)[b := (bufs s ! b)\<lparr>b_dirty := True\<rparr>]"
      and n = "if int i = lh_n s then lh_n s + 1 else lh_n s" and ks = "(lh_block s)[i := ?k]"]) simp_all
  ultimately have "Q () ?s" using inv T by (intro Q) simp_all
  then show ?thesis by (simp add: r)
qed

lemma tx_bset:
  assumes "tx s H" "b \<in> H" "b_valid (bufs s ! b)" "length d = BSIZE"
  shows "tx (upd_buf b (\<lambda>x. x\<lparr>b_data := d\<rparr>) s) H"
    and "view (upd_buf b (\<lambda>x. x\<lparr>b_data := d\<rparr>) s) = (view s)(b_blockno (bufs s ! b) := d)"
    and "txn (upd_buf b (\<lambda>x. x\<lparr>b_data := d\<rparr>) s) = txn s"
proof -
  note u = bset_ok [OF tx_bio [OF assms(1)] assms(2-4)]
  show "tx (upd_buf b (\<lambda>x. x\<lparr>b_data := d\<rparr>) s) H"
    using u by (intro tx_bframe [OF assms(1)]) simp_all
  show "view (upd_buf b (\<lambda>x. x\<lparr>b_data := d\<rparr>) s) = (view s)(b_blockno (bufs s ! b) := d)" by (rule u)
  show "txn (upd_buf b (\<lambda>x. x\<lparr>b_data := d\<rparr>) s) = txn s" by (simp add: txn_def)
qed

lemma wp_tx_brelse:
  assumes t: "tx s H" and b: "b \<in> H" and v: "b_valid (bufs s ! b)"
    and c: "b_dirty (bufs s ! b) \<or> b_data (bufs s ! b) = disk s 1 (b_blockno (bufs s ! b))"
    and Q: "\<And>s'. bframe s s' \<Longrightarrow> tx s' (H - {b}) \<Longrightarrow> view s' = view s \<Longrightarrow> txn s' = txn s \<Longrightarrow>
      (\<And>j. j \<noteq> b \<Longrightarrow> bcore (bufs s' ! j) = bcore (bufs s ! j)) \<Longrightarrow> Q () s'"
  shows "wp (brelse b s) Q"
proof (rule wp_brelse [OF tx_bio [OF t] b v c])
  fix s' assume a: "bframe s s'" "bio_inv s' (H - {b})" "view s' = view s" "dirtyset s' = dirtyset s"
    "\<And>j. j \<noteq> b \<Longrightarrow> bcore (bufs s' ! j) = bcore (bufs s ! j)"
  then show "Q () s'" using bframe_txn [OF a(1)] by (intro Q tx_bframe [OF t a(1)]) auto
qed

text \<open>Between transactions.\<close>

definition idle :: "'x log_scheme \<Rightarrow> bool" where
  "idle s \<longleftrightarrow> bio_inv s {} \<and> log_ok s \<and> lh_n s = 0 \<and> dirtyset s = {} \<and> le32 0 (disk s 1 (loghead s)) = 0
     \<and> \<not> log_committing s \<and> log_outstanding s = 0"

lemma idle_view: "idle s \<Longrightarrow> view s = disk s 1"
  using view_clean [of s "{}"] by (auto simp: idle_def fun_eq_iff)

lemma wp_begin_op:
  assumes i: "idle s" and Q: "\<And>s'. s' = s\<lparr>log_outstanding := 1\<rparr> \<Longrightarrow> tx s' {} \<Longrightarrow> txn s' = [] \<Longrightarrow> view s' = view s \<Longrightarrow> Q () s'"
  shows "wp (begin_op s) Q"
proof -
  have "running s" using i by (auto simp: idle_def bio_inv_def)
  then have "begin_op s = Ret () (s\<lparr>log_outstanding := 1\<rparr>)"
    using i by (simp add: begin_op_def idle_def)
  moreover have "tx (s\<lparr>log_outstanding := 1\<rparr>) {}" "txn (s\<lparr>log_outstanding := 1\<rparr>) = []"
    using i by (auto simp: tx_def idle_def log_ok_def txn_ok_def txn_def)
  ultimately show ?thesis using Q by simp
qed

lemma wp_end_op:
  fixes s :: "'x log_scheme"
  assumes t: "tx s {}" and o: "log_outstanding s = 1"
    and Q: "\<And>s'. idle s' \<Longrightarrow> (\<forall>k. home s k \<longrightarrow> view s' k = view s k) \<Longrightarrow> (\<forall>k. home s k \<longrightarrow> disk s' 1 k = view s k) \<Longrightarrow>
      home s' = home s \<Longrightarrow> Q () s'"
  shows "wp (end_op s) Q"
proof -
  let ?s = "s\<lparr>log_outstanding := 0, log_committing := True\<rparr>"
  have run: "running s" and inv: "bio_inv s {}" and ok: "log_ok s" "txn_ok s" using t by (auto simp: tx_def bio_inv_def)
  have T: "txn ?s = txn s" "home ?s = home s" by (simp_all add: txn_def home_def fun_eq_iff)
  have p: "pre_commit ?s" using t T by (simp add: tx_def pre_commit_def log_ok_def txn_ok_def)
  note f = pre_commit_facts [OF p]
  have C: "wp (commit ?s) (\<lambda>_ s'. bio_inv s' {} \<and> dirtyset s' = {} \<and> lh_n s' = 0 \<and> log_ok s' \<and> home s' = home s
      \<and> le32 0 (disk s' 1 (loghead s')) = 0 \<and> log_outstanding s' = 0 \<and> (\<forall>k. home s k \<longrightarrow> disk s' 1 k = view s k))"
  proof (cases "0 < lh_n s")
    case True
    show ?thesis
    proof (rule wp_commit [OF f(1-4)])
      show "0 < lh_n ?s" using True by simp
    next
      fix s' assume a: "lframe (?s\<lparr>lh_n := 0\<rparr>) s' (commit_writes ?s)" "bio_inv s' {}" "dirtyset s' = {}"
      note lg = lframe_log [OF a(1)] and dk = lframe_disk [OF a(1)]
      define D where "D = apply_writes (commit_writes ?s) (disk ?s 1)"
      have D: "disk s' 1 = D" using dk by (simp add: D_def)
      have n: "\<exists>ws. commit_writes ?s = ws @ [(1, loghead s, header 0 [] (header (nat (lh_n s)) (txn s) (view s (loghead s))))]"
        by (simp add: commit_writes_def Let_def T)
      have "length (view ?s (loghead s)) = BSIZE" "length (txn s) \<le> LOGSIZE"
        using bio_inv_facts(5) [OF inv] txn_facts(1,4) [OF ok] by auto
      then have h: "le32 0 (D (loghead s)) = 0"
        using n header_facts(1) [of "view s (loghead s)" "txn s" "nat (lh_n s)"]
          header_facts(2) [of "header (nat (lh_n s)) (txn s) (view s (loghead s))" "[]" 0]
        by (auto simp: D_def)
      have "D k = view s k" if "home s k" for k
      proof -
        have "recovered (loghead s) D k = view s k"
          using commit_crash_end [OF p, of "2 * nat (lh_n s) + 2" D] True that T
          by (auto simp: D_def commit_writes_def Let_def log_writes_def)
        then show ?thesis using recovered_clean [of D "loghead s", OF h] loghead(2) [OF ok(1)] that by metis
      qed
      then show "bio_inv s' {} \<and> dirtyset s' = {} \<and> lh_n s' = 0 \<and> log_ok s' \<and> home s' = home s
        \<and> le32 0 (disk s' 1 (loghead s')) = 0 \<and> log_outstanding s' = 0 \<and> (\<forall>k. home s k \<longrightarrow> disk s' 1 k = view s k)"
        using a h ok(1) D by (simp add: lg log_ok_def home_def fun_eq_iff)
    qed
  next
    case False
    then have "lh_n s = 0" "txn s = []" using ok(2) by (auto simp: txn_ok_def txn_def)
    moreover from this have "dirtyset s = {}" using t by (simp add: tx_def)
    moreover have "disk s 1 k = view s k" for k using view_clean [OF inv] calculation(3) by simp
    ultimately show ?thesis using t by (simp add: commit_def tx_def T log_ok_def home_def)
  qed
  have "wp (commit ?s) (\<lambda>_ s. wp (kbind (acquire LLog s) (\<lambda>_ s. kbind (wakeup ChLog (s\<lparr>log_committing := False\<rparr>)) (\<lambda>_ s. release LLog s))) Q)"
  proof (rule wp_mono [OF C], elim conjE)
    fix u and s' :: "'x log_scheme"
    assume a: "bio_inv s' {}" "dirtyset s' = {}" "lh_n s' = 0" "log_ok s'" "home s' = home s"
      "le32 0 (disk s' 1 (loghead s')) = 0" "log_outstanding s' = 0" "\<forall>k. home s k \<longrightarrow> disk s' 1 k = view s k"
    let ?t = "s'\<lparr>log_committing := False, procs := wake ChLog (procs s')\<rparr>"
    have run': "running s'" using a(1) by (simp add: bio_inv_def)
    then have "kbind (acquire LLog s') (\<lambda>_ s. kbind (wakeup ChLog (s\<lparr>log_committing := False\<rparr>)) (\<lambda>_ s. release LLog s)) = Ret () ?t"
      by (auto intro!: log.equality)
    moreover have "Q () ?t"
    proof (rule Q)
      show i: "idle ?t"
        using a running_woken [OF run' woken_wake [of _ ChLog]]
        by (auto simp: idle_def bio_inv_def running_def curproc_def myproc_def dirtyset_def log_ok_def)
      show "\<forall>k. home s k \<longrightarrow> view ?t k = view s k" using a(8) idle_view [OF i] by simp
      show "\<forall>k. home s k \<longrightarrow> disk ?t 1 k = view s k" using a(8) by simp
      show "home ?t = home s" using a(5) by (simp add: home_def fun_eq_iff)
    qed
    ultimately show "wp (kbind (acquire LLog s') (\<lambda>_ s. kbind (wakeup ChLog (s\<lparr>log_committing := False\<rparr>)) (\<lambda>_ s. release LLog s))) Q"
      by simp
  qed
  moreover have "end_op s = kbind (commit ?s) (\<lambda>_ s. kbind (acquire LLog s) (\<lambda>_ s. kbind (wakeup ChLog (s\<lparr>log_committing := False\<rparr>)) (\<lambda>_ s. release LLog s)))"
  proof -
    have e: "?s\<lparr>held := []\<rparr> = ?s" using run by (auto intro!: log.equality)
    have "end_op s = kbind (commit (?s\<lparr>held := []\<rparr>)) (\<lambda>_ s. kbind (acquire LLog s)
        (\<lambda>_ s. kbind (wakeup ChLog (s\<lparr>log_committing := False\<rparr>)) (\<lambda>_ s. release LLog s)))"
      using run o t by (simp add: end_op_def Let_def tx_def)
    then show ?thesis by (simp only: e)
  qed
  ultimately show ?thesis by simp
qed

section \<open>A log at rest\<close>

definition log_boot :: log where
  "log_boot = bio.extend bio_boot (log.fields 2 (int LOGSIZE) 0 False ROOTDEV 0 (replicate LOGSIZE 0))"

lemma bio_extend [simp]:
  "bio_inv (bio.extend s m) H = bio_inv s H" "view (bio.extend s m) = view s" "dirtyset (bio.extend s m) = dirtyset s"
  "disk (bio.extend s m) = disk s"
  by (simp_all add: bio_inv_def running_def curproc_def myproc_def view_def dirtyset_def bio.defs)

lemma log_boot: "idle log_boot" "home log_boot 40" "log_ok log_boot" "view log_boot k = replicate BSIZE 0"
proof -
  have d: "disk bio_boot 1 k = replicate BSIZE 0" for k
    using view_clean [OF bio_boot(1), of k] bio_boot by simp
  have s: "log_start log_boot = 2" "log_size log_boot = 30" "log_dev log_boot = 1" "lh_n log_boot = 0"
    "lh_block log_boot = replicate 30 0" "log_outstanding log_boot = 0" "\<not> log_committing log_boot"
    by (simp_all add: log_boot_def bio.defs log.defs)
  have b: "bio_inv log_boot {}" "view log_boot = view bio_boot" "dirtyset log_boot = {}" "disk log_boot = disk bio_boot"
    using bio_boot by (simp_all add: log_boot_def)
  show "log_ok log_boot" "home log_boot 40" by (simp_all add: log_ok_def home_def s)
  then show "idle log_boot" using b s d by (simp add: idle_def le32_def)
  show "view log_boot k = replicate BSIZE 0" using b bio_boot by simp
qed

text \<open>One block changed in a transaction.\<close>

definition log_block :: "u32 \<Rightarrow> bytes \<Rightarrow> 'x log_scheme \<Rightarrow> (unit, 'x log_scheme) outcome" where
  "log_block k d s = kbind (bread ROOTDEV k s) (\<lambda>b s.
     kbind (log_write b (upd_buf b (\<lambda>x. x\<lparr>b_data := d\<rparr>) s)) (\<lambda>_ s. brelse b s))"

lemma wp_log_block:
  assumes t: "tx s {}" and k: "home s k" and d: "length d = BSIZE" and n: "lh_n s < log_size s - 1"
    and Q: "\<And>s'. tframe s s' \<Longrightarrow> tx s' {} \<Longrightarrow> view s' = (view s)(k := d) \<Longrightarrow>
      txn s' = (if k \<in> set (txn s) then txn s else txn s @ [k]) \<Longrightarrow> Q () s'"
  shows "wp (log_block k d s) Q"
  unfolding log_block_def wp_kbind
proof (rule wp_tx_bread [OF t])
  show "k < 1000" using k by (simp add: home_def)
  have "log_ok s" "txn_ok s" using t by (auto simp: tx_def)
  from txn_facts(1,4) [OF this] show "k \<in> set (txn s) \<or> card {} + length (txn s) < NBUF" by simp
next
  fix b s1
  assume a: "b < NBUF" "bframe s s1" "tx s1 (insert b {})" "b_valid (bufs s1 ! b)" "b_blockno (bufs s1 ! b) = k"
    "view s1 = view s" "txn s1 = txn s"
  note l1 = bframe_log [OF a(2)]
  let ?s2 = "upd_buf b (\<lambda>x. x\<lparr>b_data := d\<rparr>) s1"
  have len: "b < length (bufs s1)" using held_buf(2) [OF tx_bio [OF a(3)]] by simp
  note u = tx_bset [OF a(3) _ a(4) d, simplified]
  show "wp (log_write b ?s2) (\<lambda>_ s. wp (brelse b s) Q)"
  proof (rule wp_log_write [OF u(1)])
    show "home ?s2 (b_blockno (bufs ?s2 ! b))" using k a(5) len bframe_txn [OF a(2)] by (simp add: home_def l1)
    show "lh_n ?s2 < log_size ?s2 - 1" using n by (simp add: l1)
  next
    fix s3 assume w: "tframe ?s2 s3" "tx s3 {b}" "view s3 = view ?s2"
      "txn s3 = (if b_blockno (bufs ?s2 ! b) \<in> set (txn ?s2) then txn ?s2 else txn ?s2 @ [b_blockno (bufs ?s2 ! b)])"
      "bufs s3 = (bufs ?s2)[b := (bufs ?s2 ! b)\<lparr>b_dirty := True\<rparr>]"
    show "wp (brelse b s3) Q"
    proof (rule wp_tx_brelse [OF w(2)])
      fix s4 assume r: "bframe s3 s4" "tx s4 ({b} - {b})" "view s4 = view s3" "txn s4 = txn s3"
      have "tframe s s4"
        using tframe_trans [OF bframe_tframe [OF a(2)] tframe_trans [OF bframe_tframe [OF bframe_bufs]
          tframe_trans [OF w(1) bframe_tframe [OF r(1)]]]] .
      then show "Q () s4" using r w a u len by (intro Q) auto
    qed (use w len a in auto)
  qed (use len a in auto)
qed auto

section \<open>Properties\<close>

text \<open>
  C1. A commit is atomic with respect to crashes. It returns; and if the machine stops after any
  number of the disk writes it makes, recovery at the next start leaves the blocks outside the log
  either all as they were on disk before the transaction or all as the transaction left them.
\<close>

theorem commit_crash_atomic:
  assumes "pre_commit s" "0 < lh_n s"
  shows "wp (commit s) (\<lambda>_ s'. \<exists>ws. dwrites s' = dwrites s @ ws
     \<and> (\<forall>n t. reboot s (apply_writes (take n ws) (disk s 1)) t \<longrightarrow>
          wp (recover_from_log t) (\<lambda>_ t'. (\<forall>k. home s k \<longrightarrow> view t' k = disk s 1 k)
             \<or> (\<forall>k. home s k \<longrightarrow> view t' k = view s k))))"
proof (rule wp_commit)
  fix s' assume "lframe (s\<lparr>lh_n := 0\<rparr>) s' (commit_writes s)"
  then have "dwrites s' = dwrites s @ commit_writes s" using lframe_disk by fastforce
  moreover have "wp (recover_from_log t) (\<lambda>_ t'. (\<forall>k. home s k \<longrightarrow> view t' k = disk s 1 k)
             \<or> (\<forall>k. home s k \<longrightarrow> view t' k = view s k))"
    if "reboot s (apply_writes (take n (commit_writes s)) (disk s 1)) t" for n t
    using commit_crash [OF assms refl, of n] that by (intro reboot_recover [OF that]) blast+
  ultimately show "\<exists>ws. dwrites s' = dwrites s @ ws
     \<and> (\<forall>n t. reboot s (apply_writes (take n ws) (disk s 1)) t \<longrightarrow>
          wp (recover_from_log t) (\<lambda>_ t'. (\<forall>k. home s k \<longrightarrow> view t' k = disk s 1 k)
             \<or> (\<forall>k. home s k \<longrightarrow> view t' k = view s k)))" by blast
qed (use assms pre_commit_facts [OF assms(1)] in auto)

lemma log_boot_pre_commit:
  "wp (kbind (begin_op log_boot) (\<lambda>_ s. log_block 40 (replicate BSIZE 1) s)) (\<lambda>_ s. pre_commit s \<and> 0 < lh_n s)"
  unfolding wp_kbind
proof (rule wp_begin_op [OF log_boot(1)])
  fix s assume s: "s = log_boot\<lparr>log_outstanding := 1\<rparr>" "tx s {}" "txn s = []"
  have h: "home s 40" using log_boot(2) s(1) by (simp add: home_def)
  have z: "lh_n s < log_size s - 1" using txn_length [OF s(2)] s(3) s(1) by (simp add: log_boot_def bio.defs log.defs)
  show "wp (log_block 40 (replicate BSIZE 1) s) (\<lambda>_ s. pre_commit s \<and> 0 < lh_n s)"
  proof (rule wp_log_block [OF s(2) h _ z])
    fix s' assume t: "tx s' {}" "txn s' = (if 40 \<in> set (txn s) then txn s else txn s @ [40])"
    then show "pre_commit s' \<and> 0 < lh_n s'"
      using txn_length [OF t(1)] s(3) by (simp add: tx_def pre_commit_def)
  qed simp
qed

theorem commit_crash_atomic_witness:
  "wp (kbind (begin_op log_boot) (\<lambda>_ s. log_block 40 (replicate BSIZE 1) s)) (\<lambda>_ s.
     wp (commit s) (\<lambda>_ s'. \<exists>ws. dwrites s' = dwrites s @ ws
     \<and> (\<forall>n t. reboot s (apply_writes (take n ws) (disk s 1)) t \<longrightarrow>
          wp (recover_from_log t) (\<lambda>_ t'. (\<forall>k. home s k \<longrightarrow> view t' k = disk s 1 k)
             \<or> (\<forall>k. home s k \<longrightarrow> view t' k = view s k)))))"
  by (rule wp_mono [OF log_boot_pre_commit]) (blast intro: commit_crash_atomic)



lemma hdr_area:
  assumes "log_ok s" "hdr_ok s h" "i < length (hdr_blocks h)"
  shows "\<not> home s (loghead s + of_nat i + 1)" "home s (hdr_blocks h ! i)"
proof -
  have "int (Suc i) < log_size s" using assms by (auto simp: hdr_ok_def hdr_blocks_def)
  from log_area(2) [OF assms(1) this] show "\<not> home s (loghead s + of_nat i + 1)" by (simp add: add.commute add.left_commute)
  show "home s (hdr_blocks h ! i)" using assms(2,3) by (auto simp: hdr_ok_def)
qed

lemma recovered_prefix:
  assumes ok: "log_ok s" and h: "hdr_ok s (D (loghead s))" and len: "length (D (loghead s)) = BSIZE"
    and E: "E = apply_writes (take n (redo_writes (loghead s) D)) D"
  shows "hdr_ok s (E (loghead s)) \<and> (\<forall>k. home s k \<longrightarrow> recovered (loghead s) E k = recovered (loghead s) D k)"
proof -
  let ?L = "loghead s" and ?bs = "hdr_blocks (D (loghead s))"
  let ?f = "\<lambda>i. ?bs ! i" and ?g = "\<lambda>i. D (?L + of_nat i + 1)" and ?n = "length ?bs"
  have L: "?f i \<noteq> ?L" "?f i \<noteq> ?L + of_nat j + 1" if "i < ?n" "j < ?n" for i j
    using hdr_area [OF ok h] that loghead(2) [OF ok] by metis+
  have inj: "inj_on ?f {0..<?n}" using h by (auto simp: hdr_ok_def inj_on_def nth_eq_iff_index_eq)
  show ?thesis
  proof (cases "n \<le> ?n")
    case True
    then have W: "take n (redo_writes ?L D) = take n (map (\<lambda>i. (1, ?f i, ?g i)) [0..<?n])"
      by (simp add: redo_writes_def)
    have EL: "E ?L = D ?L" unfolding E W by (rule apply_writes_keys) (use L(1) in blast)
    have EB: "E (?L + of_nat j + 1) = ?g j" if "j < ?n" for j
      unfolding E W by (rule apply_writes_keys) (use L(2) that in blast)
    have RW: "redo_writes ?L E = redo_writes ?L D" using EB by (simp add: redo_writes_def EL)
    have "recovered ?L E k = recovered ?L D k" if "home s k" for k
    proof (cases "k \<in> set ?bs")
      case True
      then obtain j where j: "j < ?n" "k = ?f j" by (auto simp: in_set_conv_nth)
      have "k \<noteq> ?L" using loghead(2) [OF ok] that by auto
      then show ?thesis unfolding recovered_def RW unfolding redo_writes_def
        using apply_writes_map [OF j(1) inj] j(2) by simp
    next
      case False
      then have nk: "?f i \<noteq> k" if "i < ?n" for i using that by auto
      have "k \<noteq> ?L" using loghead(2) [OF ok] that by auto
      moreover have "E k = D k" unfolding E W by (rule apply_writes_keys) (rule nk)
      moreover have "apply_writes (take ?n (map (\<lambda>i. (1, ?f i, ?g i)) [0..<?n])) F k = F k" for F
        by (rule apply_writes_keys) (rule nk)
      ultimately show ?thesis unfolding recovered_def RW unfolding redo_writes_def by simp
    qed
    with h EL show ?thesis by simp
  next
    case False
    then have W: "take n (redo_writes ?L D) = redo_writes ?L D" by (simp add: redo_writes_def)
    have EL: "E ?L = header 0 [] (D ?L)" unfolding E W by (simp add: redo_writes_def)
    have z: "le32 0 (E ?L) = 0" using header_facts(2) [OF len, of "[]" 0] by (simp add: EL)
    have "recovered ?L E k = recovered ?L D k" if "home s k" for k
    proof -
      have "k \<noteq> ?L" using loghead(2) [OF ok] that by auto
      then have "recovered ?L E k = E k" by (rule recovered_clean [of E ?L, OF z])
      then show ?thesis unfolding E W recovered_def by simp
    qed
    moreover have "hdr_ok s (E ?L)" using z ok by (simp add: hdr_ok_def hdr_blocks_def log_ok_def)
    ultimately show ?thesis by blast
  qed
qed

text \<open>
  C3. Recovery may itself be interrupted: whatever prefix of its writes reaches the disk, a second
  recovery ends with the same blocks outside the log as the first would have.
\<close>

theorem recovery_restartable:
  assumes "reboot s D t" "hdr_ok s (D (loghead s))"
  shows "wp (recover_from_log t) (\<lambda>_ t'. \<exists>ws. dwrites t' = dwrites t @ ws
     \<and> (\<forall>n u. reboot s (apply_writes (take n ws) D) u \<longrightarrow>
          wp (recover_from_log u) (\<lambda>_ u'. \<forall>k. home s k \<longrightarrow> view u' k = view t' k)))"
proof -
  have t: "bio_inv t {}" "log_ok t" "dirtyset t = {}" "loghead t = loghead s" "disk t 1 = D" "log_start t = log_start s" "log_size t = log_size s"
    using assms(1) by (auto simp: reboot_def)
  have ho: "home t = home s" by (simp add: home_def fun_eq_iff t)
  have h: "hdr_ok t (disk t 1 (loghead t))" using assms(2) by (simp add: hdr_ok_def ho t)
  have len: "length (D (loghead s)) = BSIZE" using t(1,5) by (auto simp: bio_inv_def)
  show ?thesis
  proof (rule wp_recover [OF t(1-3) h])
    fix t' assume a: "bio_inv t' {}" "dirtyset t' = {}" "disk t' 1 = apply_writes (redo_writes (loghead t) (disk t 1)) (disk t 1)"
      "dwrites t' = dwrites t @ redo_writes (loghead t) (disk t 1)"
    have v: "view t' k = recovered (loghead s) D k" for k
      using view_clean [OF a(1), of k] a(2,3) t(4,5) by (simp add: recovered_def)
    have "wp (recover_from_log u) (\<lambda>_ u'. \<forall>k. home s k \<longrightarrow> view u' k = view t' k)"
      if u: "reboot s (apply_writes (take n (redo_writes (loghead s) D)) D) u" for n u
    proof -
      let ?E = "apply_writes (take n (redo_writes (loghead s) D)) D"
      have "hdr_ok t (?E (loghead t)) \<and> (\<forall>k. home t k \<longrightarrow> recovered (loghead t) ?E k = recovered (loghead t) D k)"
        by (rule recovered_prefix [OF t(2)]) (use h len t in \<open>simp_all\<close>)
      then have "hdr_ok s (?E (loghead s))" "\<forall>k. home s k \<longrightarrow> recovered (loghead s) ?E k = recovered (loghead s) D k"
        by (simp_all add: hdr_ok_def ho t(4,6,7))
      then have "wp (recover_from_log u) (\<lambda>_ u'. (\<forall>k. home s k \<longrightarrow> view u' k = recovered (loghead s) D k)
          \<or> (\<forall>k. home s k \<longrightarrow> view u' k = recovered (loghead s) D k))"
        by (intro reboot_recover [OF u]) auto
      then show ?thesis by (rule wp_mono) (simp add: v)
    qed
    then show "\<exists>ws. dwrites t' = dwrites t @ ws \<and> (\<forall>n u. reboot s (apply_writes (take n ws) D) u \<longrightarrow>
          wp (recover_from_log u) (\<lambda>_ u'. \<forall>k. home s k \<longrightarrow> view u' k = view t' k))"
      using a(4) t(4,5) by auto
  qed
qed

theorem recovery_restartable_witness:
  "wp (recover_from_log log_boot) (\<lambda>_ t'. \<exists>ws. dwrites t' = dwrites log_boot @ ws
     \<and> (\<forall>n u. reboot log_boot (apply_writes (take n ws) (disk log_boot 1)) u \<longrightarrow>
          wp (recover_from_log u) (\<lambda>_ u'. \<forall>k. home log_boot k \<longrightarrow> view u' k = view t' k)))"
proof (rule recovery_restartable)
  show "reboot log_boot (disk log_boot 1) log_boot" using log_boot(1) by (simp add: reboot_def idle_def)
  show "hdr_ok log_boot (disk log_boot 1 (loghead log_boot))"
    using log_boot(1) by (simp add: idle_def hdr_ok_def hdr_blocks_def log_ok_def)
qed

end
