(* ===== verification/CString.thy ===== *)
theory CString
  imports Memory
begin

text \<open>
  The memory and string functions of the kernel, \<^verbatim>\<open>string.c\<close>, and of the user library, \<^verbatim>\<open>ulib.c\<close>. The
  memory functions work on the byte-addressed memory. The string functions take the bytes from the
  pointer to the end of the array it points into; reading past that end is \<^const>\<open>None\<close>.
\<close>

section \<open>Memory\<close>

fun stosl :: "u32 \<Rightarrow> u32 \<Rightarrow> nat \<Rightarrow> mem \<Rightarrow> mem" where
  "stosl a v 0 m = m"
| "stosl a v (Suc n) m = stosl (a + 4) v n (store32 a v m)"

declare stosl.simps [simp del]

definition memset :: "u32 \<Rightarrow> u32 \<Rightarrow> u32 \<Rightarrow> mem \<Rightarrow> mem" where
  "memset dst c n m =
     (if dst mod 4 = 0 \<and> n mod 4 = 0
      then let c = c AND 0xFF
           in stosl dst (push_bit 24 c OR push_bit 16 c OR push_bit 8 c OR c) (unat (n div 4)) m
      else stosb dst (ucast c) (unat n) m)"

text \<open>The loop of \<^verbatim>\<open>memcmp\<close>, \<open>n\<close> bytes left.\<close>

fun memcmp :: "mem \<Rightarrow> u32 \<Rightarrow> u32 \<Rightarrow> nat \<Rightarrow> int" where
  "memcmp m s1 s2 0 = 0"
| "memcmp m s1 s2 (Suc n) =
     (if m s1 \<noteq> m s2 then uint (m s1) - uint (m s2) else memcmp m (s1 + 1) (s2 + 1) n)"

fun copy_down :: "nat \<Rightarrow> u32 \<Rightarrow> u32 \<Rightarrow> mem \<Rightarrow> mem" where
  "copy_down 0 d s m = m"
| "copy_down (Suc n) d s m = copy_down n (d - 1) (s - 1) (m(d - 1 := m (s - 1)))"

fun copy_up :: "nat \<Rightarrow> u32 \<Rightarrow> u32 \<Rightarrow> mem \<Rightarrow> mem" where
  "copy_up 0 d s m = m"
| "copy_up (Suc n) d s m = copy_up n (d + 1) (s + 1) (m(d := m s))"

declare copy_down.simps [simp del] copy_up.simps [simp del]

definition memmove :: "u32 \<Rightarrow> u32 \<Rightarrow> u32 \<Rightarrow> mem \<Rightarrow> mem" where
  "memmove dst src n m =
     (if src < dst \<and> src + n > dst then copy_down (unat n) (dst + n) (src + n) m
      else copy_up (unat n) dst src m)"

definition memcpy :: "u32 \<Rightarrow> u32 \<Rightarrow> u32 \<Rightarrow> mem \<Rightarrow> mem" where
  "memcpy dst src n m = memmove dst src n m"

section \<open>Strings\<close>

fun strncmp :: "bytes \<Rightarrow> bytes \<Rightarrow> nat \<Rightarrow> int option" where
  "strncmp p q 0 = Some 0"
| "strncmp (a # p) (b # q) (Suc n) =
     (if a \<noteq> 0 \<and> a = b then strncmp p q n else Some (uint a - uint b))"
| "strncmp [] q (Suc n) = None"
| "strncmp (a # p) [] (Suc n) = None"

text \<open>The \<open>n\<close> bytes that \<^verbatim>\<open>strncpy\<close> stores.\<close>

fun strncpy :: "bytes \<Rightarrow> nat \<Rightarrow> bytes option" where
  "strncpy t 0 = Some []"
| "strncpy [] (Suc n) = None"
| "strncpy (a # t) (Suc n) =
     (if a \<noteq> 0 then map_option ((#) a) (strncpy t n) else Some (0 # replicate n 0))"

text \<open>The bytes that \<^verbatim>\<open>safestrcpy\<close> stores; the loop has copied all but \<open>n\<close> of them.\<close>

fun safestrcpy_loop :: "bytes \<Rightarrow> nat \<Rightarrow> bytes option" where
  "safestrcpy_loop t 0 = Some [0]"
| "safestrcpy_loop [] (Suc n) = None"
| "safestrcpy_loop (a # t) (Suc n) =
     (if a \<noteq> 0 then map_option ((#) a) (safestrcpy_loop t n) else Some [0, 0])"

definition safestrcpy :: "bytes \<Rightarrow> int \<Rightarrow> bytes option" where
  "safestrcpy t n = (if n \<le> 0 then Some [] else safestrcpy_loop t (nat (n - 1)))"

fun strlen :: "bytes \<Rightarrow> nat option" where
  "strlen [] = None"
| "strlen (a # s) = (if a = 0 then Some 0 else map_option Suc (strlen s))"

fun strcpy :: "bytes \<Rightarrow> bytes option" where
  "strcpy [] = None"
| "strcpy (a # t) = (if a = 0 then Some [0] else map_option ((#) a) (strcpy t))"

fun strcmp :: "bytes \<Rightarrow> bytes \<Rightarrow> int option" where
  "strcmp (a # p) (b # q) = (if a \<noteq> 0 \<and> a = b then strcmp p q else Some (uint a - uint b))"
| "strcmp _ _ = None"

text \<open>The offset \<^verbatim>\<open>strchr\<close> returns a pointer to, \<^term>\<open>Some None\<close> for the null pointer.\<close>

fun strchr :: "bytes \<Rightarrow> u8 \<Rightarrow> nat option option" where
  "strchr [] c = None"
| "strchr (a # s) c =
     (if a = 0 then Some None else if a = c then Some (Some 0)
      else map_option (map_option Suc) (strchr s c))"

text \<open>\<^verbatim>\<open>atoi\<close>, with the wrap-around of \<^verbatim>\<open>int\<close>.\<close>

fun atoi_loop :: "bytes \<Rightarrow> u32 \<Rightarrow> u32 option" where
  "atoi_loop [] n = None"
| "atoi_loop (a # s) n =
     (if 48 \<le> a \<and> a \<le> 57 then atoi_loop s (n * 10 + ucast a - 48) else Some n)"

definition atoi :: "bytes \<Rightarrow> int option" where
  "atoi s = map_option sint (atoi_loop s 0)"

text \<open>\<^verbatim>\<open>memmove\<close> of the user library copies upwards only.\<close>

definition umemmove :: "u32 \<Rightarrow> u32 \<Rightarrow> int \<Rightarrow> mem \<Rightarrow> mem" where
  "umemmove dst src n m = copy_up (nat n) dst src m"

definition umemset :: "u32 \<Rightarrow> u32 \<Rightarrow> u32 \<Rightarrow> mem \<Rightarrow> mem" where
  "umemset dst c n m = stosb dst (ucast c) (unat n) m"

fun convertToLowercase :: "bytes \<Rightarrow> bytes option" where
  "convertToLowercase [] = None"
| "convertToLowercase (a # s) =
     (if a = 0 then Some (a # s)
      else map_option ((#) (if 65 \<le> a \<and> a \<le> 90 then a + 32 else a)) (convertToLowercase s))"

section \<open>Filling and copying\<close>

lemma bytes_rep:
  fixes c :: u32
  defines "v \<equiv> push_bit 24 (c AND 0xFF) OR push_bit 16 (c AND 0xFF) OR push_bit 8 (c AND 0xFF) OR (c AND 0xFF)"
  shows "ucast v = (ucast c :: u8)" "ucast (drop_bit 8 v) = (ucast c :: u8)"
    "ucast (drop_bit 16 v) = (ucast c :: u8)" "ucast (drop_bit 24 v) = (ucast c :: u8)"
proof -
  have m: "(0xFF :: u32) = mask 8" by (simp add: mask_eq_exp_minus_1)
  show "ucast v = (ucast c :: u8)" "ucast (drop_bit 8 v) = (ucast c :: u8)"
    "ucast (drop_bit 16 v) = (ucast c :: u8)" "ucast (drop_bit 24 v) = (ucast c :: u8)"
    unfolding v_def m by (rule bit_word_eqI, auto simp: bit_simps)+
qed

lemma stosl_stosb:
  assumes "ucast v = c" "ucast (drop_bit 8 v) = c" "ucast (drop_bit 16 v) = c" "ucast (drop_bit 24 v) = c"
  shows "stosl a v n m = stosb a c (4 * n) m"
proof (induction n arbitrary: a m)
  case 0
  show ?case by (simp add: stosl.simps stosb.simps)
next
  case (Suc n)
  have "4 * Suc n = Suc (Suc (Suc (Suc (4 * n))))" by simp
  then have "stosb a c (4 * Suc n) m = stosb (a + 1 + 1 + 1 + 1) c (4 * n) (m(a := c, a + 1 := c, a + 1 + 1 := c, a + 1 + 1 + 1 := c))"
    by (simp only: stosb.simps)
  also have "\<dots> = stosl a v (Suc n) m"
  proof -
    have e: "a + 1 + 1 = a + 2" "a + 2 + 1 = a + 3" "a + 3 + 1 = a + 4" by simp_all
    show ?thesis by (simp only: e stosl.simps store32_def assms Suc.IH)
  qed
  finally show ?case ..
qed

lemma memset_stosb: "memset dst c n m = stosb dst (ucast c) (unat n) m"
proof (cases "dst mod 4 = 0 \<and> n mod 4 = 0")
  case True
  then have "unat (n mod 4) = 0" by simp
  then have "unat n mod 4 = 0" by (simp add: unat_mod)
  then have "4 * (unat n div 4) = unat n" by (metis add_0_right mult_div_mod_eq)
  then have "4 * unat (n div 4) = unat n" by (simp add: unat_div)
  then show ?thesis unfolding memset_def Let_def if_P [OF True] stosl_stosb [OF bytes_rep] by simp
next
  case False
  show ?thesis unfolding memset_def if_not_P [OF False] ..
qed

lemma copy_up_apply:
  assumes "unat d + n \<le> 2 ^ 32" "unat s + n \<le> 2 ^ 32" "d \<le> s \<or> unat s + n \<le> unat d"
  shows "copy_up n d s m x = (if unat (x - d) < n then m (s + (x - d)) else m x)"
  using assms
proof (induction n arbitrary: d s m)
  case 0
  show ?case by (simp add: copy_up.simps)
next
  case (Suc n)
  show ?case
  proof (cases "n = 0")
    case True
    then show ?thesis by (auto simp: copy_up.simps unsigned_eq_0_iff)
  next
    case False
    have s1: "unat (d + 1) = unat d + 1" "unat (s + 1) = unat s + 1"
      using Suc.prems False by (simp_all add: unat_add_u32)
    have IH: "copy_up n (d + 1) (s + 1) (m(d := m s)) x =
        (if unat (x - (d + 1)) < n then (m(d := m s)) (s + 1 + (x - (d + 1))) else (m(d := m s)) x)"
      using Suc.prems s1 by (intro Suc.IH) (auto simp: word_le_nat_alt)
    show ?thesis
    proof (cases "x = d")
      case True
      have "\<not> unat (- 1 :: u32) < n" using Suc.prems(1) by (simp add: unat_m1)
      with True IH show ?thesis by (simp add: copy_up.simps)
    next
      case xd: False
      define j where "j = x - d"
      have u: "unat j = Suc (unat (x - (d + 1)))" unfolding j_def by (rule unat_minus_Suc [OF xd])
      have "s + j \<noteq> d" if "unat j < Suc n"
      proof
        assume e: "s + j = d"
        have "unat (s + j) = unat s + unat j" using that Suc.prems(2) by (intro unat_add_u32) simp
        with e that u Suc.prems(3) show False by (auto simp: word_le_nat_alt)
      qed
      then show ?thesis using IH xd u unfolding j_def by (simp add: copy_up.simps add_diff_eq)
    qed
  qed
qed

lemma copy_down_apply:
  assumes "unat d + n \<le> 2 ^ 32" "s \<le> d"
  shows "copy_down n (d + of_nat n) (s + of_nat n) m x = (if unat (x - d) < n then m (s + (x - d)) else m x)"
  using assms
proof (induction n arbitrary: m)
  case 0
  show ?case by (simp add: copy_down.simps)
next
  case (Suc n)
  let ?m = "m(d + of_nat n := m (s + of_nat n))"
  have IH: "copy_down n (d + of_nat n) (s + of_nat n) ?m x =
      (if unat (x - d) < n then ?m (s + (x - d)) else ?m x)" using Suc by simp
  have n: "unat (of_nat n :: u32) = n" using Suc.prems(1) by simp
  have ne: "s + (x - d) \<noteq> d + of_nat n" if "unat (x - d) < n"
  proof
    assume e: "s + (x - d) = d + of_nat n"
    have "unat (d + of_nat n) = unat d + n" using Suc.prems(1) n by (simp add: unat_add_u32)
    moreover have "unat (s + (x - d)) = unat s + unat (x - d)"
      using that Suc.prems by (intro unat_add_u32) (simp add: word_le_nat_alt)
    ultimately show False using e that Suc.prems(2) by (simp add: word_le_nat_alt)
  qed
  have xn: "unat (x - d) = n \<longleftrightarrow> x = d + of_nat n"
    using n by (metis add_diff_cancel_left' add.commute diff_add_cancel unsigned_word_eqI)
  show ?case
  proof (cases "unat (x - d) = n")
    case True
    with xn IH show ?thesis by (simp add: copy_down.simps)
  next
    case False
    then have "unat (x - d) < Suc n \<longleftrightarrow> unat (x - d) < n" "x \<noteq> d + of_nat n" using xn by auto
    then show ?thesis using IH ne by (auto simp: copy_down.simps)
  qed
qed

section \<open>What the string functions compute\<close>

text \<open>The string an array of characters holds, and whether it ends in the array.\<close>

definition cstr :: "bytes \<Rightarrow> bytes" where
  "cstr a = takeWhile (\<lambda>c. c \<noteq> 0) a"

abbreviation terminated :: "bytes \<Rightarrow> bool" where
  "terminated a \<equiv> 0 \<in> set a"

lemma cstr_simps [simp]: "cstr [] = []" "cstr (c # a) = (if c = 0 then [] else c # cstr a)"
  by (simp_all add: cstr_def)

lemma cstr_append0 [simp]: "0 \<notin> set s \<Longrightarrow> cstr (s @ 0 # t) = s"
  by (induction s) auto

lemma cstr_nonzero: "0 \<notin> set (cstr a)"
  by (induction a) auto

lemma length_cstr: "terminated a \<Longrightarrow> length (cstr a) < length a"
  by (induction a) auto

lemma nth_length_cstr: "terminated a \<Longrightarrow> a ! length (cstr a) = 0"
  by (induction a) auto

lemma uint_u8:
  "uint (a :: u8) < uint b \<longleftrightarrow> a < b" "uint a = uint b \<longleftrightarrow> a = b" "uint a = 0 \<longleftrightarrow> a = 0" "0 < uint b \<longleftrightarrow> b \<noteq> 0"
  using uint_0_iff [of b] unsigned_greater_eq [of b, where ?'a = int]
  by (auto simp: word_less_def word_uint_eq_iff order.strict_iff_order)

lemma strlen_cstr: "strlen s = (if terminated s then Some (length (cstr s)) else None)"
  by (induction s) auto

lemma strcpy_cstr: "strcpy t = (if terminated t then Some (cstr t @ [0]) else None)"
  by (induction t) auto

lemma strcmp_cstr:
  assumes "terminated p" "terminated q"
  shows "\<exists>r. strcmp p q = Some r \<and> (r = 0 \<longleftrightarrow> cstr p = cstr q) \<and> (r < 0 \<longleftrightarrow> ord_class.lexordp (cstr p) (cstr q))"
  using assms
proof (induction p q rule: strcmp.induct)
  case (1 a p b q)
  show ?case
  proof (cases "a \<noteq> 0 \<and> a = b")
    case True
    with 1 show ?thesis by auto
  next
    case False
    then show ?thesis using word_gt_0 [of b] by (cases "b = 0") (auto simp: uint_u8)
  qed
qed auto

lemma strncmp_cstr:
  assumes "terminated p" "terminated q"
  shows "\<exists>r. strncmp p q n = Some r \<and> (r = 0 \<longleftrightarrow> take n (cstr p) = take n (cstr q))
     \<and> (r < 0 \<longleftrightarrow> ord_class.lexordp (take n (cstr p)) (take n (cstr q)))"
  using assms
proof (induction p q n rule: strncmp.induct)
  case (2 a p b q n)
  show ?case
  proof (cases "a \<noteq> 0 \<and> a = b")
    case True
    with 2 show ?thesis by auto
  next
    case False
    then show ?thesis using word_gt_0 [of b] by (cases "b = 0") (auto simp: uint_u8)
  qed
qed auto

text \<open>\<^verbatim>\<open>strncmp\<close> needs no terminator when the arrays are as long as the bound.\<close>

lemma strncmp_eq_iff:
  assumes "terminated p \<or> n \<le> length p" "terminated q \<or> n \<le> length q"
  shows "\<exists>r. strncmp p q n = Some r \<and> (r = 0 \<longleftrightarrow> take n (cstr p) = take n (cstr q))"
  using assms
proof (induction p q n rule: strncmp.induct)
  case (2 a p b q n)
  show ?case
  proof (cases "a \<noteq> 0 \<and> a = b")
    case True
    with 2 show ?thesis by auto
  next
    case False
    then show ?thesis by (cases "b = 0") (auto simp: uint_u8)
  qed
qed auto

lemma strncpy_cstr:
  assumes "terminated t \<or> n \<le> length t"
  shows "strncpy t n = Some (take n (cstr t) @ replicate (n - length (cstr t)) 0)"
  using assms by (induction t n rule: strncpy.induct) auto

lemma safestrcpy_loop_cstr:
  assumes "terminated t \<or> n \<le> length t"
  shows "\<exists>z. safestrcpy_loop t n = Some (take n (cstr t) @ 0 # z) \<and> length (take n (cstr t) @ 0 # z) \<le> n + 1"
  using assms by (induction t n rule: safestrcpy_loop.induct) auto

lemma convertToLowercase_length:
  "convertToLowercase s = Some r \<Longrightarrow> length r = length s"
  by (induction s arbitrary: r) (auto split: if_splits)

section \<open>Properties\<close>

text \<open>
  C35. \<^verbatim>\<open>memmove\<close> copies correctly even when the areas overlap: the result is that of reading the whole
  source first. The areas must not reach past the end of memory.
\<close>

theorem memmove_overlap:
  assumes "unat dst + unat n \<le> 2 ^ 32" "unat src + unat n < 2 ^ 32"
  shows "memmove dst src n m = (\<lambda>x. if x - dst < n then m (src + (x - dst)) else m x)"
proof
  fix x
  have n: "unat (x - dst) < unat n \<longleftrightarrow> x - dst < n" by (simp add: word_less_nat_alt)
  show "memmove dst src n m x = (if x - dst < n then m (src + (x - dst)) else m x)"
  proof (cases "src < dst \<and> src + n > dst")
    case True
    then have "src \<le> dst" by (simp add: word_less_nat_alt word_le_nat_alt)
    with True show ?thesis using copy_down_apply [of dst "unat n" src m x] assms n
      by (simp add: memmove_def)
  next
    case False
    have "unat (src + n) = unat src + unat n" using assms(2) by (intro unat_add_u32) simp
    then have "dst \<le> src \<or> unat src + unat n \<le> unat dst"
      using False by (auto simp: word_less_nat_alt word_le_nat_alt)
    then show ?thesis using copy_up_apply [of dst "unat n" src m x] assms n False
      by (auto simp: memmove_def)
  qed
qed

theorem memmove_overlap_witness:
  "memmove 0x1002 0x1000 4 (\<lambda>a. ucast a)
     = (\<lambda>x. if x - 0x1002 < 4 then ucast (0x1000 + (x - 0x1002) :: u32) else ucast x)"
  by (rule memmove_overlap) simp_all

text \<open>
  C36. \<^verbatim>\<open>memset\<close> fills exactly the \<^verbatim>\<open>n\<close> bytes from \<^verbatim>\<open>dst\<close> on with the low byte of \<^verbatim>\<open>c\<close>; the word-wise
  path for aligned areas computes the same as the byte-wise one.
\<close>

theorem memset_fills: "memset dst c n m = (\<lambda>x. if x - dst < n then ucast c else m x)"
proof
  fix x
  have "unat n \<le> 2 ^ 32" using unat_lt_2p32 [of n] by (simp del: unat_lt_2p32)
  then show "memset dst c n m x = (if x - dst < n then ucast c else m x)"
    unfolding memset_stosb by (simp add: stosb_apply word_less_nat_alt)
qed

text \<open>
  C37. The string functions never read past a terminated array, and they compute what their names
  say on the strings the arrays hold: \<^verbatim>\<open>strlen\<close> the length, \<^verbatim>\<open>strncmp\<close> the lexicographic order of the
  first \<^verbatim>\<open>n\<close> characters, \<^verbatim>\<open>strncpy\<close> the first \<^verbatim>\<open>n\<close> characters padded with NULs, and \<^verbatim>\<open>safestrcpy\<close> a
  terminated copy of at most \<^verbatim>\<open>n - 1\<close> characters that fits \<^verbatim>\<open>n\<close> bytes.
\<close>

theorem string_functions:
  assumes "terminated p" "terminated q" "0 < k"
  shows "strlen p = Some (length (cstr p))
    \<and> (\<exists>r. strncmp p q n = Some r \<and> (r = 0 \<longleftrightarrow> take n (cstr p) = take n (cstr q))
        \<and> (r < 0 \<longleftrightarrow> ord_class.lexordp (take n (cstr p)) (take n (cstr q))))
    \<and> (\<exists>r. strcmp p q = Some r \<and> (r = 0 \<longleftrightarrow> cstr p = cstr q) \<and> (r < 0 \<longleftrightarrow> ord_class.lexordp (cstr p) (cstr q)))
    \<and> strncpy p n = Some (take n (cstr p) @ replicate (n - length (cstr p)) 0)
    \<and> (\<exists>r. safestrcpy p k = Some r \<and> terminated r \<and> cstr r = take (nat k - 1) (cstr p) \<and> length r \<le> nat k)"
proof (intro conjI)
  have nz: "0 \<notin> set (take i (cstr p))" for i using cstr_nonzero [of p] by (auto dest: in_set_takeD)
  show "\<exists>r. safestrcpy p k = Some r \<and> terminated r \<and> cstr r = take (nat k - 1) (cstr p) \<and> length r \<le> nat k"
    using safestrcpy_loop_cstr [of p "nat (k - 1)"] assms(1,3) nz by (auto simp: safestrcpy_def nat_diff_distrib)
qed (use assms strlen_cstr strncmp_cstr strcmp_cstr strncpy_cstr in \<open>auto\<close>)

theorem string_functions_witness:
  "strlen (lit ''ab'' @ [0]) = Some (length (cstr (lit ''ab'' @ [0])))
    \<and> (\<exists>r. strncmp (lit ''ab'' @ [0]) (lit ''b'' @ [0]) 1 = Some r
        \<and> (r = 0 \<longleftrightarrow> take 1 (cstr (lit ''ab'' @ [0])) = take 1 (cstr (lit ''b'' @ [0])))
        \<and> (r < 0 \<longleftrightarrow> ord_class.lexordp (take 1 (cstr (lit ''ab'' @ [0]))) (take 1 (cstr (lit ''b'' @ [0])))))
    \<and> (\<exists>r. strcmp (lit ''ab'' @ [0]) (lit ''b'' @ [0]) = Some r
        \<and> (r = 0 \<longleftrightarrow> cstr (lit ''ab'' @ [0]) = cstr (lit ''b'' @ [0]))
        \<and> (r < 0 \<longleftrightarrow> ord_class.lexordp (cstr (lit ''ab'' @ [0])) (cstr (lit ''b'' @ [0]))))
    \<and> strncpy (lit ''ab'' @ [0]) 1
        = Some (take 1 (cstr (lit ''ab'' @ [0])) @ replicate (1 - length (cstr (lit ''ab'' @ [0]))) 0)
    \<and> (\<exists>r. safestrcpy (lit ''ab'' @ [0]) 2 = Some r \<and> terminated r
        \<and> cstr r = take (nat 2 - 1) (cstr (lit ''ab'' @ [0])) \<and> length r \<le> nat 2)"
  by (rule string_functions) simp_all

end
