(* ===== verification/Cprintf.thy ===== *)
theory Cprintf
  imports Kbase
begin

text \<open>
  Output on the console: the serial port (\<^verbatim>\<open>uart.c\<close>), the screen, \<^verbatim>\<open>consputc\<close> and \<^verbatim>\<open>cprintf\<close>
  (\<^verbatim>\<open>console.c\<close>). A character is an \<^verbatim>\<open>int\<close> of the code, as a 32-bit word.
\<close>

section \<open>Devices\<close>

abbreviation (input) BACKSPACE :: u32 where "BACKSPACE \<equiv> 0x100"
abbreviation (input) NEWLINE :: u8 where "NEWLINE \<equiv> 10"

text \<open>
  \<^verbatim>\<open>uartputc\<close>: the wait for the transmitter is bounded, so the byte is always sent.
\<close>

definition uartputc :: "u32 \<Rightarrow> console \<Rightarrow> console" where
  "uartputc c k = (if \<not> c_uart k then k else k\<lparr>c_serial := c_serial k @ [ucast c]\<rparr>)"

text \<open>
  \<^verbatim>\<open>uartinit\<close>, where \<open>status\<close> is what the line status register reads.
\<close>

definition uartinit :: "u8 \<Rightarrow> console \<Rightarrow> console" where
  "uartinit status k =
     (if status = 0xFF then k
      else fold (\<lambda>c. uartputc (ucast c)) (lit ''xv6...'' @ [NEWLINE]) (k\<lparr>c_uart := True\<rparr>))"

text \<open>
  \<^verbatim>\<open>cgaputc\<close>. The cursor register has 16 bits, so the position is not negative; \<open>crt\<close> is the text memory
  by cell.
\<close>

definition scroll :: "nat \<Rightarrow> (nat \<Rightarrow> u16) \<Rightarrow> nat \<Rightarrow> u16" where
  "scroll pos crt i =
     (if pos \<le> i \<and> i < 24 * 80 then 0 else if i < 23 * 80 then crt (i + 80) else crt i)"

definition cgaputc :: "u32 \<Rightarrow> console \<Rightarrow> (unit, console) outcome" where
  "cgaputc c k =
     (let pos = unat (c_pos k);
          (crt, pos) =
            (if c = 10 then (c_crt k, pos + (80 - pos mod 80))
             else if c = BACKSPACE then (c_crt k, if pos > 0 then pos - 1 else pos)
             else ((c_crt k)(pos := (ucast c AND 0xFF) OR 0x0700), pos + 1))
      in if pos > 25 * 80 then Panic ''pos under/overflow''
      else
        let (crt, pos) = (if pos div 80 \<ge> 24 then (scroll (pos - 80) crt, pos - 80) else (crt, pos))
        in Ret () (k\<lparr>c_pos := of_nat pos, c_crt := crt(pos := 0x0720)\<rparr>))"

text \<open>\<^verbatim>\<open>consputc\<close> spins when another processor has panicked.\<close>

definition consputc :: "u32 \<Rightarrow> console \<Rightarrow> (unit, console) outcome" where
  "consputc c k =
     (if c_panicked k then Hang
      else cgaputc c (if c = BACKSPACE then uartputc 8 (uartputc 32 (uartputc 8 k)) else uartputc c k))"

section \<open>Numbers\<close>

definition digit :: "nat \<Rightarrow> u8" where
  "digit d = lit ''0123456789abcdef'' ! d"

text \<open>The digits of a number, the last one first; the bases the code uses are 10 and 16.\<close>

function digits_loop :: "nat \<Rightarrow> nat \<Rightarrow> nat list" where
  "digits_loop base x =
     x mod base # (if base \<le> 1 \<or> x div base = 0 then [] else digits_loop base (x div base))"
  by pat_completeness auto
termination
  by (relation "measure snd") (auto intro!: div_less_dividend dest: div_greater_zero_iff [THEN iffD1])

declare digits_loop.simps [simp del]

text \<open>What \<^verbatim>\<open>printint\<close> puts in \<^verbatim>\<open>buf\<close>; \<open>sign\<close> is its third argument.\<close>

definition int_buf :: "(nat \<Rightarrow> u8) \<Rightarrow> u32 \<Rightarrow> nat \<Rightarrow> bool \<Rightarrow> bytes" where
  "int_buf dig xx base sign =
     (let neg = (sign \<and> xx <s 0);
          x = (if neg then - xx else xx)
      in map dig (digits_loop base (unat x)) @ (if neg then lit ''-'' else []))"

text \<open>A string printed one \<^verbatim>\<open>char\<close> at a time; the type is signed.\<close>

definition putchars :: "bytes \<Rightarrow> console \<Rightarrow> (unit, console) outcome" where
  "putchars cs = kfor cs (\<lambda>c. consputc (scast c))"

definition printint :: "u32 \<Rightarrow> nat \<Rightarrow> bool \<Rightarrow> console \<Rightarrow> (unit, console) outcome" where
  "printint xx base sign k =
     (let buf = int_buf digit xx base sign in if length buf > 16 then undef else putchars (rev buf) k)"

section \<open>Formatted output\<close>

text \<open>
  The arguments after the format: a number, or the string a pointer points to, with \<^const>\<open>None\<close> for the null
  pointer. The format is the string without its NUL; no call passes a null pointer, which \<^verbatim>\<open>cprintf\<close> answers with a panic.
\<close>

datatype arg = ANum u32 | AStr "bytes option"

fun cprintf_loop :: "bytes \<Rightarrow> arg list \<Rightarrow> console \<Rightarrow> (unit, console) outcome" where
  "cprintf_loop [] args k = Ret () k"
| "cprintf_loop (c # fmt) args k =
     (if c \<noteq> 37 then kbind (consputc (ucast c) k) (\<lambda>_ k. cprintf_loop fmt args k)
      else case fmt of [] \<Rightarrow> Ret () k
      | d # fmt \<Rightarrow>
          if d = 100 then
            (case args of ANum v # args \<Rightarrow> kbind (printint v 10 True k) (\<lambda>_ k. cprintf_loop fmt args k)
             | _ \<Rightarrow> undef)
          else if d = 120 \<or> d = 112 then
            (case args of ANum v # args \<Rightarrow> kbind (printint v 16 False k) (\<lambda>_ k. cprintf_loop fmt args k)
             | _ \<Rightarrow> undef)
          else if d = 115 then
            (case args of AStr so # args \<Rightarrow>
               kbind (putchars (case so of None \<Rightarrow> lit ''(null)'' | Some cs \<Rightarrow> cs) k) (\<lambda>_ k. cprintf_loop fmt args k)
             | _ \<Rightarrow> undef)
          else if d = 37 then kbind (consputc 37 k) (\<lambda>_ k. cprintf_loop fmt args k)
          else kbind (consputc 37 k) (\<lambda>_ k. kbind (consputc (ucast d) k) (\<lambda>_ k. cprintf_loop fmt args k)))"

text \<open>An operation of the console as one of the kernel.\<close>

definition on_cons :: "(console \<Rightarrow> ('a, console) outcome) \<Rightarrow> 'x kbase_scheme \<Rightarrow> ('a, 'x kbase_scheme) outcome" where
  "on_cons f s = (case f (cons s) of Ret x k \<Rightarrow> Ret x (s\<lparr>cons := k\<rparr>) | Panic m \<Rightarrow> Panic m
     | Switch k \<Rightarrow> Switch (s\<lparr>cons := k\<rparr>) | Hang \<Rightarrow> Hang)"

definition cprintf :: "bytes \<Rightarrow> arg list \<Rightarrow> 'x kbase_scheme \<Rightarrow> (unit, 'x kbase_scheme) outcome" where
  "cprintf fmt args s =
     (let locking = c_locking (cons s) in
      kbind (if locking then acquire LCons s else Ret () s) (\<lambda>_ s.
      kbind (on_cons (cprintf_loop fmt args) s) (\<lambda>_ s.
      if locking then release LCons s else Ret () s)))"

section \<open>Numbers are printed correctly\<close>

text \<open>The number that a list of digits stands for, the first digit the most significant.\<close>

definition of_digits :: "nat \<Rightarrow> nat list \<Rightarrow> nat" where
  "of_digits base ds = foldl (\<lambda>v d. v * base + d) 0 ds"

lemma of_digits_snoc [simp]: "of_digits base (ds @ [d]) = of_digits base ds * base + d"
  by (simp add: of_digits_def)

lemma digits_loop_val: "1 < base \<Longrightarrow> of_digits base (rev (digits_loop base x)) = x"
proof (induction base x rule: digits_loop.induct)
  case (1 base x)
  show ?case
  proof (cases "x div base = 0")
    case True
    with 1(2) have "x mod base = x" by (simp add: div_eq_0_iff)
    with True show ?thesis by (subst digits_loop.simps) (simp add: of_digits_def)
  next
    case False
    with 1 show ?thesis by (subst digits_loop.simps) simp
  qed
qed

lemma digits_loop_less: "1 < base \<Longrightarrow> d \<in> set (digits_loop base x) \<Longrightarrow> d < base"
proof (induction base x rule: digits_loop.induct)
  case (1 base x)
  from 1(3) have "d = x mod base \<or> (\<not> base \<le> 1 \<and> x div base \<noteq> 0) \<and> d \<in> set (digits_loop base (x div base))"
    by (subst (asm) digits_loop.simps) (auto split: if_splits)
  with 1 show ?case by auto
qed

lemma digits_loop_last: "1 < base \<Longrightarrow> 0 < x \<Longrightarrow> last (digits_loop base x) \<noteq> 0"
proof (induction base x rule: digits_loop.induct)
  case (1 base x)
  show ?case
  proof (cases "x div base = 0")
    case True
    with 1(2) have "x mod base = x" by (simp add: div_eq_0_iff)
    with True 1(3) show ?thesis by (subst digits_loop.simps) simp
  next
    case False
    then have "last (digits_loop base (x div base)) \<noteq> 0" using 1(1,2) by simp
    moreover have "digits_loop base (x div base) \<noteq> []" by (subst digits_loop.simps) simp
    ultimately show ?thesis using False 1(2) by (subst digits_loop.simps) simp
  qed
qed

lemma digits_loop_length: "1 < base \<Longrightarrow> 0 < n \<Longrightarrow> x < base ^ n \<Longrightarrow> length (digits_loop base x) \<le> n"
proof (induction base x arbitrary: n rule: digits_loop.induct)
  case (1 base x)
  show ?case
  proof (cases "x div base = 0")
    case True
    with 1(3) show ?thesis by (subst digits_loop.simps) simp
  next
    case False
    then have "\<not> x < base" using 1(2) by (simp add: div_eq_0_iff)
    with 1(3,4) obtain m where m: "n = Suc m" "0 < m"
      by (cases n; cases "n = 1") auto
    have "x div base < base ^ m" using 1(4) m by (simp add: less_mult_imp_div_less mult.commute)
    then have "length (digits_loop base (x div base)) \<le> m" using False 1(1,2) m(2) by simp
    then show ?thesis using m by (subst digits_loop.simps) simp
  qed
qed

lemma digits_loop_0 [simp]: "digits_loop base 0 = [0]"
  by (subst digits_loop.simps) simp

text \<open>The digits of a number: no leading zero, every digit below the base, and the right value.\<close>

definition numeral_of :: "nat \<Rightarrow> nat \<Rightarrow> nat list \<Rightarrow> bool" where
  "numeral_of base x ds \<longleftrightarrow> of_digits base ds = x \<and> (\<forall>d \<in> set ds. d < base) \<and> (ds = [0] \<or> hd ds \<noteq> 0)"

lemma numeral_of_digits_loop: "1 < base \<Longrightarrow> numeral_of base x (rev (digits_loop base x))"
  using digits_loop_less [of base _ x] digits_loop_last [of base x]
  by (cases "x = 0") (auto simp: numeral_of_def digits_loop_val hd_rev of_digits_def [of _ "[0]"])

lemma unat_uminus_neg:
  assumes "xx <s (0::u32)"
  shows "int (unat (- xx)) = - sint xx"
proof -
  have n: "sint xx < 0" using assms by (simp add: word_sless_alt)
  have r: "- (2 ^ 31) \<le> sint xx" using sint_ge [of xx] by simp
  have "int (unat (- xx)) = uint (word_of_int (- sint xx) :: u32)" by simp
  also have "\<dots> = (- sint xx) mod 2 ^ 32" by (simp only: uint_word_of_int) simp
  also have "\<dots> = - sint xx" using n r by simp
  finally show ?thesis .
qed

lemma unat_nonneg:
  assumes "\<not> xx <s (0::u32)"
  shows "int (unat xx) = sint xx"
proof -
  have n: "0 \<le> sint xx" using assms by (simp add: word_sless_alt)
  have r: "sint xx < 2 ^ 31" using sint_lt [of xx] by simp
  have "int (unat xx) = uint (word_of_int (sint xx) :: u32)" by simp
  also have "\<dots> = sint xx mod 2 ^ 32" by (simp only: uint_word_of_int) simp
  also have "\<dots> = sint xx" using n r by simp
  finally show ?thesis .
qed

section \<open>The screen\<close>

text \<open>What the console output relies on: nobody has panicked and the cursor is on the first 24 rows.\<close>

definition cons_ok :: "console \<Rightarrow> bool" where
  "cons_ok k \<longleftrightarrow> \<not> c_panicked k \<and> unat (c_pos k) < 24 * 80"

lemma unat_of_nat_u16: "n < 2 ^ 16 \<Longrightarrow> unat (of_nat n :: u16) = n"
  by (simp add: unat_of_nat take_bit_nat_eq_self)

lemma wp_cgaputc:
  assumes "unat (c_pos k) < 24 * 80"
    and Q: "\<And>p crt. unat p < 24 * 80 \<Longrightarrow> Q () (k\<lparr>c_pos := p, c_crt := crt\<rparr>)"
  shows "wp (cgaputc c k) Q"
proof -
  have Q': "Q () (k\<lparr>c_pos := of_nat n, c_crt := crt\<rparr>)" if "n < 1920" for n crt
    using that by (intro Q) (simp add: unat_of_nat_u16)
  have m: "unat (c_pos k) + (80 - unat (c_pos k) mod 80) \<le> 1920"
  proof -
    have "unat (c_pos k) div 80 < 24" using assms(1) by (simp add: less_mult_imp_div_less)
    moreover have "unat (c_pos k) + (80 - unat (c_pos k) mod 80) = 80 * (unat (c_pos k) div 80) + 80"
      using mult_div_mod_eq [of 80 "unat (c_pos k)"] mod_less_divisor [of 80 "unat (c_pos k)"] by linarith
    ultimately show ?thesis by linarith
  qed
  have fin: "wp (if pos > 25 * 80 then Panic ''pos under/overflow''
      else
        let (crt, pos) = (if pos div 80 \<ge> 24 then (scroll (pos - 80) crt, pos - 80) else (crt, pos))
        in Ret () (k\<lparr>c_pos := of_nat pos, c_crt := crt(pos := 0x0720)\<rparr>)) Q" if "pos \<le> 1920" for pos crt
  proof (cases "pos div 80 \<ge> 24")
    case True
    with that have "pos = 1920" using div_le_mono [of pos 1919 80] by linarith
    then show ?thesis using Q' [of 1840] by simp
  next
    case False
    then have "pos < 1920" using div_le_mono [of 1920 pos 80] by fastforce
    with False that show ?thesis by (simp add: Q')
  qed
  consider "c = 10" | "c \<noteq> 10" "c = BACKSPACE" | "c \<noteq> 10" "c \<noteq> BACKSPACE" by blast
  then show ?thesis
  proof cases
    case 1
    from fin [OF m] show ?thesis unfolding cgaputc_def Let_def if_P [OF 1] prod.case .
  next
    case 2
    have "(if unat (c_pos k) > 0 then unat (c_pos k) - 1 else unat (c_pos k)) \<le> 1920" using assms(1) by auto
    from fin [OF this] show ?thesis
      unfolding cgaputc_def Let_def if_not_P [OF 2(1)] if_P [OF 2(2)] prod.case .
  next
    case 3
    have "unat (c_pos k) + 1 \<le> 1920" using assms(1) by simp
    from fin [OF this] show ?thesis
      unfolding cgaputc_def Let_def if_not_P [OF 3(1)] if_not_P [OF 3(2)] prod.case .
  qed
qed


text \<open>A character that is not a backspace goes to the serial port as it is.\<close>

lemma wp_consputc [wp_rules]:
  assumes "cons_ok k" "c \<noteq> BACKSPACE"
    and Q: "\<And>k'. cons_ok k' \<Longrightarrow> c_uart k' = c_uart k \<Longrightarrow> c_locking k' = c_locking k \<Longrightarrow>
      c_serial k' = c_serial k @ (if c_uart k then [ucast c] else []) \<Longrightarrow> Q () k'"
  shows "wp (consputc c k) Q"
  using assms unfolding consputc_def
  by (auto simp: cons_ok_def uartputc_def intro!: wp_cgaputc)

lemma scast_char_neq: "scast (c :: u8) \<noteq> BACKSPACE" "ucast c \<noteq> BACKSPACE"
proof -
  have "\<not> bit (scast c :: u32) 8 \<or> bit (scast c :: u32) 9"
    by (simp add: bit_simps)
  moreover have "bit BACKSPACE 8" "\<not> bit BACKSPACE 9" by simp_all
  ultimately show "scast c \<noteq> BACKSPACE" by metis
  have "\<not> bit (ucast c :: u32) 8" by (auto simp: bit_simps dest: bit_imp_le_length)
  with \<open>bit BACKSPACE 8\<close> show "ucast c \<noteq> BACKSPACE" by metis
qed

lemma ucast_scast_char [simp]: "ucast (scast (c :: u8) :: u32) = c" "ucast (ucast (c :: u8) :: u32) = c"
  by (rule bit_word_eqI, simp add: bit_simps)+

definition printed :: "bytes \<Rightarrow> console \<Rightarrow> console \<Rightarrow> bool" where
  "printed cs k k' \<longleftrightarrow> cons_ok k' \<and> c_uart k' = c_uart k \<and> c_locking k' = c_locking k \<and>
     c_serial k' = c_serial k @ (if c_uart k then cs else [])"

lemma printed_trans: "printed cs k k' \<Longrightarrow> printed ds k' k'' \<Longrightarrow> printed (cs @ ds) k k''"
  by (simp add: printed_def)

lemma wp_consputc_char:
  assumes "cons_ok k" "\<And>k'. printed [c] k k' \<Longrightarrow> Q () k'"
  shows "wp (consputc (ucast c) k) Q" "wp (consputc (scast c) k) Q"
  using assms by (auto intro!: wp_consputc simp: scast_char_neq printed_def)

lemma wp_putchars:
  assumes "cons_ok k" "\<And>k'. printed cs k k' \<Longrightarrow> Q () k'"
  shows "wp (putchars cs k) Q"
  using assms
proof (induction cs arbitrary: k)
  case Nil
  then show ?case by (simp add: putchars_def printed_def)
next
  case (Cons c cs)
  have "wp (consputc (scast c) k) (\<lambda>_ k1. wp (putchars cs k1) Q)"
  proof (rule wp_consputc_char [OF Cons.prems(1)])
    fix k1 assume p: "printed [c] k k1"
    then have "cons_ok k1" by (simp add: printed_def)
    then show "wp (putchars cs k1) Q"
      using Cons.IH Cons.prems(2) printed_trans [OF p] by simp
  qed
  then show ?case by (simp add: putchars_def)
qed


text \<open>A number as the code prints it: a sign and the digits that \<open>numeral_of_digits_loop\<close> characterises.\<close>

definition show_num :: "nat \<Rightarrow> int \<Rightarrow> bytes" where
  "show_num base i = (if i < 0 then lit ''-'' else []) @ map digit (rev (digits_loop base (nat \<bar>i\<bar>)))"

lemma int_buf_text:
  assumes "10 \<le> base"
  shows "length (int_buf dig xx base sign) \<le> 11"
    and "rev (int_buf dig xx base sign) = (let i = if sign then sint xx else uint xx
      in (if i < 0 then lit ''-'' else []) @ map dig (rev (digits_loop base (nat \<bar>i\<bar>))))"
proof -
  define x where "x = (if sign \<and> xx <s 0 then - xx else xx)"
  have "\<bar>if sign then sint xx else uint xx\<bar> = int (unat x)"
    using unat_uminus_neg [of xx] unat_nonneg [of xx] by (auto simp: x_def word_sless_alt)
  then have x: "nat \<bar>if sign then sint xx else uint xx\<bar> = unat x" by (simp only: nat_int)
  have "unat x < 10 ^ 10" by (rule less_trans [OF unat_lt_2p32]) simp
  also have "\<dots> \<le> base ^ 10" using assms by (rule power_mono) simp
  finally have "length (digits_loop base (unat x)) \<le> 10"
    using assms by (intro digits_loop_length) simp_all
  then show "length (int_buf dig xx base sign) \<le> 11"
    by (simp add: int_buf_def Let_def flip: x_def)
  show "rev (int_buf dig xx base sign) = (let i = if sign then sint xx else uint xx
      in (if i < 0 then lit ''-'' else []) @ map dig (rev (digits_loop base (nat \<bar>i\<bar>))))"
    unfolding Let_def x by (simp add: int_buf_def Let_def word_sless_alt rev_map) (simp add: x_def word_sless_alt)
qed

lemma wp_printint:
  assumes k: "cons_ok k" and base: "10 \<le> base"
    and Q: "\<And>k'. printed (show_num base (if sign then sint xx else uint xx)) k k' \<Longrightarrow> Q () k'"
  shows "wp (printint xx base sign k) Q"
proof -
  have len: "\<not> length (int_buf digit xx base sign) > 16" using int_buf_text(1) [OF base, of digit xx sign] by simp
  have buf: "rev (int_buf digit xx base sign) = show_num base (if sign then sint xx else uint xx)"
    by (simp add: int_buf_text(2) [OF base] show_num_def Let_def)
  show ?thesis
    unfolding printint_def Let_def if_not_P [OF len] buf using Q by (intro wp_putchars [OF k])
qed

section \<open>Formatted output prints the text it stands for\<close>

text \<open>
  The reference: the text a format stands for with its arguments, \<^const>\<open>None\<close> when an argument is missing or of
  the wrong kind.
\<close>

fun rendered :: "bytes \<Rightarrow> arg list \<Rightarrow> bytes option" where
  "rendered [] args = Some []"
| "rendered [c] args = Some (if c = 37 then [] else [c])"
| "rendered (c # d # fmt) args =
     (if c \<noteq> 37 then map_option ((#) c) (rendered (d # fmt) args)
      else if d = 100 then
        (case args of ANum v # as \<Rightarrow> map_option ((@) (show_num 10 (sint v))) (rendered fmt as) | _ \<Rightarrow> None)
      else if d = 120 \<or> d = 112 then
        (case args of ANum v # as \<Rightarrow> map_option ((@) (show_num 16 (uint v))) (rendered fmt as) | _ \<Rightarrow> None)
      else if d = 115 then
        (case args of AStr so # as \<Rightarrow>
           map_option ((@) (case so of None \<Rightarrow> lit ''(null)'' | Some t \<Rightarrow> t)) (rendered fmt as) | _ \<Rightarrow> None)
      else if d = 37 then map_option ((#) 37) (rendered fmt args)
      else map_option (\<lambda>r. 37 # d # r) (rendered fmt args))"


lemma wp_cprintf_loop:
  assumes "cons_ok k" "rendered fmt args = Some out" "\<And>k'. printed out k k' \<Longrightarrow> Q () k'"
  shows "wp (cprintf_loop fmt args k) Q"
  using assms
proof (induction fmt args arbitrary: k out rule: rendered.induct)
  case (1 args)
  then show ?case by (simp add: printed_def)
next
  case (2 c args)
  then show ?case by (auto simp: printed_def intro!: wp_consputc_char)
next
  case (3 c d fmt args)
  note k = \<open>cons_ok k\<close> and Q = "3.prems"(3)
  have rest: "wp (cprintf_loop f as k') Q"
    if "\<And>k out. cons_ok k \<Longrightarrow> rendered f as = Some out \<Longrightarrow> (\<And>k'. printed out k k' \<Longrightarrow> Q () k') \<Longrightarrow>
          wp (cprintf_loop f as k) Q"
      and "rendered f as = Some r" "out = a @ r" "printed a k k'" for f as k' r a
    using that Q printed_trans [OF that(4)] by (simp add: printed_def)
  consider "c \<noteq> 37" | "c = 37" "d = 100" | "c = 37" "d \<noteq> 100" "d = 120 \<or> d = 112" | "c = 37" "d = 115"
    | "c = 37" "d = 37" | "c = 37" "d \<noteq> 100" "d \<noteq> 120" "d \<noteq> 112" "d \<noteq> 115" "d \<noteq> 37" by blast
  then show ?case
  proof cases
    case 1
    with "3.prems" obtain r where r: "rendered (d # fmt) args = Some r" "out = [c] @ r" by auto
    have "wp (consputc (ucast c) k) (\<lambda>_ k. wp (cprintf_loop (d # fmt) args k) Q)"
      by (rule wp_consputc_char [OF k]) (rule rest [OF "3.IH"(1) [OF 1] r])
    with 1 show ?thesis by (simp del: rendered.simps)
  next
    case 2
    with "3.prems" obtain v as r where r: "args = ANum v # as" "rendered fmt as = Some r"
        "out = show_num 10 (sint v) @ r" by (auto split: list.splits arg.splits)
    have "wp (printint v 10 True k) (\<lambda>_ k. wp (cprintf_loop fmt as k) Q)"
    proof (rule wp_printint [OF k], simp)
      fix k' assume "printed (show_num 10 (if True then sint v else uint v)) k k'"
      then show "wp (cprintf_loop fmt as k') Q"
        using 2 r by (intro rest [OF "3.IH"(2)]) simp_all
    qed
    with 2 r(1) show ?thesis by simp
  next
    case 3
    with "3.prems" obtain v as r where r: "args = ANum v # as" "rendered fmt as = Some r"
        "out = show_num 16 (uint v) @ r" by (auto split: list.splits arg.splits)
    have "wp (printint v 16 False k) (\<lambda>_ k. wp (cprintf_loop fmt as k) Q)"
    proof (rule wp_printint [OF k], simp)
      fix k' assume "printed (show_num 16 (if False then sint v else uint v)) k k'"
      then show "wp (cprintf_loop fmt as k') Q"
        using 3 r by (intro rest [OF "3.IH"(3)]) simp_all
    qed
    with 3 r(1) show ?thesis by simp
  next
    case 4
    with "3.prems" obtain so as r where r: "args = AStr so # as" "rendered fmt as = Some r"
        "out = (case so of None \<Rightarrow> lit ''(null)'' | Some t \<Rightarrow> t) @ r"
      by (auto split: list.splits arg.splits)
    have "wp (putchars (case so of None \<Rightarrow> lit ''(null)'' | Some t \<Rightarrow> t) k) (\<lambda>_ k. wp (cprintf_loop fmt as k) Q)"
      by (rule wp_putchars [OF k], rule rest [OF "3.IH"(4)]) (use 4 r in simp_all)
    with 4 r(1) show ?thesis by simp
  next
    case 5
    with "3.prems" obtain r where r: "rendered fmt args = Some r" "out = [37] @ r" by auto
    have "wp (consputc (ucast (37::u8)) k) (\<lambda>_ k. wp (cprintf_loop fmt args k) Q)"
      by (rule wp_consputc_char [OF k], rule rest [OF "3.IH"(5)]) (use 5 r in simp_all)
    with 5 show ?thesis by simp
  next
    case 6
    with "3.prems" obtain r where r: "rendered fmt args = Some r" "out = [37, d] @ r" by auto
    have "wp (consputc (ucast (37::u8)) k) (\<lambda>_ k. wp (consputc (ucast d) k) (\<lambda>_ k. wp (cprintf_loop fmt args k) Q))"
    proof (rule wp_consputc_char [OF k])
      fix k1 assume p: "printed [37] k k1"
      then have "cons_ok k1" by (simp add: printed_def)
      then show "wp (consputc (ucast d) k1) (\<lambda>_ k. wp (cprintf_loop fmt args k) Q)"
      proof (rule wp_consputc_char)
        fix k2 assume "printed [d] k1 k2"
        with p have "printed [37, d] k k2" using printed_trans [of "[37]" k k1 "[d]" k2] by simp
        then show "wp (cprintf_loop fmt args k2) Q"
          by (rule rest [OF "3.IH"(6), rotated -1]) (use 6 r in simp_all)
      qed
    qed
    with 6 show ?thesis by simp
  qed
qed

lemma wp_cprintf:
  assumes "cons_ok (cons s)" "LCons \<notin> set (held s)" "rendered fmt args = Some out"
    and Q: "\<And>k. printed out (cons s) k \<Longrightarrow> Q () (s\<lparr>cons := k\<rparr>)"
  shows "wp (cprintf fmt args s) Q"
proof -
  have "wp (cprintf_loop fmt args (cons s)) (\<lambda>_ k. printed out (cons s) k)"
    by (rule wp_cprintf_loop [OF assms(1,3)])
  then obtain k where k: "cprintf_loop fmt args (cons s) = Ret () k" "printed out (cons s) k"
    by (auto simp: wp_iff)
  then show ?thesis using assms(2) Q [OF k(2)] by (cases "c_locking (cons s)") (auto simp: cprintf_def on_cons_def)
qed



end
