(* ===== verification/Fs.thy ===== *)
theory Fs
  imports Log CString Cprintf
begin

text \<open>
  The file system, \<^verbatim>\<open>fs.c\<close>: the block allocator, the inode cache, file contents, directories and path
  names. An inode pointer is an index into \<^verbatim>\<open>icache.inode\<close>.
\<close>

section \<open>State\<close>

abbreviation (input) NDIRECT :: nat where "NDIRECT \<equiv> 12"
abbreviation (input) NINDIRECT :: nat where "NINDIRECT \<equiv> 128"
abbreviation (input) MAXFILE :: nat where "MAXFILE \<equiv> 140"
abbreviation (input) IPB :: nat where "IPB \<equiv> 8"
abbreviation (input) BPB :: nat where "BPB \<equiv> 4096"
abbreviation (input) DIRSIZ :: nat where "DIRSIZ \<equiv> 14"
abbreviation (input) ROOTINO :: u32 where "ROOTINO \<equiv> 1"
abbreviation (input) T_DIR :: u16 where "T_DIR \<equiv> 1"
abbreviation (input) T_FILE :: u16 where "T_FILE \<equiv> 2"
abbreviation (input) T_DEV :: u16 where "T_DEV \<equiv> 3"

text \<open>\<^verbatim>\<open>struct inode\<close>; the fields of type \<^verbatim>\<open>short\<close> are 16-bit words.\<close>

record inode =
  i_dev :: u32
  i_inum :: u32
  i_ref :: int
  i_lock :: sleeplock
  i_valid :: bool
  i_type :: u16
  i_major :: u16
  i_minor :: u16
  i_nlink :: u16
  i_size :: u32
  i_addrs :: "u32 list"

record fs = log +
  sb :: superblock
  inodes :: "inode list"

abbreviation upd_inode :: "nat \<Rightarrow> (inode \<Rightarrow> inode) \<Rightarrow> 'x fs_scheme \<Rightarrow> 'x fs_scheme" where
  "upd_inode ip f s \<equiv> s\<lparr>inodes := (inodes s)[ip := f (inodes s ! ip)]\<rparr>"

abbreviation acquiresleep_ino :: "nat \<Rightarrow> 'x fs_scheme \<Rightarrow> (unit, 'x fs_scheme) outcome" where
  "acquiresleep_ino ip \<equiv> acquiresleep (ChInodeLock ip) (\<lambda>s. i_lock (inodes s ! ip))
     (\<lambda>f. upd_inode ip (\<lambda>x. x\<lparr>i_lock := f (i_lock x)\<rparr>))"

abbreviation releasesleep_ino :: "nat \<Rightarrow> 'x fs_scheme \<Rightarrow> (unit, 'x fs_scheme) outcome" where
  "releasesleep_ino ip \<equiv>
     releasesleep (ChInodeLock ip) (\<lambda>f. upd_inode ip (\<lambda>x. x\<lparr>i_lock := f (i_lock x)\<rparr>))"

abbreviation holdingsleep_ino :: "nat \<Rightarrow> 'x fs_scheme \<Rightarrow> (bool, 'x fs_scheme) outcome" where
  "holdingsleep_ino ip \<equiv> holdingsleep (ChInodeLock ip) (\<lambda>s. i_lock (inodes s ! ip))"

text \<open>\<^verbatim>\<open>iinit\<close>: the locks of the cache, the super block and the line that reports it.\<close>

definition iinit :: "u32 \<Rightarrow> 'x fs_scheme \<Rightarrow> (unit, 'x fs_scheme) outcome" where
  "iinit dev s =
     kbind (readsb dev (s\<lparr>inodes := map (\<lambda>ip. ip\<lparr>i_lock := sl_free\<rparr>) (inodes s)\<rparr>)) (\<lambda>sp s.
     cprintf (lit ''sb: size %d nblocks %d ninodes %d nlog %d logstart %d inodestart %d bmap start %d'' @ [NEWLINE])
       [ANum (sb_size sp), ANum (sb_nblocks sp), ANum (sb_ninodes sp), ANum (sb_nlog sp),
        ANum (sb_logstart sp), ANum (sb_inodestart sp), ANum (sb_bmapstart sp)] (s\<lparr>sb := sp\<rparr>))"

section \<open>Blocks\<close>

definition bzero :: "u32 \<Rightarrow> u32 \<Rightarrow> 'x fs_scheme \<Rightarrow> (unit, 'x fs_scheme) outcome" where
  "bzero dev bno s =
     kbind (bread dev bno s) (\<lambda>bp s.
     kbind (log_write bp (upd_buf bp (\<lambda>x. x\<lparr>b_data := replicate BSIZE 0\<rparr>) s)) (\<lambda>_ s.
     brelse bp s))"

definition BBLOCK :: "u32 \<Rightarrow> superblock \<Rightarrow> u32" where
  "BBLOCK b sp = b div 4096 + sb_bmapstart sp"

text \<open>The bit of block \<open>bi\<close> in a block of the bitmap.\<close>

definition bitmask :: "nat \<Rightarrow> u8" where
  "bitmask bi = push_bit (bi mod 8) 1"

definition bit_free :: "bytes \<Rightarrow> nat \<Rightarrow> bool" where
  "bit_free d bi \<longleftrightarrow> d ! (bi div 8) AND bitmask bi = 0"

definition bit_set :: "nat \<Rightarrow> bytes \<Rightarrow> bytes" where
  "bit_set bi d = d[bi div 8 := d ! (bi div 8) OR bitmask bi]"

definition bit_clear :: "nat \<Rightarrow> bytes \<Rightarrow> bytes" where
  "bit_clear bi d = d[bi div 8 := d ! (bi div 8) AND NOT (bitmask bi)]"

text \<open>
  \<^verbatim>\<open>balloc\<close>: the outer loop goes over the blocks of the bitmap, the inner one over the bits of one of
  them. An \<^verbatim>\<open>int\<close> counts the blocks, so beyond \<open>2 ^ 31\<close> of them it would overflow.
\<close>

function balloc_loop :: "u32 \<Rightarrow> nat \<Rightarrow> 'x fs_scheme \<Rightarrow> (u32, 'x fs_scheme) outcome" where
  "balloc_loop dev b s =
     (if b < unat (sb_size (sb s)) then
        kbind (bread dev (BBLOCK (of_nat b) (sb s)) s) (\<lambda>bp s.
        case find (bit_free (b_data (bufs s ! bp))) [0..<min BPB (unat (sb_size (sb s)) - b)] of
          Some bi \<Rightarrow>
            kbind (log_write bp (upd_buf bp (\<lambda>x. x\<lparr>b_data := bit_set bi (b_data x)\<rparr>) s)) (\<lambda>_ s.
            kbind (brelse bp s) (\<lambda>_ s.
            kbind (bzero dev (of_nat (b + bi)) s) (\<lambda>_ s.
            Ret (of_nat (b + bi)) s)))
        | None \<Rightarrow>
            kbind (brelse bp s) (\<lambda>_ s'.
            if b + BPB < 2 ^ 31 then balloc_loop dev (b + BPB) s' else undef))
      else Panic ''balloc: out of blocks'')"
  by pat_completeness auto
termination
  by (relation "measure (\<lambda>(_, b, _). 2 ^ 31 - b)") auto

declare balloc_loop.simps [simp del]

definition balloc :: "u32 \<Rightarrow> 'x fs_scheme \<Rightarrow> (u32, 'x fs_scheme) outcome" where
  "balloc dev s = balloc_loop dev 0 s"

definition bfree :: "u32 \<Rightarrow> u32 \<Rightarrow> 'x fs_scheme \<Rightarrow> (unit, 'x fs_scheme) outcome" where
  "bfree dev b s =
     kbind (bread dev (BBLOCK b (sb s)) s) (\<lambda>bp s.
     let bi = unat b mod BPB in
     if bit_free (b_data (bufs s ! bp)) bi then Panic ''freeing free block''
     else
       kbind (log_write bp (upd_buf bp (\<lambda>x. x\<lparr>b_data := bit_clear bi (b_data x)\<rparr>) s)) (\<lambda>_ s.
       brelse bp s))"

section \<open>Inodes\<close>

definition IBLOCK :: "u32 \<Rightarrow> superblock \<Rightarrow> u32" where
  "IBLOCK i sp = i div 8 + sb_inodestart sp"

text \<open>The offset of an inode in its block; \<^verbatim>\<open>sizeof(struct dinode)\<close> is 64.\<close>

definition dinode_off :: "u32 \<Rightarrow> nat" where
  "dinode_off inum = 64 * (unat inum mod IPB)"

fun put_addrs :: "nat \<Rightarrow> u32 list \<Rightarrow> bytes \<Rightarrow> bytes" where
  "put_addrs off [] d = d"
| "put_addrs off (a # as) d = put_addrs (off + 4) as (set_le32 off a d)"

definition get_addrs :: "nat \<Rightarrow> bytes \<Rightarrow> u32 list" where
  "get_addrs off d = map (\<lambda>i. le32 (off + 4 * i) d) [0..<NDIRECT + 1]"

text \<open>\<^verbatim>\<open>struct dinode\<close> at an offset: \<^verbatim>\<open>type\<close>, \<^verbatim>\<open>major\<close>, \<^verbatim>\<open>minor\<close>, \<^verbatim>\<open>nlink\<close>, \<^verbatim>\<open>size\<close> and \<^verbatim>\<open>addrs\<close>.\<close>

definition dinode_put :: "nat \<Rightarrow> inode \<Rightarrow> bytes \<Rightarrow> bytes" where
  "dinode_put off ip d =
     put_addrs (off + 12) (i_addrs ip) (set_le32 (off + 8) (i_size ip) (set_le16 (off + 6) (i_nlink ip)
       (set_le16 (off + 4) (i_minor ip) (set_le16 (off + 2) (i_major ip) (set_le16 off (i_type ip) d)))))"

definition dinode_get :: "nat \<Rightarrow> bytes \<Rightarrow> inode \<Rightarrow> inode" where
  "dinode_get off d ip =
     ip\<lparr>i_type := le16 off d, i_major := le16 (off + 2) d, i_minor := le16 (off + 4) d,
        i_nlink := le16 (off + 6) d, i_size := le32 (off + 8) d, i_addrs := get_addrs (off + 12) d\<rparr>"

definition iget :: "u32 \<Rightarrow> u32 \<Rightarrow> 'x fs_scheme \<Rightarrow> (nat, 'x fs_scheme) outcome" where
  "iget dev inum s =
     kbind (acquire LIcache s) (\<lambda>_ s.
     case find_idx (\<lambda>ip. i_ref ip > 0 \<and> i_dev ip = dev \<and> i_inum ip = inum) (inodes s) of
       Some ip \<Rightarrow>
         kbind (release LIcache (upd_inode ip (\<lambda>x. x\<lparr>i_ref := i_ref x + 1\<rparr>) s)) (\<lambda>_ s. Ret ip s)
     | None \<Rightarrow>
         (case find_idx (\<lambda>ip. i_ref ip = 0) (inodes s) of
            None \<Rightarrow> Panic ''iget: no inodes''
          | Some ip \<Rightarrow>
              kbind (release LIcache (upd_inode ip (\<lambda>x. x\<lparr>i_dev := dev, i_inum := inum, i_ref := 1,
                                                           i_valid := False\<rparr>) s)) (\<lambda>_ s. Ret ip s)))"

text \<open>\<^verbatim>\<open>ialloc\<close>: the loop over the inode numbers ends with the first free one, marked.\<close>

definition ialloc_try :: "u32 \<Rightarrow> u16 \<Rightarrow> nat \<Rightarrow> 'x fs_scheme \<Rightarrow> (nat option, 'x fs_scheme) outcome" where
  "ialloc_try dev type inum s =
     kbind (bread dev (IBLOCK (of_nat inum) (sb s)) s) (\<lambda>bp s.
     let off = dinode_off (of_nat inum) in
     if le16 off (b_data (bufs s ! bp)) = 0 then
       kbind (log_write bp (upd_buf bp (\<lambda>x. x\<lparr>b_data :=
                set_le16 off type (blit off (replicate 64 0) (b_data x))\<rparr>) s)) (\<lambda>_ s.
       kbind (brelse bp s) (\<lambda>_ s. Ret (Some inum) s))
     else kbind (brelse bp s) (\<lambda>_ s. Ret None s))"

definition ialloc :: "u32 \<Rightarrow> u16 \<Rightarrow> 'x fs_scheme \<Rightarrow> (nat, 'x fs_scheme) outcome" where
  "ialloc dev type s =
     kbind (kfind [1..<unat (sb_ninodes (sb s))] (ialloc_try dev type) s) (\<lambda>r s.
     case r of Some inum \<Rightarrow> iget dev (of_nat inum) s | None \<Rightarrow> Panic ''ialloc: no inodes'')"

definition iupdate :: "nat \<Rightarrow> 'x fs_scheme \<Rightarrow> (unit, 'x fs_scheme) outcome" where
  "iupdate ip s =
     kbind (bread (i_dev (inodes s ! ip)) (IBLOCK (i_inum (inodes s ! ip)) (sb s)) s) (\<lambda>bp s.
     let i = inodes s ! ip;
         s = upd_buf bp (\<lambda>x. x\<lparr>b_data := dinode_put (dinode_off (i_inum i)) i (b_data x)\<rparr>) s
     in kbind (log_write bp s) (\<lambda>_ s. brelse bp s))"

definition idup :: "nat \<Rightarrow> 'x fs_scheme \<Rightarrow> (nat, 'x fs_scheme) outcome" where
  "idup ip s =
     kbind (acquire LIcache s) (\<lambda>_ s.
     kbind (release LIcache (upd_inode ip (\<lambda>x. x\<lparr>i_ref := i_ref x + 1\<rparr>) s)) (\<lambda>_ s. Ret ip s))"

definition ilock :: "nat option \<Rightarrow> 'x fs_scheme \<Rightarrow> (unit, 'x fs_scheme) outcome" where
  "ilock po s = (case po of None \<Rightarrow> Panic ''ilock'' | Some ip \<Rightarrow>
     if i_ref (inodes s ! ip) < 1 then Panic ''ilock''
     else
       kbind (acquiresleep_ino ip s) (\<lambda>_ s.
       if \<not> i_valid (inodes s ! ip) then
         kbind (bread (i_dev (inodes s ! ip)) (IBLOCK (i_inum (inodes s ! ip)) (sb s)) s) (\<lambda>bp s.
         let s = upd_inode ip (\<lambda>x. dinode_get (dinode_off (i_inum x)) (b_data (bufs s ! bp)) x) s
         in kbind (brelse bp s) (\<lambda>_ s.
            let s = upd_inode ip (\<lambda>x. x\<lparr>i_valid := True\<rparr>) s
            in if i_type (inodes s ! ip) = 0 then Panic ''ilock: no type'' else Ret () s))
       else Ret () s))"

definition iunlock :: "nat option \<Rightarrow> 'x fs_scheme \<Rightarrow> (unit, 'x fs_scheme) outcome" where
  "iunlock po s = (case po of None \<Rightarrow> Panic ''iunlock'' | Some ip \<Rightarrow>
     kbind (holdingsleep_ino ip s) (\<lambda>h s.
     if \<not> h \<or> i_ref (inodes s ! ip) < 1 then Panic ''iunlock''
     else releasesleep_ino ip s))"

section \<open>File contents\<close>

text \<open>
  \<^verbatim>\<open>bmap\<close>. The indirect block stays locked while \<^verbatim>\<open>balloc\<close> looks for a block.
\<close>

definition bmap :: "nat \<Rightarrow> u32 \<Rightarrow> 'x fs_scheme \<Rightarrow> (u32, 'x fs_scheme) outcome" where
  "bmap ip bn s =
     (if unat bn < NDIRECT then
        (if i_addrs (inodes s ! ip) ! unat bn = 0 then
           kbind (balloc (i_dev (inodes s ! ip)) s) (\<lambda>addr s.
           Ret addr (upd_inode ip (\<lambda>x. x\<lparr>i_addrs := (i_addrs x)[unat bn := addr]\<rparr>) s))
         else Ret (i_addrs (inodes s ! ip) ! unat bn) s)
      else let bn = unat bn - NDIRECT in
      if bn < NINDIRECT then
        kbind (if i_addrs (inodes s ! ip) ! NDIRECT = 0 then
                 kbind (balloc (i_dev (inodes s ! ip)) s) (\<lambda>addr s.
                 Ret addr (upd_inode ip (\<lambda>x. x\<lparr>i_addrs := (i_addrs x)[NDIRECT := addr]\<rparr>) s))
               else Ret (i_addrs (inodes s ! ip) ! NDIRECT) s) (\<lambda>addr s.
        kbind (bread (i_dev (inodes s ! ip)) addr s) (\<lambda>bp s.
        let a = le32 (4 * bn) (b_data (bufs s ! bp)) in
        if a = 0 then
          kbind (balloc (i_dev (inodes s ! ip)) s) (\<lambda>a s.
          kbind (log_write bp (upd_buf bp (\<lambda>x. x\<lparr>b_data := set_le32 (4 * bn) a (b_data x)\<rparr>) s)) (\<lambda>_ s.
          kbind (brelse bp s) (\<lambda>_ s. Ret a s)))
        else kbind (brelse bp s) (\<lambda>_ s. Ret a s)))
      else Panic ''bmap: out of range'')"

definition itrunc_direct :: "nat \<Rightarrow> nat \<Rightarrow> 'x fs_scheme \<Rightarrow> (unit, 'x fs_scheme) outcome" where
  "itrunc_direct ip i s =
     (if i_addrs (inodes s ! ip) ! i \<noteq> 0 then
        kbind (bfree (i_dev (inodes s ! ip)) (i_addrs (inodes s ! ip) ! i) s) (\<lambda>_ s.
        Ret () (upd_inode ip (\<lambda>x. x\<lparr>i_addrs := (i_addrs x)[i := 0]\<rparr>) s))
      else Ret () s)"

definition itrunc_indirect :: "nat \<Rightarrow> nat \<Rightarrow> nat \<Rightarrow> 'x fs_scheme \<Rightarrow> (unit, 'x fs_scheme) outcome" where
  "itrunc_indirect ip bp j s =
     (let a = le32 (4 * j) (b_data (bufs s ! bp)) in
      if a \<noteq> 0 then bfree (i_dev (inodes s ! ip)) a s else Ret () s)"

definition itrunc :: "nat \<Rightarrow> 'x fs_scheme \<Rightarrow> (unit, 'x fs_scheme) outcome" where
  "itrunc ip s =
     kbind (kfor [0..<NDIRECT] (itrunc_direct ip) s) (\<lambda>_ s.
     kbind (if i_addrs (inodes s ! ip) ! NDIRECT \<noteq> 0 then
              kbind (bread (i_dev (inodes s ! ip)) (i_addrs (inodes s ! ip) ! NDIRECT) s) (\<lambda>bp s.
              kbind (kfor [0..<NINDIRECT] (itrunc_indirect ip bp) s) (\<lambda>_ s.
              kbind (brelse bp s) (\<lambda>_ s.
              kbind (bfree (i_dev (inodes s ! ip)) (i_addrs (inodes s ! ip) ! NDIRECT) s) (\<lambda>_ s.
              Ret () (upd_inode ip (\<lambda>x. x\<lparr>i_addrs := (i_addrs x)[NDIRECT := 0]\<rparr>) s)))))
            else Ret () s) (\<lambda>_ s.
     iupdate ip (upd_inode ip (\<lambda>x. x\<lparr>i_size := 0\<rparr>) s)))"

definition iput :: "nat \<Rightarrow> 'x fs_scheme \<Rightarrow> (unit, 'x fs_scheme) outcome" where
  "iput ip s =
     kbind (acquiresleep_ino ip s) (\<lambda>_ s.
     kbind (if i_valid (inodes s ! ip) \<and> i_nlink (inodes s ! ip) = 0 then
              kbind (acquire LIcache s) (\<lambda>_ s.
              let r = i_ref (inodes s ! ip)
              in kbind (release LIcache s) (\<lambda>_ s.
                 if r = 1 then
                   kbind (itrunc ip s) (\<lambda>_ s.
                   kbind (iupdate ip (upd_inode ip (\<lambda>x. x\<lparr>i_type := 0\<rparr>) s)) (\<lambda>_ s.
                   Ret () (upd_inode ip (\<lambda>x. x\<lparr>i_valid := False\<rparr>) s)))
                 else Ret () s))
            else Ret () s) (\<lambda>_ s.
     kbind (releasesleep_ino ip s) (\<lambda>_ s.
     kbind (acquire LIcache s) (\<lambda>_ s.
     release LIcache (upd_inode ip (\<lambda>x. x\<lparr>i_ref := i_ref x - 1\<rparr>) s)))))"

definition iunlockput :: "nat \<Rightarrow> 'x fs_scheme \<Rightarrow> (unit, 'x fs_scheme) outcome" where
  "iunlockput ip s = kbind (iunlock (Some ip) s) (\<lambda>_ s. iput ip s)"

record stat =
  st_type :: u16
  st_dev :: u32
  st_ino :: u32
  st_nlink :: u16
  st_size :: u32

definition stati :: "nat \<Rightarrow> 'x fs_scheme \<Rightarrow> stat" where
  "stati ip s = (let i = inodes s ! ip in
     \<lparr>st_type = i_type i, st_dev = i_dev i, st_ino = i_inum i, st_nlink = i_nlink i, st_size = i_size i\<rparr>)"

text \<open>
  \<^verbatim>\<open>readi\<close> and \<^verbatim>\<open>writei\<close> on a file or directory; a device is handled where the device table is known.
  The bytes read are returned with the count. The recursions are the loops, with \<open>n\<close> bytes to go.
\<close>

function readi_loop :: "nat \<Rightarrow> u32 \<Rightarrow> nat \<Rightarrow> 'x fs_scheme \<Rightarrow> (bytes, 'x fs_scheme) outcome" where
  "readi_loop ip off n s =
     (if n = 0 then Ret [] s
      else
        kbind (bmap ip (off div 512) s) (\<lambda>addr s.
        kbind (bread (i_dev (inodes s ! ip)) addr s) (\<lambda>bp s.
        let m = min n (BSIZE - unat off mod BSIZE);
            d = slice (unat off mod BSIZE) m (b_data (bufs s ! bp))
        in kbind (brelse bp s) (\<lambda>_ s.
           kbind (readi_loop ip (off + of_nat m) (n - m) s) (\<lambda>r s. Ret (d @ r) s)))))"
  by pat_completeness auto
termination
  by (relation "measure (\<lambda>(_, _, n, _). n)") auto

declare readi_loop.simps [simp del]

definition readi_ino :: "nat \<Rightarrow> u32 \<Rightarrow> u32 \<Rightarrow> 'x fs_scheme \<Rightarrow> (int \<times> bytes, 'x fs_scheme) outcome" where
  "readi_ino ip off n s =
     (let size = i_size (inodes s ! ip) in
      if off > size \<or> off + n < off then Ret (-1, []) s
      else let n = (if off + n > size then size - off else n)
           in kbind (readi_loop ip off (unat n) s) (\<lambda>d s. Ret (sint n, d) s))"

function writei_loop :: "nat \<Rightarrow> bytes \<Rightarrow> u32 \<Rightarrow> 'x fs_scheme \<Rightarrow> (u32, 'x fs_scheme) outcome" where
  "writei_loop ip src off s =
     (if src = [] then Ret off s
      else
        kbind (bmap ip (off div 512) s) (\<lambda>addr s.
        kbind (bread (i_dev (inodes s ! ip)) addr s) (\<lambda>bp s.
        let m = min (length src) (BSIZE - unat off mod BSIZE)
        in kbind (log_write bp (upd_buf bp (\<lambda>x. x\<lparr>b_data :=
                    blit (unat off mod BSIZE) (take m src) (b_data x)\<rparr>) s)) (\<lambda>_ s.
           kbind (brelse bp s) (\<lambda>_ s.
           writei_loop ip (drop m src) (off + of_nat m) s)))))"
  by pat_completeness auto
termination
  by (relation "measure (\<lambda>(_, src, _, _). length src)") auto

declare writei_loop.simps [simp del]

text \<open>\<open>src\<close> is the \<^verbatim>\<open>n\<close> bytes at the source pointer.\<close>

definition writei_ino :: "nat \<Rightarrow> bytes \<Rightarrow> u32 \<Rightarrow> 'x fs_scheme \<Rightarrow> (int, 'x fs_scheme) outcome" where
  "writei_ino ip src off s =
     (let n = of_nat (length src) :: u32 in
      if off > i_size (inodes s ! ip) \<or> off + n < off then Ret (-1) s
      else if off + n > of_nat (MAXFILE * BSIZE) then Ret (-1) s
      else
        kbind (writei_loop ip src off s) (\<lambda>off s.
        kbind (if n > 0 \<and> off > i_size (inodes s ! ip)
               then iupdate ip (upd_inode ip (\<lambda>x. x\<lparr>i_size := off\<rparr>) s) else Ret () s) (\<lambda>_ s.
        Ret (sint n) s)))"

section \<open>Directories\<close>

definition namecmp :: "bytes \<Rightarrow> bytes \<Rightarrow> int option" where
  "namecmp s t = strncmp s t DIRSIZ"

text \<open>\<^verbatim>\<open>struct dirent\<close>: the number and the name; 16 bytes.\<close>

definition de_inum :: "bytes \<Rightarrow> u16" where
  "de_inum de = le16 0 de"

definition de_name :: "bytes \<Rightarrow> bytes" where
  "de_name de = slice 2 DIRSIZ de"

definition dirents :: "u32 \<Rightarrow> nat list" where
  "dirents sz = map (\<lambda>i. 16 * i) [0..<(unat sz + 15) div 16]"

text \<open>
  \<^verbatim>\<open>dirlookup\<close> returns the inode, referenced, and the offset of the entry. The inode is locked and
  reading does not change its size, so the offsets are known when the loop starts.
\<close>

definition dirlookup_try :: "nat \<Rightarrow> bytes \<Rightarrow> nat \<Rightarrow> 'x fs_scheme \<Rightarrow> ((nat \<times> u32) option, 'x fs_scheme) outcome"
where
  "dirlookup_try dp name off s =
     kbind (readi_ino dp (of_nat off) 16 s) (\<lambda>(r, de) s.
     if r \<noteq> 16 then Panic ''dirlookup read''
     else if de_inum de = 0 then Ret None s
     else case namecmp name (de_name de) of None \<Rightarrow> undef
     | Some c \<Rightarrow>
         if c = 0 then
           kbind (iget (i_dev (inodes s ! dp)) (ucast (de_inum de)) s) (\<lambda>ip s. Ret (Some (ip, of_nat off)) s)
         else Ret None s)"

definition dirlookup :: "nat \<Rightarrow> bytes \<Rightarrow> 'x fs_scheme \<Rightarrow> ((nat \<times> u32) option, 'x fs_scheme) outcome" where
  "dirlookup dp name s =
     (if i_type (inodes s ! dp) \<noteq> T_DIR then Panic ''dirlookup not DIR''
      else kfind (dirents (i_size (inodes s ! dp))) (dirlookup_try dp name) s)"

definition dirlink_try :: "nat \<Rightarrow> nat \<Rightarrow> 'x fs_scheme \<Rightarrow> (nat option, 'x fs_scheme) outcome" where
  "dirlink_try dp off s =
     kbind (readi_ino dp (of_nat off) 16 s) (\<lambda>(r, de) s.
     if r \<noteq> 16 then Panic ''dirlink read''
     else if de_inum de = 0 then Ret (Some off) s else Ret None s)"

text \<open>When no entry is free the loop of \<^verbatim>\<open>dirlink\<close> ends at the first offset that is not below the size.\<close>

definition dirlink :: "nat \<Rightarrow> bytes \<Rightarrow> u32 \<Rightarrow> 'x fs_scheme \<Rightarrow> (int, 'x fs_scheme) outcome" where
  "dirlink dp name inum s =
     kbind (dirlookup dp name s) (\<lambda>r s.
     case r of Some (ip, _) \<Rightarrow> kbind (iput ip s) (\<lambda>_ s. Ret (-1) s)
     | None \<Rightarrow>
         let offs = dirents (i_size (inodes s ! dp)) in
         kbind (kfind offs (dirlink_try dp) s) (\<lambda>o' s.
         let off = (case o' of Some off \<Rightarrow> off | None \<Rightarrow> 16 * length offs)
         in case strncpy name DIRSIZ of None \<Rightarrow> undef
            | Some nm \<Rightarrow>
                kbind (writei_ino dp ([ucast inum, ucast (drop_bit 8 inum)] @ nm) (of_nat off) s) (\<lambda>w s.
                if w \<noteq> 16 then Panic ''dirlink'' else Ret 0 s)))"

section \<open>Paths\<close>

abbreviation (input) SLASH :: u8 where "SLASH \<equiv> 47"

text \<open>
  A path is the string without its NUL. \<^verbatim>\<open>skipelem\<close> returns the rest of the path and what it stores in
  \<^verbatim>\<open>name\<close>, which has a NUL unless the element fills the array.
\<close>

definition skipelem :: "bytes \<Rightarrow> (bytes \<times> bytes) option" where
  "skipelem path =
     (let path = dropWhile (\<lambda>c. c = SLASH) path in
      if path = [] then None
      else
        let e = takeWhile (\<lambda>c. c \<noteq> SLASH) path;
            path = dropWhile (\<lambda>c. c \<noteq> SLASH) path;
            name = (if length e \<ge> DIRSIZ then take DIRSIZ e else e @ [0])
        in Some (dropWhile (\<lambda>c. c = SLASH) path, name))"

lemma skipelem_shorter:
  assumes "skipelem path = Some (rest, name)"
  shows "length rest < length path"
proof -
  let ?p = "dropWhile (\<lambda>c. c = SLASH) path"
  from assms have p: "?p \<noteq> []" and r: "rest = dropWhile (\<lambda>c. c = SLASH) (dropWhile (\<lambda>c. c \<noteq> SLASH) ?p)"
    by (auto simp: skipelem_def Let_def split: if_splits)
  from p have "hd ?p \<noteq> SLASH" using hd_dropWhile [of "\<lambda>c. c = SLASH" path] by simp
  with p have "length (dropWhile (\<lambda>c. c \<noteq> SLASH) ?p) < length ?p"
    using length_dropWhile_le [of "\<lambda>c. c \<noteq> SLASH" "tl ?p"] by (cases ?p) auto
  also have "\<dots> \<le> length path" by (rule length_dropWhile_le)
  finally show ?thesis using r length_dropWhile_le le_less_trans by blast
qed

text \<open>
  The loop of \<^verbatim>\<open>namex\<close> with the current inode and the rest of the path; \<open>name\<close> is the last element
  that \<^verbatim>\<open>skipelem\<close> has stored.
\<close>

function namex_loop :: "bool \<Rightarrow> nat \<Rightarrow> bytes \<Rightarrow> bytes \<Rightarrow> 'x fs_scheme \<Rightarrow> ((nat \<times> bytes) option, 'x fs_scheme) outcome"
where
  "namex_loop parent ip path name s =
     (case skipelem path of
        None \<Rightarrow> if parent then kbind (iput ip s) (\<lambda>_ s. Ret None s) else Ret (Some (ip, name)) s
      | Some (path', name) \<Rightarrow>
          kbind (ilock (Some ip) s) (\<lambda>_ s.
          if i_type (inodes s ! ip) \<noteq> T_DIR then kbind (iunlockput ip s) (\<lambda>_ s. Ret None s)
          else if parent \<and> path' = [] then kbind (iunlock (Some ip) s) (\<lambda>_ s. Ret (Some (ip, name)) s)
          else
            kbind (dirlookup ip name s) (\<lambda>r s.
            case r of
              None \<Rightarrow> kbind (iunlockput ip s) (\<lambda>_ s. Ret None s)
            | Some (next, _) \<Rightarrow> kbind (iunlockput ip s) (\<lambda>_ s. namex_loop parent next path' name s))))"
  by pat_completeness auto
termination
  by (relation "measure (\<lambda>(_, _, path, _, _). length path)") (auto dest: skipelem_shorter)

declare namex_loop.simps [simp del]

definition namex :: "bytes \<Rightarrow> bool \<Rightarrow> 'x fs_scheme \<Rightarrow> ((nat \<times> bytes) option, 'x fs_scheme) outcome" where
  "namex path parent s =
     kbind (if path \<noteq> [] \<and> hd path = SLASH then iget ROOTDEV ROOTINO s
            else case myproc s of None \<Rightarrow> Panic ''trap''
                 | Some p \<Rightarrow> (case p_cwd (procs s ! p) of None \<Rightarrow> Panic ''trap'' | Some cwd \<Rightarrow> idup cwd s))
     (\<lambda>ip s. namex_loop parent ip path [] s)"

definition namei :: "bytes \<Rightarrow> 'x fs_scheme \<Rightarrow> (nat option, 'x fs_scheme) outcome" where
  "namei path s = kbind (namex path False s) (\<lambda>r s. Ret (map_option fst r) s)"

definition nameiparent :: "bytes \<Rightarrow> 'x fs_scheme \<Rightarrow> ((nat \<times> bytes) option, 'x fs_scheme) outcome" where
  "nameiparent path s = namex path True s"

section \<open>A state to start from\<close>

text \<open>The cache as it is zeroed at boot, on the disk layout that \<^verbatim>\<open>mkfs\<close> gives a disk of 1000 blocks.\<close>

definition inode_zero :: inode where
  "inode_zero = \<lparr>i_dev = 0, i_inum = 0, i_ref = 0, i_lock = sl_free, i_valid = False, i_type = 0, i_major = 0,
     i_minor = 0, i_nlink = 0, i_size = 0, i_addrs = replicate (NDIRECT + 1) 0\<rparr>"

definition sb_boot :: superblock where
  "sb_boot = \<lparr>sb_size = 1000, sb_nblocks = 941, sb_ninodes = 200, sb_nlog = 30, sb_logstart = 2,
     sb_inodestart = 32, sb_bmapstart = 58\<rparr>"

definition fs_boot :: fs where
  "fs_boot = log.extend log_boot (fs.fields sb_boot (replicate NINODE inode_zero))"

lemma fs_boot_base [simp]: "held fs_boot = []" "procs fs_boot = procs kbase_run" "cpus fs_boot = [Some 0]" "me fs_boot = 0"
  by (simp_all add: fs_boot_def log_boot_def bio_boot_def binit_def kbase_run_def kbase_boot_def kbase.defs kmem.defs
      bio.defs log.defs fs.defs)

end
