(* ===== verification/Content.thy ===== *)
theory Content
  imports Fs
begin

text \<open>
  The contents of files: which bytes the blocks of an inode hold, and what reading and writing them through
  \<^verbatim>\<open>bmap\<close>, \<^verbatim>\<open>readi\<close> and \<^verbatim>\<open>writei\<close> of \<^verbatim>\<open>fs.c\<close> does to them.
\<close>

section \<open>Reading blocks\<close>

text \<open>What an operation that only reads blocks may do: the cache changes, the blocks do not.\<close>

definition rd :: "'x bio_scheme \<Rightarrow> 'x bio_scheme \<Rightarrow> bool" where
  "rd s t \<longleftrightarrow> bframe s t \<and> bio_inv t {} \<and> view t = view s \<and> dirtyset t = dirtyset s"

text \<open>When a block can be read: no buffer is held and one of them can be recycled.\<close>

definition readable :: "'x bio_scheme \<Rightarrow> bool" where
  "readable s \<longleftrightarrow> bio_inv s {} \<and> card (dirtyset s) < NBUF"

lemma rd_refl [simp]: "readable s \<Longrightarrow> rd s s"
  by (simp add: rd_def readable_def)

lemma rd_trans: "rd s t \<Longrightarrow> rd t u \<Longrightarrow> rd s u"
  by (auto simp: rd_def intro: bframe_trans)

lemma rd_readable: "rd s t \<Longrightarrow> readable s \<Longrightarrow> readable t"
  by (simp add: rd_def readable_def)

lemma rd_fs:
  fixes s t :: "'x fs_scheme"
  assumes "rd s t"
  shows "inodes t = inodes s" "sb t = sb s" "view t = view s" "cons t = cons s" "held t = held s"
  using assms by (auto simp: rd_def bframe_def)

lemma readable_tx: "tx s {} \<Longrightarrow> readable s"
  using tx_card [of s "{}"] by (simp add: readable_def tx_bio)

lemma readable_idle: "idle s \<Longrightarrow> readable s"
  by (simp add: readable_def idle_def)

lemma rd_tx: "rd s t \<Longrightarrow> tx s {} \<Longrightarrow> tx t {}"
  by (auto simp: rd_def intro: tx_bframe)

lemma rd_idle: "rd s t \<Longrightarrow> idle s \<Longrightarrow> idle t"
  using bframe_log [of s t] bframe_txn [of s t] by (simp add: rd_def idle_def)

lemma wp_read_block:
  assumes r: "readable s" and k: "k < 1000"
    and Q: "\<And>b t. bframe s t \<Longrightarrow> b_data (bufs t ! b) = view s k \<Longrightarrow>
      (\<And>R. (\<And>u. rd s u \<Longrightarrow> R () u) \<Longrightarrow> wp (brelse b t) R) \<Longrightarrow> Q b t"
  shows "wp (bread ROOTDEV k s) Q"
proof (rule wp_bread [where H = "{}"])
  show "bio_inv s {}" "k \<in> dirtyset s \<or> card {} + card (dirtyset s) < NBUF" using r by (auto simp: readable_def)
next
  fix b t
  assume a: "bframe s t" "bio_inv t (insert b {})" "b_valid (bufs t ! b)" "b_data (bufs t ! b) = view s k"
    "b_blockno (bufs t ! b) = k" "b_dirty (bufs t ! b) \<longleftrightarrow> k \<in> dirtyset s" "view t = view s" "dirtyset t = dirtyset s"
  have "disk t = disk s" using a(1) by (auto simp: bframe_def)
  then have c: "b_dirty (bufs t ! b) \<or> b_data (bufs t ! b) = disk t 1 (b_blockno (bufs t ! b))"
    using a view_clean [of s "{}" k] r by (auto simp: readable_def)
  show "Q b t"
  proof (rule Q [OF a(1,4)])
    fix R assume "\<And>u. rd s u \<Longrightarrow> R () u"
    then show "wp (brelse b t) R"
      using a bframe_trans [OF a(1)] by (intro wp_brelse [OF a(2) _ a(3) c]) (auto simp: rd_def)
  qed
qed (use k in auto)

section \<open>The contents of a file\<close>

text \<open>The block that holds block \<open>bn\<close> of a file, and the bytes of the file.\<close>

definition file_block :: "(u32 \<Rightarrow> bytes) \<Rightarrow> inode \<Rightarrow> nat \<Rightarrow> u32" where
  "file_block v i bn =
     (if bn < NDIRECT then i_addrs i ! bn else le32 (4 * (bn - NDIRECT)) (v (i_addrs i ! NDIRECT)))"

definition file_byte :: "(u32 \<Rightarrow> bytes) \<Rightarrow> inode \<Rightarrow> nat \<Rightarrow> u8" where
  "file_byte v i k = v (file_block v i (k div 512)) ! (k mod 512)"

definition content :: "(u32 \<Rightarrow> bytes) \<Rightarrow> inode \<Rightarrow> bytes" where
  "content v i = map (file_byte v i) [0..<unat (i_size i)]"

text \<open>An inode of the root device whose blocks up to its size are there.\<close>

definition mapped :: "(u32 \<Rightarrow> bytes) \<Rightarrow> inode \<Rightarrow> nat \<Rightarrow> bool" where
  "mapped v i bn \<longleftrightarrow> file_block v i bn \<noteq> 0 \<and> file_block v i bn < 1000 \<and>
     (bn \<ge> NDIRECT \<longrightarrow> i_addrs i ! NDIRECT \<noteq> 0 \<and> i_addrs i ! NDIRECT < 1000)"

definition file_ok :: "(u32 \<Rightarrow> bytes) \<Rightarrow> inode \<Rightarrow> bool" where
  "file_ok v i \<longleftrightarrow> i_dev i = ROOTDEV \<and> unat (i_size i) \<le> MAXFILE * BSIZE \<and> length (i_addrs i) = NDIRECT + 1 \<and>
     (\<forall>k < unat (i_size i). mapped v i (k div 512))"

lemma length_content [simp]: "length (content v i) = unat (i_size i)"
  by (simp add: content_def)

lemma wp_bmap_mapped:
  assumes r: "readable s" and d: "i_dev (inodes s ! ip) = ROOTDEV" and bn: "unat bn < MAXFILE"
    and m: "mapped (view s) (inodes s ! ip) (unat bn)"
    and Q: "\<And>t. rd s t \<Longrightarrow> Q (file_block (view s) (inodes s ! ip) (unat bn)) t"
  shows "wp (bmap ip bn s) Q"
proof (cases "unat bn < NDIRECT")
  case True
  then show ?thesis using m Q [OF rd_refl [OF r]] by (simp add: bmap_def mapped_def file_block_def)
next
  case False
  let ?a = "i_addrs (inodes s ! ip) ! NDIRECT"
  have a: "?a \<noteq> 0" "?a < 1000" "le32 (4 * (unat bn - NDIRECT)) (view s ?a) \<noteq> 0"
    using False m by (auto simp: mapped_def file_block_def)
  have "wp (bread ROOTDEV ?a s) (\<lambda>b t. b_data (bufs t ! b) = view s ?a \<and>
     wp (brelse b t) (\<lambda>_ u. Q (file_block (view s) (inodes s ! ip) (unat bn)) u))"
    using Q by (intro wp_read_block [OF r a(2)]) simp
  then show ?thesis using False bn a d
    by (auto simp: bmap_def Let_def file_block_def elim!: wp_mono)
qed

lemma slice_file:
  assumes "length (v (file_block v i (off div 512))) = 512" "m \<le> 512 - off mod 512"
  shows "slice (off mod 512) m (v (file_block v i (off div 512))) = map (file_byte v i) [off..<off + m]"
proof (rule nth_equalityI)
  have l: "off mod 512 + m \<le> length (v (file_block v i (off div 512)))"
    using assms mod_less_divisor [of 512 off] by linarith
  then show "length (slice (off mod 512) m (v (file_block v i (off div 512)))) = length (map (file_byte v i) [off..<off + m])"
    by simp
  fix j assume "j < length (slice (off mod 512) m (v (file_block v i (off div 512))))"
  then have j: "j < m" using l by simp
  then have "(off + j) div 512 = off div 512" "(off + j) mod 512 = off mod 512 + j"
    using assms(2) add_in_block [of j 512 off] by simp_all
  then show "slice (off mod 512) m (v (file_block v i (off div 512))) ! j = map (file_byte v i) [off..<off + m] ! j"
    using l j by (simp add: nth_slice file_byte_def)
qed

lemma unat_div_512: "unat (off div 512 :: u32) = unat off div 512"
  by (simp add: unat_div_distrib)

lemma wp_readi_loop:
  assumes "readable s" "i_dev (inodes s ! ip) = ROOTDEV" "unat off + n \<le> MAXFILE * BSIZE"
    "\<And>k. unat off \<le> k \<Longrightarrow> k < unat off + n \<Longrightarrow> mapped (view s) (inodes s ! ip) (k div 512)"
    "\<And>t. rd s t \<Longrightarrow> Q (map (file_byte (view s) (inodes s ! ip)) [unat off..<unat off + n]) t"
  shows "wp (readi_loop ip off n s) Q"
  using assms
proof (induction n arbitrary: off s Q rule: less_induct)
  case (less n)
  show ?case
  proof (cases "n = 0")
    case True
    with less.prems(1,5) show ?thesis by (simp add: readi_loop.simps)
  next
    case False
    let ?i = "inodes s ! ip" and ?m = "min n (BSIZE - unat off mod BSIZE)"
    let ?d = "map (file_byte (view s) ?i) [unat off..<unat off + ?m]"
    have m: "mapped (view s) ?i (unat off div 512)" and bn: "unat (off div 512) < MAXFILE"
      using False less.prems(3) less.prems(4) [of "unat off"] by (auto simp: unat_div_512)
    have pos: "0 < ?m" "?m \<le> n" using False mod_less_divisor [of BSIZE "unat off"] by auto
    have off': "unat (off + of_nat ?m) = unat off + ?m"
      using less.prems(3) pos by (subst unat_add_u32) auto
    show ?thesis
      unfolding readi_loop.simps [of ip off n s] if_not_P [OF False] wp_kbind
    proof (rule wp_bmap_mapped [OF less.prems(1,2) bn])
      show "mapped (view s) ?i (unat (off div 512))" using m by (simp add: unat_div_512)
    next
      fix t assume t: "rd s t"
      note tf = rd_fs [OF t]
      have rt: "readable t" using rd_readable [OF t less.prems(1)] .
      let ?k = "file_block (view s) ?i (unat (off div 512))"
      have k: "?k < 1000" "length (view s ?k) = 512"
        using m less.prems(1) bio_inv_facts(5) [of s "{}"] by (auto simp: mapped_def readable_def unat_div_512)
      have d: "slice (unat off mod BSIZE) ?m (view s ?k) = ?d"
        using k(2) by (simp only: unat_div_512) (rule slice_file, auto)
      show "wp (bread (i_dev (inodes t ! ip)) ?k t) (\<lambda>b u. wp (let m = ?m; d = slice (unat off mod BSIZE) m (b_data (bufs u ! b))
           in kbind (brelse b u) (\<lambda>_ s. kbind (readi_loop ip (off + of_nat m) (n - m) s) (\<lambda>r s. Ret (d @ r) s))) Q)"
        unfolding tf(1) less.prems(2)
      proof (rule wp_read_block [OF rt k(1)])
        fix b u
        assume u: "bframe t u" "b_data (bufs u ! b) = view t ?k"
          and rel: "\<And>R. (\<And>w. rd t w \<Longrightarrow> R () w) \<Longrightarrow> wp (brelse b u) R"
        have "wp (brelse b u) (\<lambda>_ s. wp (readi_loop ip (off + of_nat ?m) (n - ?m) s) (\<lambda>r s. Q (?d @ r) s))"
        proof (rule rel)
          fix w assume w: "rd t w"
          have sw: "rd s w" using rd_trans [OF t w] .
          note wf = rd_fs [OF sw]
          show "wp (readi_loop ip (off + of_nat ?m) (n - ?m) w) (\<lambda>r s. Q (?d @ r) s)"
          proof (rule less.IH)
            show "n - ?m < n" using pos False by simp
            show "readable w" using rd_readable [OF sw less.prems(1)] .
            show "i_dev (inodes w ! ip) = ROOTDEV" using wf less.prems(2) by simp
            show "unat (off + of_nat ?m) + (n - ?m) \<le> MAXFILE * BSIZE" using off' pos less.prems(3) by simp
          next
            fix k assume "unat (off + of_nat ?m) \<le> k" "k < unat (off + of_nat ?m) + (n - ?m)"
            then show "mapped (view w) (inodes w ! ip) (k div 512)" using off' pos less.prems(4) [of k] wf by simp
          next
            fix x assume "rd w x"
            with sw have "rd s x" by (rule rd_trans)
            moreover have "[unat off..<unat off + ?m] @ [unat off + ?m..<unat off + n] = [unat off..<unat off + n]"
              using pos upt_add_eq_append [of "unat off" "unat off + ?m" "n - ?m"] by simp
            ultimately show "Q (?d @ map (file_byte (view w) (inodes w ! ip)) [unat (off + of_nat ?m)..<unat (off + of_nat ?m) + (n - ?m)]) x"
              using less.prems(5) off' wf pos by (simp add: map_append [symmetric] del: map_append)
          qed
        qed
        then show "wp (let m = ?m; d = slice (unat off mod BSIZE) m (b_data (bufs u ! b))
           in kbind (brelse b u) (\<lambda>_ s. kbind (readi_loop ip (off + of_nat m) (n - m) s) (\<lambda>r s. Ret (d @ r) s))) Q"
          unfolding Let_def u(2) tf(3) d by simp
      qed
    qed
  qed
qed

lemma slice_content: "off + n \<le> unat (i_size i) \<Longrightarrow> slice off n (content v i) = map (file_byte v i) [off..<off + n]"
  by (intro nth_equalityI) (auto simp: nth_slice content_def)

text \<open>What \<^verbatim>\<open>readi\<close> returns on a file: -1 beyond the end, otherwise the bytes up to the end.\<close>

definition readi_result :: "bytes \<Rightarrow> u32 \<Rightarrow> u32 \<Rightarrow> int \<times> bytes" where
  "readi_result c off n =
     (if unat off > length c \<or> unat off + unat n \<ge> 2 ^ 32 then (-1, [])
      else let d = take (unat n) (drop (unat off) c) in (int (length d), d))"

lemma wp_readi_ino:
  assumes r: "readable s" and f: "file_ok (view s) (inodes s ! ip)"
    and Q: "\<And>t. rd s t \<Longrightarrow> Q (readi_result (content (view s) (inodes s ! ip)) off n) t"
  shows "wp (readi_ino ip off n s) Q"
proof -
  let ?i = "inodes s ! ip" let ?z = "unat (i_size ?i)"
  have ov: "off + n < off \<longleftrightarrow> unat off + unat n \<ge> 2 ^ 32"
    by (rule add_overflow_u32)
  show ?thesis
  proof (cases "off > i_size ?i \<or> off + n < off")
    case True
    then have "readi_result (content (view s) ?i) off n = (-1, [])" unfolding ov by (auto simp: readi_result_def word_less_nat_alt)
    then show ?thesis using True Q [OF rd_refl [OF r]] by (simp add: readi_ino_def Let_def)
  next
    case False
    let ?n = "if off + n > i_size ?i then i_size ?i - off else n"
    have le: "unat off \<le> ?z" and no: "unat off + unat n < 2 ^ 32"
      using False unfolding ov by (auto simp: word_less_nat_alt)
    have n: "unat ?n = min (unat n) (?z - unat off)"
      using le no unat_add_u32 [of off n] by (auto simp: word_less_nat_alt unat_sub_u32 word_le_nat_alt)
    have z: "?z \<le> 71680" using f by (simp add: file_ok_def)
    have "sint ?n = int (unat ?n)" using n z by (intro sint_unat) simp
    then have res: "readi_result (content (view s) ?i) off n = (sint ?n, map (file_byte (view s) ?i) [unat off..<unat off + unat ?n])"
      using le no n slice_content [of "unat off" "unat ?n" ?i "view s"]
      by (auto simp: readi_result_def slice_def Let_def min_def split: if_splits)
    have "wp (readi_loop ip off (unat ?n) s) (\<lambda>d t. Q (sint ?n, d) t)"
      using r f n z le Q res by (intro wp_readi_loop) (auto simp: file_ok_def)
    then show ?thesis using False by (simp add: readi_ino_def Let_def)
  qed
qed

end
