(* ===== verification/Icache.thy ===== *)
theory Icache
  imports Content
begin

text \<open>
  The inode cache of \<^verbatim>\<open>fs.c\<close>: the invariant of \<^verbatim>\<open>icache\<close>, which relates the cached inodes to those on disk, the count of
  references, and what \<^verbatim>\<open>iget\<close>, \<^verbatim>\<open>ilock\<close>, \<^verbatim>\<open>iunlock\<close> and \<^verbatim>\<open>iput\<close> do to them.
\<close>

section \<open>The inode cache\<close>

text \<open>What the cached copy of an inode shares with the one on disk.\<close>

definition icore :: "inode \<Rightarrow> inode" where
  "icore x = x\<lparr>i_ref := 0, i_lock := sl_free, i_valid := False\<rparr>"

definition disk_inode :: "(u32 \<Rightarrow> bytes) \<Rightarrow> superblock \<Rightarrow> u32 \<Rightarrow> inode" where
  "disk_inode v sp n = dinode_get (dinode_off n) (v (IBLOCK n sp)) (inode_zero\<lparr>i_dev := ROOTDEV, i_inum := n\<rparr>)"

text \<open>
  An entry of the cache: the copies in use are those of the disk, the entries in \<open>L\<close> are locked by the process \<open>pid\<close>, and no
  inode is in two entries.
\<close>

definition islot :: "(u32 \<Rightarrow> bytes) \<Rightarrow> superblock \<Rightarrow> int \<Rightarrow> nat set \<Rightarrow> nat \<Rightarrow> inode \<Rightarrow> bool" where
  "islot v sp pid L i x \<longleftrightarrow> 0 \<le> i_ref x \<and> (0 < i_ref x \<longrightarrow> i_dev x = ROOTDEV) \<and> sl_locked (i_lock x) = (i \<in> L) \<and>
     (i \<in> L \<longrightarrow> 0 < i_ref x \<and> i_valid x \<and> sl_pid (i_lock x) = pid) \<and>
     (0 < i_ref x \<and> i_valid x \<longrightarrow> icore x = icore (disk_inode v sp (i_inum x)))"

definition iuniq :: "inode list \<Rightarrow> bool" where
  "iuniq xs \<longleftrightarrow> (\<forall>i<NINODE. \<forall>j<NINODE. 0 < i_ref (xs ! i) \<and> 0 < i_ref (xs ! j) \<and> i_inum (xs ! i) = i_inum (xs ! j) \<longrightarrow> i = j)"

definition ic_ok :: "(u32 \<Rightarrow> bytes) \<Rightarrow> superblock \<Rightarrow> int \<Rightarrow> nat set \<Rightarrow> inode list \<Rightarrow> bool" where
  "ic_ok v sp pid L xs \<longleftrightarrow> length xs = NINODE \<and> (\<forall>i<NINODE. islot v sp pid L i (xs ! i)) \<and> iuniq xs"

text \<open>The number of references to an inode.\<close>

definition refs :: "inode list \<Rightarrow> u32 \<Rightarrow> int" where
  "refs xs n = (case find_idx (\<lambda>x. i_ref x > 0 \<and> i_dev x = ROOTDEV \<and> i_inum x = n) xs of
     Some i \<Rightarrow> i_ref (xs ! i) | None \<Rightarrow> 0)"

lemma iuniqD:
  assumes "ic_ok v sp pid L xs" "i < NINODE" "j < NINODE" "0 < i_ref (xs ! i)" "0 < i_ref (xs ! j)"
    "i_inum (xs ! i) = i_inum (xs ! j)"
  shows "i = j"
  using assms by (simp add: ic_ok_def iuniq_def)

lemma ic_slot: "ic_ok v sp pid L xs \<Longrightarrow> i < NINODE \<Longrightarrow> islot v sp pid L i (xs ! i)"
  by (simp add: ic_ok_def)

lemma refs_at:
  assumes "ic_ok v sp pid L xs" "i < NINODE" "0 < i_ref (xs ! i)"
  shows "find_idx (\<lambda>x. i_ref x > 0 \<and> i_dev x = ROOTDEV \<and> i_inum x = i_inum (xs ! i)) xs = Some i"
    and "refs xs (i_inum (xs ! i)) = i_ref (xs ! i)"
proof -
  have l: "length xs = NINODE" and d: "i_dev (xs ! i) = ROOTDEV" using assms by (auto simp: ic_ok_def islot_def)
  obtain k where k: "find_idx (\<lambda>x. i_ref x > 0 \<and> i_dev x = ROOTDEV \<and> i_inum x = i_inum (xs ! i)) xs = Some k"
    using find_idx_ex [of i xs "\<lambda>x. i_ref x > 0 \<and> i_dev x = ROOTDEV \<and> i_inum x = i_inum (xs ! i)"] assms l d by auto
  with find_idx_SomeD [OF k] assms l have "k = i" by (auto simp: ic_ok_def iuniq_def)
  with k show "find_idx (\<lambda>x. i_ref x > 0 \<and> i_dev x = ROOTDEV \<and> i_inum x = i_inum (xs ! i)) xs = Some i"
    "refs xs (i_inum (xs ! i)) = i_ref (xs ! i)" by (simp_all add: refs_def)
qed

lemma refs_0: "(\<And>i. i < length xs \<Longrightarrow> 0 < i_ref (xs ! i) \<Longrightarrow> i_inum (xs ! i) \<noteq> n) \<Longrightarrow> refs xs n = 0"
  by (auto simp: refs_def dest!: find_idx_SomeD split: option.splits)

lemma refs_pos:
  assumes "0 < refs xs n" "length xs = NINODE"
  shows "\<exists>i<NINODE. 0 < i_ref (xs ! i) \<and> i_inum (xs ! i) = n"
  using assms refs_0 [of xs n] by force

text \<open>An entry changes and keeps its inode.\<close>

lemma refs_upd:
  assumes "ic_ok v sp pid L xs" "ic_ok v sp pid L' (xs[i := x])" "i < NINODE" "i_inum x = i_inum (xs ! i)" "0 < i_ref (xs ! i)"
  shows "refs (xs[i := x]) = (refs xs)(i_inum x := i_ref x)"
proof
  fix n
  have l: "length xs = NINODE" using assms by (simp add: ic_ok_def)
  show "refs (xs[i := x]) n = ((refs xs)(i_inum x := i_ref x)) n"
  proof (cases "\<exists>j<NINODE. 0 < i_ref (xs[i := x] ! j) \<and> i_inum (xs[i := x] ! j) = n")
    case True
    then obtain j where j: "j < NINODE" "0 < i_ref (xs[i := x] ! j)" "i_inum (xs[i := x] ! j) = n" by blast
    have "refs (xs[i := x]) n = i_ref (xs[i := x] ! j)" using refs_at(2) [OF assms(2) j(1,2)] j(3) by simp
    moreover have "n \<noteq> i_inum x \<and> refs xs n = i_ref (xs ! j)" if "i \<noteq> j"
    proof -
      have e: "0 < i_ref (xs ! j)" "i_inum (xs ! j) = n" using j that by simp_all
      then have "n \<noteq> i_inum (xs ! i)" using iuniqD [OF assms(1) j(1) assms(3) _ assms(5)] that by metis
      then show ?thesis using refs_at(2) [OF assms(1) j(1) e(1)] e(2) assms(4) by simp
    qed
    ultimately show ?thesis using j l assms(3) by (cases "i = j") simp_all
  next
    case False
    then have z: "refs (xs[i := x]) n = 0" using l by (intro refs_0) auto
    show ?thesis
    proof (cases "n = i_inum x")
      case True
      with False l assms(3) have "\<not> 0 < i_ref x" by (metis nth_list_update_eq)
      moreover have "0 \<le> i_ref x" using ic_slot [OF assms(2,3)] l assms(3) by (simp add: islot_def)
      ultimately show ?thesis using z True by simp
    next
      case nx: False
      have "refs xs n = 0"
      proof (rule refs_0)
        fix j assume "j < length xs" "0 < i_ref (xs ! j)"
        then show "i_inum (xs ! j) \<noteq> n" using False nx l assms(3,4) by (metis nth_list_update_neq)
      qed
      then show ?thesis using z nx by simp
    qed
  qed
qed

lemma ic_ok_upd:
  assumes "ic_ok v sp pid L xs" "i < NINODE" "islot v sp pid L' i x" "L' - {i} = L - {i}"
    "\<And>j. j < NINODE \<Longrightarrow> j \<noteq> i \<Longrightarrow> 0 < i_ref x \<Longrightarrow> 0 < i_ref (xs ! j) \<Longrightarrow> i_inum (xs ! j) \<noteq> i_inum x"
  shows "ic_ok v sp pid L' (xs[i := x])"
proof -
  have l: "length xs = NINODE" using assms by (simp add: ic_ok_def)
  have "islot v sp pid L' j (xs[i := x] ! j)" if "j < NINODE" for j
  proof (cases "j = i")
    case False
    then have "j \<in> L' \<longleftrightarrow> j \<in> L" using assms(4) by blast
    with False that assms(1) l show ?thesis by (auto simp: ic_ok_def islot_def)
  qed (use assms l in auto)
  moreover have "iuniq (xs[i := x])"
    unfolding iuniq_def
  proof (intro allI impI)
    fix j k
    assume a: "j < NINODE" "k < NINODE"
      "0 < i_ref (xs[i := x] ! j) \<and> 0 < i_ref (xs[i := x] ! k) \<and> i_inum (xs[i := x] ! j) = i_inum (xs[i := x] ! k)"
    show "j = k"
      using a l assms(2) assms(5) [of j] assms(5) [of k] iuniqD [OF assms(1), of j k]
      by (cases "j = i"; cases "k = i") simp_all
  qed
  ultimately show ?thesis using l by (simp add: ic_ok_def)
qed

lemma ic_ok_upd_same:
  assumes "ic_ok v sp pid L xs" "i < NINODE" "islot v sp pid L' i x" "L' - {i} = L - {i}" "i_inum x = i_inum (xs ! i)"
    "0 < i_ref (xs ! i)"
  shows "ic_ok v sp pid L' (xs[i := x])"
  using ic_ok_upd [OF assms(1-4)] iuniqD [OF assms(1) _ assms(2) _ assms(6)] assms(5) by metis

lemma free_slot:
  assumes "ic_ok v sp pid L xs" "card {n. 0 < refs xs n} < NINODE"
  shows "\<exists>i. find_idx (\<lambda>x. i_ref x = 0) xs = Some i"
proof (rule ccontr)
  assume "\<not> ?thesis"
  then have "\<forall>x \<in> set xs. i_ref x \<noteq> 0" using find_idx_None_iff [of "\<lambda>x. i_ref x = 0" xs] by (metis option.exhaust)
  then have pos: "0 < i_ref (xs ! i)" if "i < NINODE" for i
    using assms(1) that nth_mem [of i xs] by (force simp: ic_ok_def islot_def)
  have inj: "inj_on (\<lambda>i. i_inum (xs ! i)) {..<NINODE}"
    using assms(1) pos by (auto simp: inj_on_def ic_ok_def iuniq_def)
  have "{n. 0 < refs xs n} = (\<lambda>i. i_inum (xs ! i)) ` {..<NINODE}"
    using pos refs_at(2) [OF assms(1)] refs_pos assms(1) by (force simp: ic_ok_def)
  then show False using assms(2) card_image [OF inj] by simp
qed

section \<open>The operations on cached inodes\<close>

lemma held_same: "held s = h \<Longrightarrow> s\<lparr>held := h\<rparr> = s"
  by (auto intro!: kbase.equality)

lemma inodes_keep [simp]:
  "readable (s\<lparr>inodes := X\<rparr>) = readable s" "view (s\<lparr>inodes := X\<rparr>) = view s" "running (s\<lparr>inodes := X\<rparr>) = running s"
  "curproc (s\<lparr>inodes := X\<rparr>) = curproc s" "dirtyset (s\<lparr>inodes := X\<rparr>) = dirtyset s" "bio_inv (s\<lparr>inodes := X\<rparr>) H = bio_inv s H"
  by (simp_all add: readable_def bio_inv_def running_def curproc_def myproc_def view_def dirtyset_def)

lemma readable_running: "readable s \<Longrightarrow> running s"
  by (simp add: readable_def bio_inv_def)

lemma rd_curproc: "rd s t \<Longrightarrow> readable s \<Longrightarrow> curproc t = curproc s"
  using bframe_running [of s t] by (auto simp: rd_def readable_def bio_inv_def)

lemma rd_inodes:
  assumes "rd s t"
  shows "rd (s\<lparr>inodes := X\<rparr>) (t\<lparr>inodes := X\<rparr>)"
proof -
  obtain ps bs where "t = s\<lparr>procs := ps, bufs := bs\<rparr>" "woken (procs s) ps" using assms by (auto simp: rd_def bframe_def)
  then have "t\<lparr>inodes := X\<rparr> = s\<lparr>inodes := X, procs := ps, bufs := bs\<rparr>" "woken (procs (s\<lparr>inodes := X\<rparr>)) ps" by simp_all
  then have "bframe (s\<lparr>inodes := X\<rparr>) (t\<lparr>inodes := X\<rparr>)" unfolding bframe_def by blast
  with assms show ?thesis by (simp add: rd_def)
qed

lemma rd_inodes_trans: "rd (s\<lparr>inodes := X\<rparr>) t \<Longrightarrow> rd (t\<lparr>inodes := Y\<rparr>) u \<Longrightarrow> rd (s\<lparr>inodes := Y\<rparr>) u"
  using rd_trans [OF rd_inodes, of "s\<lparr>inodes := X\<rparr>" t Y u] by simp

lemma rd_wake:
  assumes "readable s"
  shows "rd s (s\<lparr>procs := wake ch (procs s)\<rparr>)"
proof -
  have "bframe s (s\<lparr>procs := wake ch (procs s)\<rparr>)"
    unfolding bframe_def by (rule exI [of _ "wake ch (procs s)"], rule exI [of _ "bufs s"]) simp
  moreover have "running (s\<lparr>procs := wake ch (procs s)\<rparr>)" "curproc (s\<lparr>procs := wake ch (procs s)\<rparr>) = curproc s"
    using running_woken [OF readable_running [OF assms], of "wake ch (procs s)"] by simp_all
  ultimately show ?thesis using assms by (simp add: rd_def readable_def bio_inv_def view_def dirtyset_def)
qed

lemma acquiresleep_ino_ok:
  assumes "running s" "\<not> sl_locked (i_lock (inodes s ! ip))" "ip < length (inodes s)"
  shows "acquiresleep_ino ip s = Ret () (upd_inode ip (\<lambda>x. x\<lparr>i_lock := \<lparr>sl_locked = True, sl_pid = p_pid (curproc s)\<rparr>\<rparr>) s)"
proof -
  obtain p where p: "myproc s = Some p" "curproc s = procs s ! p" using assms(1) by (auto simp: running_def curproc_def)
  then show ?thesis using assms running_held [OF assms(1)]
    by (auto simp: acquiresleep_def myproc_def intro!: fs.equality sleeplock.equality arg_cong [where f = "\<lambda>x. list_update _ _ x"])
qed

lemma releasesleep_ino_ok:
  assumes "running s"
  shows "releasesleep_ino ip s =
    Ret () (upd_inode ip (\<lambda>x. x\<lparr>i_lock := sl_free\<rparr>) (s\<lparr>procs := wake (ChInodeLock ip) (procs s)\<rparr>))"
  using running_held [OF assms]
  by (auto simp: releasesleep_def sl_free_def intro!: fs.equality sleeplock.equality arg_cong [where f = "\<lambda>x. list_update _ _ x"])

lemma holdingsleep_ino_ok:
  assumes "running s"
  shows "holdingsleep_ino ip s =
    Ret (sl_locked (i_lock (inodes s ! ip)) \<and> sl_pid (i_lock (inodes s ! ip)) = p_pid (curproc s)) s"
proof -
  obtain p where p: "myproc s = Some p" "curproc s = procs s ! p" using assms(1) by (auto simp: running_def curproc_def)
  then show ?thesis using running_held [OF assms(1)] by (auto simp: holdingsleep_def myproc_def Let_def)
qed

lemma wp_iget:
  assumes ic: "ic_ok v sp pid L (inodes s)" and h: "held s = []"
    and room: "0 < refs (inodes s) n \<or> card {m. 0 < refs (inodes s) m} < NINODE"
    and Q: "\<And>ip X. ip < NINODE \<Longrightarrow> ic_ok v sp pid L X \<Longrightarrow> i_inum (X ! ip) = n \<Longrightarrow> 0 < i_ref (X ! ip) \<Longrightarrow>
      refs X = (refs (inodes s))(n := refs (inodes s) n + 1) \<Longrightarrow>
      (\<And>j. j \<in> L \<Longrightarrow> i_inum (X ! j) = i_inum (inodes s ! j)) \<Longrightarrow> Q ip (s\<lparr>inodes := X\<rparr>)"
  shows "wp (iget ROOTDEV n s) Q"
proof -
  let ?xs = "inodes s"
  have l: "length ?xs = NINODE" using ic by (simp add: ic_ok_def)
  show ?thesis
  proof (cases "find_idx (\<lambda>x. i_ref x > 0 \<and> i_dev x = ROOTDEV \<and> i_inum x = n) ?xs")
    case (Some ip)
    have ip: "ip < NINODE" "0 < i_ref (?xs ! ip)" "i_inum (?xs ! ip) = n" using find_idx_SomeD [OF Some] l by auto
    let ?x = "(?xs ! ip)\<lparr>i_ref := i_ref (?xs ! ip) + 1\<rparr>"
    have "islot v sp pid L ip ?x" using ic_slot [OF ic ip(1)] ip by (auto simp: islot_def icore_def)
    then have ic': "ic_ok v sp pid L (?xs[ip := ?x])" using ip by (intro ic_ok_upd_same [OF ic ip(1)]) auto
    have "refs (?xs[ip := ?x]) = (refs ?xs)(n := refs ?xs n + 1)"
      using refs_upd [OF ic ic' ip(1)] refs_at(2) [OF ic ip(1,2)] ip by simp
    then have "Q ip (s\<lparr>inodes := ?xs[ip := ?x]\<rparr>)"
      using ip l by (intro Q [OF ip(1) ic']) (auto simp: nth_list_update)
    then show ?thesis using Some h by (simp add: iget_def held_same)
  next
    case None
    have none: "\<not> (0 < i_ref (?xs ! j) \<and> i_inum (?xs ! j) = n)" if "j < NINODE" for j
      using None that l ic_slot [OF ic that] nth_mem [of j ?xs] by (auto simp: find_idx_None_iff islot_def)
    have r0: "refs ?xs n = 0" using none l by (intro refs_0) auto
    then obtain ip where f: "find_idx (\<lambda>x. i_ref x = 0) ?xs = Some ip" using free_slot [OF ic] room by auto
    then have ip: "ip < NINODE" "i_ref (?xs ! ip) = 0" using find_idx_SomeD [OF f] l by auto
    let ?x = "(?xs ! ip)\<lparr>i_dev := ROOTDEV, i_inum := n, i_ref := 1, i_valid := False\<rparr>"
    have nL: "ip \<notin> L" using ic_slot [OF ic ip(1)] ip by (auto simp: islot_def)
    have "islot v sp pid L ip ?x" using ic_slot [OF ic ip(1)] nL by (auto simp: islot_def)
    then have ic': "ic_ok v sp pid L (?xs[ip := ?x])" using none by (intro ic_ok_upd [OF ic ip(1)]) auto
    have "refs (?xs[ip := ?x]) m = ((refs ?xs)(n := refs ?xs n + 1)) m" for m
    proof (cases "m = n")
      case True
      then show ?thesis using refs_at(2) [OF ic' ip(1)] l ip(1) r0 by simp
    next
      case False
      show ?thesis
      proof (cases "0 < refs ?xs m")
        case True
        then obtain j where j: "j < NINODE" "0 < i_ref (?xs ! j)" "i_inum (?xs ! j) = m" using refs_pos l by blast
        then have "j \<noteq> ip" using ip by auto
        then show ?thesis using refs_at(2) [OF ic j(1,2)] refs_at(2) [OF ic' j(1)] j False by simp
      next
        case no: False
        have "0 \<le> refs ?xs m" using ic_slot [OF ic] l by (auto simp: refs_def islot_def dest!: find_idx_SomeD split: option.split)
        moreover have "refs (?xs[ip := ?x]) m = 0"
        proof (rule refs_0)
          fix j assume "j < length (?xs[ip := ?x])" "0 < i_ref (?xs[ip := ?x] ! j)"
          then show "i_inum (?xs[ip := ?x] ! j) \<noteq> m"
            using no False l refs_at(2) [OF ic, of j] by (cases "j = ip") auto
        qed
        ultimately show ?thesis using no False by simp
      qed
    qed
    then have "refs (?xs[ip := ?x]) = (refs ?xs)(n := refs ?xs n + 1)" by blast
    then have "Q ip (s\<lparr>inodes := ?xs[ip := ?x]\<rparr>)"
      using ip l nL by (intro Q [OF ip(1) ic']) (auto simp: nth_list_update)
    then show ?thesis using None f h by (simp add: iget_def held_same)
  qed
qed

text \<open>Reading a block, with a change of the cached inodes before the buffer is released.\<close>

lemma wp_read_block_ino:
  assumes r: "readable s" and k: "k < 1000"
    and Q: "\<And>b t. bframe s t \<Longrightarrow> b_data (bufs t ! b) = view s k \<Longrightarrow> inodes t = inodes s \<Longrightarrow>
      (\<And>X R. (\<And>u. rd (s\<lparr>inodes := X\<rparr>) u \<Longrightarrow> R () u) \<Longrightarrow> wp (brelse b (t\<lparr>inodes := X\<rparr>)) R) \<Longrightarrow> Q b t"
  shows "wp (bread ROOTDEV k s) Q"
proof (rule wp_bread [where H = "{}"])
  show "bio_inv s {}" "k \<in> dirtyset s \<or> card {} + card (dirtyset s) < NBUF" using r by (auto simp: readable_def)
next
  fix b t
  assume a: "bframe s t" "bio_inv t (insert b {})" "b_valid (bufs t ! b)" "b_data (bufs t ! b) = view s k"
    "b_blockno (bufs t ! b) = k" "b_dirty (bufs t ! b) \<longleftrightarrow> k \<in> dirtyset s" "view t = view s" "dirtyset t = dirtyset s"
  have d: "disk t = disk s" "inodes t = inodes s" using a(1) by (auto simp: bframe_def)
  have c: "b_dirty (bufs t ! b) \<or> b_data (bufs t ! b) = disk t 1 (b_blockno (bufs t ! b))"
    using d a view_clean [of s "{}" k] r by (auto simp: readable_def)
  show "Q b t"
  proof (rule Q [OF a(1,4) d(2)])
    fix X R assume R: "\<And>u. rd (s\<lparr>inodes := X\<rparr>) u \<Longrightarrow> R () u"
    obtain ps bs where ps: "t = s\<lparr>procs := ps, bufs := bs\<rparr>" "woken (procs s) ps" using a(1) by (auto simp: bframe_def)
    then have "t\<lparr>inodes := X\<rparr> = s\<lparr>inodes := X, procs := ps, bufs := bs\<rparr>" "woken (procs (s\<lparr>inodes := X\<rparr>)) ps" by simp_all
    then have f: "bframe (s\<lparr>inodes := X\<rparr>) (t\<lparr>inodes := X\<rparr>)" unfolding bframe_def by blast
    show "wp (brelse b (t\<lparr>inodes := X\<rparr>)) R"
    proof (rule wp_brelse [where H = "insert b {}"])
      fix u assume u: "bframe (t\<lparr>inodes := X\<rparr>) u" "bio_inv u (insert b {} - {b})" "view u = view (t\<lparr>inodes := X\<rparr>)"
        "dirtyset u = dirtyset (t\<lparr>inodes := X\<rparr>)"
      then show "R () u" using a bframe_trans [OF f u(1)] by (intro R) (simp add: rd_def)
    qed (use a c in auto)
  qed
qed (use k in auto)

text \<open>Inodes that an operation may load: their block is on the disk and they are in use.\<close>

definition loadable :: "(u32 \<Rightarrow> bytes) \<Rightarrow> superblock \<Rightarrow> u32 \<Rightarrow> bool" where
  "loadable v sp n \<longleftrightarrow> IBLOCK n sp < 1000 \<and> i_type (disk_inode v sp n) \<noteq> 0 \<and> i_nlink (disk_inode v sp n) \<noteq> 0"

lemma dinode_get_core:
  "i_dev x = ROOTDEV \<Longrightarrow> icore (dinode_get (dinode_off (i_inum x)) (v (IBLOCK (i_inum x) sp)) x) = icore (disk_inode v sp (i_inum x))"
  by (auto simp: icore_def disk_inode_def dinode_get_def inode_zero_def intro!: inode.equality)

lemma icore_fields:
  assumes "icore x = icore y"
  shows "i_type x = i_type y" "i_nlink x = i_nlink y" "i_size x = i_size y" "i_addrs x = i_addrs y" "i_dev x = i_dev y"
    "i_inum x = i_inum y"
  using assms by (auto simp: icore_def dest!: arg_cong [where f = "\<lambda>x. (i_type x, i_nlink x, i_size x, i_addrs x, i_dev x, i_inum x)"])

lemma wp_ilock:
  assumes ic: "ic_ok (view s) (sb s) (p_pid (curproc s)) L (inodes s)" and r: "readable s"
    and ip: "ip < NINODE" "ip \<notin> L" "0 < i_ref (inodes s ! ip)" and ld: "loadable (view s) (sb s) (i_inum (inodes s ! ip))"
    and Q: "\<And>X t. rd (s\<lparr>inodes := X\<rparr>) t \<Longrightarrow> ic_ok (view s) (sb s) (p_pid (curproc s)) (insert ip L) X \<Longrightarrow> refs X = refs (inodes s) \<Longrightarrow>
      (\<And>j. j < NINODE \<Longrightarrow> i_inum (X ! j) = i_inum (inodes s ! j) \<and> i_ref (X ! j) = i_ref (inodes s ! j)) \<Longrightarrow> Q () t"
  shows "wp (ilock (Some ip) s) Q"
proof -
  let ?xs = "inodes s" let ?x = "?xs ! ip" let ?pid = "p_pid (curproc s)"
  have l: "length ?xs = NINODE" using ic by (simp add: ic_ok_def)
  have run: "running s" by (rule readable_running [OF r])
  have sl: "islot (view s) (sb s) ?pid L ip ?x" by (rule ic_slot [OF ic ip(1)])
  then have dev: "i_dev ?x = ROOTDEV" and unl: "\<not> sl_locked (i_lock ?x)" using ip by (auto simp: islot_def)
  let ?lk = "\<lparr>sl_locked = True, sl_pid = ?pid\<rparr>"
  let ?d = "dinode_get (dinode_off (i_inum ?x)) (view s (IBLOCK (i_inum ?x) (sb s))) ?x"
  define y where "y = (if i_valid ?x then ?x else ?d)\<lparr>i_lock := ?lk, i_valid := True\<rparr>"
  let ?X = "?xs[ip := y]"
  have core: "icore y = icore (disk_inode (view s) (sb s) (i_inum ?x))"
    using sl ip dinode_get_core [OF dev, of "view s" "sb s"] by (auto simp: y_def islot_def icore_def)
  have y: "i_inum y = i_inum ?x" "i_ref y = i_ref ?x" "i_dev y = ROOTDEV" "i_lock y = ?lk" "i_valid y"
    using dev by (auto simp: y_def dinode_get_def)
  have ty: "i_type y \<noteq> 0" using icore_fields(1) [OF core] ld by (simp add: loadable_def)
  have ic': "ic_ok (view s) (sb s) ?pid (insert ip L) ?X"
    using ip y core by (intro ic_ok_upd_same [OF ic ip(1)]) (auto simp: islot_def)
  have rf: "refs ?X = refs ?xs"
    using refs_upd [OF ic ic' ip(1)] y ip refs_at(2) [OF ic ip(1,3)] by (simp add: fun_upd_idem)
  have q: "Q () t" if "rd (s\<lparr>inodes := ?X\<rparr>) t" for t
    using that ic' rf y l ip(1) by (intro Q [OF that]) (auto simp: nth_list_update)
  let ?s1 = "upd_inode ip (\<lambda>x. x\<lparr>i_lock := ?lk\<rparr>) s"
  have a: "acquiresleep_ino ip s = Ret () ?s1" using acquiresleep_ino_ok [OF run unl] ip l by simp
  show ?thesis
  proof (cases "i_valid ?x")
    case True
    have "?x\<lparr>i_lock := ?lk\<rparr> = y" using True by (auto simp: y_def intro!: inode.equality)
    then have "?s1 = s\<lparr>inodes := ?X\<rparr>" by simp
    moreover have "rd (s\<lparr>inodes := ?X\<rparr>) (s\<lparr>inodes := ?X\<rparr>)" using r by (intro rd_refl) simp
    ultimately show ?thesis using True a ip l q y(5) by (simp add: ilock_def)
  next
    case False
    have e: "(?x\<lparr>i_lock := ?lk\<rparr>) = inodes ?s1 ! ip" using l ip by simp
    have y': "y = (dinode_get (dinode_off (i_inum ?x)) (view s (IBLOCK (i_inum ?x) (sb s))) (?x\<lparr>i_lock := ?lk\<rparr>))\<lparr>i_valid := True\<rparr>"
      using False by (auto simp: y_def dinode_get_def intro!: inode.equality)
    have "wp (bread ROOTDEV (IBLOCK (i_inum ?x) (sb s)) ?s1) (\<lambda>bp s.
         wp (let s = upd_inode ip (\<lambda>x. dinode_get (dinode_off (i_inum x)) (b_data (bufs s ! bp)) x) s
         in kbind (brelse bp s) (\<lambda>_ s.
            let s = upd_inode ip (\<lambda>x. x\<lparr>i_valid := True\<rparr>) s
            in if i_type (inodes s ! ip) = 0 then Panic ''ilock: no type'' else Ret () s)) Q)"
    proof (rule wp_read_block_ino)
      show "readable ?s1" "IBLOCK (i_inum ?x) (sb s) < 1000" using r ld by (auto simp: loadable_def)
      fix b t
      assume t: "b_data (bufs t ! b) = view ?s1 (IBLOCK (i_inum ?x) (sb s))" "inodes t = inodes ?s1"
        and rel: "\<And>X R. (\<And>u. rd (?s1\<lparr>inodes := X\<rparr>) u \<Longrightarrow> R () u) \<Longrightarrow> wp (brelse b (t\<lparr>inodes := X\<rparr>)) R"
      let ?z = "dinode_get (dinode_off (i_inum ?x)) (view s (IBLOCK (i_inum ?x) (sb s))) (?x\<lparr>i_lock := ?lk\<rparr>)"
      have "wp (brelse b (t\<lparr>inodes := ?xs[ip := ?z]\<rparr>)) (\<lambda>_ u. wp (let s = upd_inode ip (\<lambda>x. x\<lparr>i_valid := True\<rparr>) u
            in if i_type (inodes s ! ip) = 0 then Panic ''ilock: no type'' else Ret () s) Q)"
      proof (rule rel)
        fix u assume u: "rd (?s1\<lparr>inodes := ?xs[ip := ?z]\<rparr>) u"
        then have iu: "inodes u = ?xs[ip := ?z]" using rd_fs(1) by force
        have "upd_inode ip (\<lambda>x. x\<lparr>i_valid := True\<rparr>) u = u\<lparr>inodes := ?X\<rparr>" using iu l ip y' by simp
        moreover have "rd (s\<lparr>inodes := ?X\<rparr>) (u\<lparr>inodes := ?X\<rparr>)" using rd_inodes [OF u, of ?X] by simp
        ultimately show "wp (let s = upd_inode ip (\<lambda>x. x\<lparr>i_valid := True\<rparr>) u
            in if i_type (inodes s ! ip) = 0 then Panic ''ilock: no type'' else Ret () s) Q"
          using q ty l ip(1) by (simp add: Let_def)
      qed
      moreover have "upd_inode ip (\<lambda>x. dinode_get (dinode_off (i_inum x)) (b_data (bufs t ! b)) x) t
          = t\<lparr>inodes := ?xs[ip := ?z]\<rparr>" using t l ip by simp
      ultimately show "wp (let s = upd_inode ip (\<lambda>x. dinode_get (dinode_off (i_inum x)) (b_data (bufs t ! b)) x) t
         in kbind (brelse b s) (\<lambda>_ s. let s = upd_inode ip (\<lambda>x. x\<lparr>i_valid := True\<rparr>) s
            in if i_type (inodes s ! ip) = 0 then Panic ''ilock: no type'' else Ret () s)) Q"
        by (simp add: Let_def)
    qed
    then show ?thesis using False a ip l dev by (simp add: ilock_def)
  qed
qed

lemma wp_iunlock:
  assumes ic: "ic_ok v sp (p_pid (curproc s)) L (inodes s)" and r: "readable s" and ip: "ip < NINODE" "ip \<in> L"
    and Q: "\<And>X t. rd (s\<lparr>inodes := X\<rparr>) t \<Longrightarrow> ic_ok v sp (p_pid (curproc s)) (L - {ip}) X \<Longrightarrow> refs X = refs (inodes s) \<Longrightarrow>
      (\<And>j. j < NINODE \<Longrightarrow> i_inum (X ! j) = i_inum (inodes s ! j) \<and> i_ref (X ! j) = i_ref (inodes s ! j)) \<Longrightarrow> Q () t"
  shows "wp (iunlock (Some ip) s) Q"
proof -
  let ?xs = "inodes s" let ?x = "?xs ! ip" let ?pid = "p_pid (curproc s)" let ?y = "?x\<lparr>i_lock := sl_free\<rparr>"
  let ?X = "?xs[ip := ?y]"
  have l: "length ?xs = NINODE" using ic by (simp add: ic_ok_def)
  have run: "running s" by (rule readable_running [OF r])
  have sl: "islot v sp ?pid L ip ?x" by (rule ic_slot [OF ic ip(1)])
  then have lk: "sl_locked (i_lock ?x)" "sl_pid (i_lock ?x) = ?pid" "0 < i_ref ?x" using ip by (auto simp: islot_def)
  have "islot v sp ?pid (L - {ip}) ip ?y" using sl ip by (auto simp: islot_def sl_free_def icore_def)
  then have ic': "ic_ok v sp ?pid (L - {ip}) ?X" using lk by (intro ic_ok_upd_same [OF ic ip(1)]) auto
  have rf: "refs ?X = refs ?xs"
    using refs_upd [OF ic ic' ip(1)] lk(3) refs_at(2) [OF ic ip(1) lk(3)] by (simp add: fun_upd_idem)
  have "rd (s\<lparr>inodes := ?X\<rparr>) (s\<lparr>procs := wake (ChInodeLock ip) (procs s), inodes := ?X\<rparr>)"
    using rd_inodes [OF rd_wake [OF r]] by simp
  then have "Q () (s\<lparr>procs := wake (ChInodeLock ip) (procs s), inodes := ?X\<rparr>)"
    by (rule Q [OF _ ic' rf]) (use l ip(1) in \<open>auto simp: nth_list_update\<close>)
  then show ?thesis
    using lk by (simp add: iunlock_def holdingsleep_ino_ok [OF run] releasesleep_ino_ok [OF run])
qed

lemma wp_iput:
  assumes ic: "ic_ok (view s) (sb s) (p_pid (curproc s)) L (inodes s)" and r: "readable s"
    and ip: "ip < NINODE" "ip \<notin> L" "0 < i_ref (inodes s ! ip)" and ld: "i_nlink (disk_inode (view s) (sb s) (i_inum (inodes s ! ip))) \<noteq> 0"
    and Q: "\<And>X t. rd (s\<lparr>inodes := X\<rparr>) t \<Longrightarrow> ic_ok (view s) (sb s) (p_pid (curproc s)) L X \<Longrightarrow>
      refs X = (refs (inodes s))(i_inum (inodes s ! ip) := refs (inodes s) (i_inum (inodes s ! ip)) - 1) \<Longrightarrow>
      (\<And>j. j < NINODE \<Longrightarrow> i_inum (X ! j) = i_inum (inodes s ! j)) \<Longrightarrow>
      (\<And>j. j < NINODE \<Longrightarrow> i_ref (X ! j) = (if j = ip then i_ref (inodes s ! ip) - 1 else i_ref (inodes s ! j))) \<Longrightarrow> Q () t"
  shows "wp (iput ip s) Q"
proof -
  let ?xs = "inodes s" let ?x = "?xs ! ip" let ?pid = "p_pid (curproc s)"
  let ?y = "?x\<lparr>i_lock := sl_free, i_ref := i_ref ?x - 1\<rparr>" let ?X = "?xs[ip := ?y]"
  let ?lk = "\<lparr>sl_locked = True, sl_pid = ?pid\<rparr>"
  have l: "length ?xs = NINODE" using ic by (simp add: ic_ok_def)
  have run: "running s" by (rule readable_running [OF r])
  have sl: "islot (view s) (sb s) ?pid L ip ?x" by (rule ic_slot [OF ic ip(1)])
  then have unl: "\<not> sl_locked (i_lock ?x)"
    and core: "i_valid ?x \<Longrightarrow> icore ?x = icore (disk_inode (view s) (sb s) (i_inum ?x))"
    using ip by (simp_all add: islot_def)
  have nl: "\<not> (i_valid ?x \<and> i_nlink ?x = 0)" using icore_fields(2) [OF core] ld by metis
  have "islot (view s) (sb s) ?pid L ip ?y" using sl ip by (auto simp: islot_def sl_free_def icore_def)
  then have ic': "ic_ok (view s) (sb s) ?pid L ?X" using ip by (intro ic_ok_upd_same [OF ic ip(1)]) auto
  have rf: "refs ?X = (refs ?xs)(i_inum ?x := refs ?xs (i_inum ?x) - 1)"
    using refs_upd [OF ic ic' ip(1)] ip(3) refs_at(2) [OF ic ip(1,3)] by simp
  let ?s1 = "upd_inode ip (\<lambda>x. x\<lparr>i_lock := ?lk\<rparr>) s"
  have a: "acquiresleep_ino ip s = Ret () ?s1" using acquiresleep_ino_ok [OF run unl] ip l by simp
  have run1: "running ?s1" using run by simp
  have "rd (s\<lparr>inodes := ?X\<rparr>) (s\<lparr>procs := wake (ChInodeLock ip) (procs s), inodes := ?X\<rparr>)"
    using rd_inodes [OF rd_wake [OF r]] by simp
  then have "Q () (s\<lparr>procs := wake (ChInodeLock ip) (procs s), inodes := ?X\<rparr>)"
    by (rule Q [OF _ ic' rf]) (use l ip(1) in \<open>auto simp: nth_list_update\<close>)
  moreover have "iput ip s = Ret () (s\<lparr>procs := wake (ChInodeLock ip) (procs s), inodes := ?X\<rparr>)"
    using nl l ip(1) running_held [OF run] unfolding iput_def a
    by (auto simp: releasesleep_ino_ok [OF run1] held_same)
  ultimately show ?thesis by simp
qed

section \<open>The state of the cache\<close>

definition fs_inv :: "'x fs_scheme \<Rightarrow> nat set \<Rightarrow> bool" where
  "fs_inv s L \<longleftrightarrow> readable s \<and> ic_ok (view s) (sb s) (p_pid (curproc s)) L (inodes s)"

text \<open>What the operations that leave the disk alone change: the caches.\<close>

definition cached :: "'x fs_scheme \<Rightarrow> 'x fs_scheme \<Rightarrow> bool" where
  "cached s t \<longleftrightarrow> (\<exists>X. rd (s\<lparr>inodes := X\<rparr>) t)"

lemma cached_rd: "rd s t \<Longrightarrow> cached s t"
  unfolding cached_def by (rule exI [of _ "inodes s"]) simp

lemma cached_trans: "cached s t \<Longrightarrow> cached t u \<Longrightarrow> cached s u"
  unfolding cached_def using rd_inodes_trans by blast

lemma cached_fs:
  fixes s t :: "'x fs_scheme"
  assumes "cached s t"
  shows "view t = view s" "sb t = sb s" "cons t = cons s" "held t = held s"
    "readable s \<Longrightarrow> readable t" "readable s \<Longrightarrow> curproc t = curproc s" "dirtyset t = dirtyset s"
proof -
  obtain X where X: "rd (s\<lparr>inodes := X\<rparr>) t" using assms by (auto simp: cached_def)
  show "view t = view s" "sb t = sb s" "cons t = cons s" "held t = held s" using rd_fs [OF X] by simp_all
  show "readable s \<Longrightarrow> readable t" "readable s \<Longrightarrow> curproc t = curproc s"
    using rd_readable [OF X] rd_curproc [OF X] by simp_all
  show "dirtyset t = dirtyset s" using X by (simp add: rd_def)
qed

lemma fs_inv_rd: "rd s t \<Longrightarrow> fs_inv s L \<Longrightarrow> fs_inv t L"
  using rd_fs [of s t] by (auto simp: fs_inv_def rd_curproc intro: rd_readable)

lemma fs_inv_held: "fs_inv s L \<Longrightarrow> held s = []"
  by (auto simp: fs_inv_def dest: readable_running)

lemma fs_inv_slot: "fs_inv s L \<Longrightarrow> i < NINODE \<Longrightarrow> islot (view s) (sb s) (p_pid (curproc s)) L i (inodes s ! i)"
  by (auto simp: fs_inv_def intro: ic_slot)

lemma fs_inv_locked:
  assumes "fs_inv s L" "ip \<in> L" "ip < NINODE"
  shows "icore (inodes s ! ip) = icore (disk_inode (view s) (sb s) (i_inum (inodes s ! ip)))" "0 < i_ref (inodes s ! ip)"
  using fs_inv_slot [OF assms(1,3)] assms(2) by (auto simp: islot_def)

lemma cachedI:
  assumes "rd (s\<lparr>inodes := X\<rparr>) t" "readable s" "ic_ok (view s) (sb s) (p_pid (curproc s)) L X"
  shows "cached s t" "fs_inv t L" "inodes t = X"
proof -
  show c: "cached s t" using assms(1) by (auto simp: cached_def)
  show "inodes t = X" using rd_fs(1) [OF assms(1)] by simp
  then show "fs_inv t L" using assms cached_fs [OF c] by (simp add: fs_inv_def)
qed

lemma wp_fs_iget:
  assumes i: "fs_inv s L" and room: "0 < refs (inodes s) n \<or> card {m. 0 < refs (inodes s) m} < NINODE"
    and Q: "\<And>ip t. cached s t \<Longrightarrow> fs_inv t L \<Longrightarrow> ip < NINODE \<Longrightarrow> i_inum (inodes t ! ip) = n \<Longrightarrow> 0 < i_ref (inodes t ! ip) \<Longrightarrow>
      refs (inodes t) = (refs (inodes s))(n := refs (inodes s) n + 1) \<Longrightarrow>
      (\<And>j. j \<in> L \<Longrightarrow> i_inum (inodes t ! j) = i_inum (inodes s ! j)) \<Longrightarrow> Q ip t"
  shows "wp (iget ROOTDEV n s) Q"
proof (rule wp_iget [OF _ fs_inv_held [OF i] room])
  show "ic_ok (view s) (sb s) (p_pid (curproc s)) L (inodes s)" using i by (simp add: fs_inv_def)
  fix ip X assume X: "ip < NINODE" "ic_ok (view s) (sb s) (p_pid (curproc s)) L X" "i_inum (X ! ip) = n" "0 < i_ref (X ! ip)"
    "refs X = (refs (inodes s))(n := refs (inodes s) n + 1)" "\<And>j. j \<in> L \<Longrightarrow> i_inum (X ! j) = i_inum (inodes s ! j)"
  have r: "readable s" using i by (simp add: fs_inv_def)
  then have "rd (s\<lparr>inodes := X\<rparr>) (s\<lparr>inodes := X\<rparr>)" by (intro rd_refl) simp
  from cachedI [OF this r X(2)] show "Q ip (s\<lparr>inodes := X\<rparr>)" using X by (intro Q) simp_all
qed

lemma wp_fs_ilock:
  assumes i: "fs_inv s L" and ip: "ip < NINODE" "ip \<notin> L" "0 < i_ref (inodes s ! ip)"
    and ld: "loadable (view s) (sb s) (i_inum (inodes s ! ip))"
    and Q: "\<And>t. cached s t \<Longrightarrow> fs_inv t (insert ip L) \<Longrightarrow> refs (inodes t) = refs (inodes s) \<Longrightarrow>
      (\<And>j. j < NINODE \<Longrightarrow> i_inum (inodes t ! j) = i_inum (inodes s ! j) \<and> i_ref (inodes t ! j) = i_ref (inodes s ! j)) \<Longrightarrow> Q () t"
  shows "wp (ilock (Some ip) s) Q"
proof -
  have r: "readable s" and ic: "ic_ok (view s) (sb s) (p_pid (curproc s)) L (inodes s)" using i by (auto simp: fs_inv_def)
  show ?thesis
  proof (rule wp_ilock [OF ic r ip ld])
    fix X t assume X: "rd (s\<lparr>inodes := X\<rparr>) t" "ic_ok (view s) (sb s) (p_pid (curproc s)) (insert ip L) X"
      "refs X = refs (inodes s)" "\<And>j. j < NINODE \<Longrightarrow> i_inum (X ! j) = i_inum (inodes s ! j) \<and> i_ref (X ! j) = i_ref (inodes s ! j)"
    then show "Q () t" using cachedI [OF X(1) r X(2)] by (intro Q) auto
  qed
qed

lemma wp_fs_iunlock:
  assumes i: "fs_inv s L" and ip: "ip < NINODE" "ip \<in> L"
    and Q: "\<And>t. cached s t \<Longrightarrow> fs_inv t (L - {ip}) \<Longrightarrow> refs (inodes t) = refs (inodes s) \<Longrightarrow>
      (\<And>j. j < NINODE \<Longrightarrow> i_inum (inodes t ! j) = i_inum (inodes s ! j) \<and> i_ref (inodes t ! j) = i_ref (inodes s ! j)) \<Longrightarrow> Q () t"
  shows "wp (iunlock (Some ip) s) Q"
proof -
  have r: "readable s" and ic: "ic_ok (view s) (sb s) (p_pid (curproc s)) L (inodes s)" using i by (auto simp: fs_inv_def)
  show ?thesis
  proof (rule wp_iunlock [OF ic r ip])
    fix X t assume X: "rd (s\<lparr>inodes := X\<rparr>) t" "ic_ok (view s) (sb s) (p_pid (curproc s)) (L - {ip}) X"
      "refs X = refs (inodes s)" "\<And>j. j < NINODE \<Longrightarrow> i_inum (X ! j) = i_inum (inodes s ! j) \<and> i_ref (X ! j) = i_ref (inodes s ! j)"
    then show "Q () t" using cachedI [OF X(1) r X(2)] by (intro Q) auto
  qed
qed

lemma wp_fs_iput:
  assumes i: "fs_inv s L" and ip: "ip < NINODE" "ip \<notin> L" "0 < i_ref (inodes s ! ip)"
    and ld: "loadable (view s) (sb s) (i_inum (inodes s ! ip))"
    and Q: "\<And>t. cached s t \<Longrightarrow> fs_inv t L \<Longrightarrow>
      refs (inodes t) = (refs (inodes s))(i_inum (inodes s ! ip) := refs (inodes s) (i_inum (inodes s ! ip)) - 1) \<Longrightarrow>
      (\<And>j. j < NINODE \<Longrightarrow> i_inum (inodes t ! j) = i_inum (inodes s ! j)) \<Longrightarrow>
      (\<And>j. j < NINODE \<Longrightarrow> i_ref (inodes t ! j) = (if j = ip then i_ref (inodes s ! ip) - 1 else i_ref (inodes s ! j))) \<Longrightarrow> Q () t"
  shows "wp (iput ip s) Q"
proof -
  have r: "readable s" and ic: "ic_ok (view s) (sb s) (p_pid (curproc s)) L (inodes s)" using i by (auto simp: fs_inv_def)
  show ?thesis
  proof (rule wp_iput [OF ic r ip])
    show "i_nlink (disk_inode (view s) (sb s) (i_inum (inodes s ! ip))) \<noteq> 0" using ld by (simp add: loadable_def)
    fix X t assume X: "rd (s\<lparr>inodes := X\<rparr>) t" "ic_ok (view s) (sb s) (p_pid (curproc s)) L X"
      "refs X = (refs (inodes s))(i_inum (inodes s ! ip) := refs (inodes s) (i_inum (inodes s ! ip)) - 1)"
      "\<And>j. j < NINODE \<Longrightarrow> i_inum (X ! j) = i_inum (inodes s ! j)"
      "\<And>j. j < NINODE \<Longrightarrow> i_ref (X ! j) = (if j = ip then i_ref (inodes s ! ip) - 1 else i_ref (inodes s ! j))"
    then show "Q () t" using cachedI [OF X(1) r X(2)] by (intro Q) auto
  qed
qed

lemma wp_fs_iunlockput:
  assumes i: "fs_inv s L" and ip: "ip < NINODE" "ip \<in> L"
    and ld: "loadable (view s) (sb s) (i_inum (inodes s ! ip))"
    and Q: "\<And>t. cached s t \<Longrightarrow> fs_inv t (L - {ip}) \<Longrightarrow>
      refs (inodes t) = (refs (inodes s))(i_inum (inodes s ! ip) := refs (inodes s) (i_inum (inodes s ! ip)) - 1) \<Longrightarrow>
      (\<And>j. j < NINODE \<Longrightarrow> i_inum (inodes t ! j) = i_inum (inodes s ! j)) \<Longrightarrow>
      (\<And>j. j < NINODE \<Longrightarrow> i_ref (inodes t ! j) = (if j = ip then i_ref (inodes s ! ip) - 1 else i_ref (inodes s ! j))) \<Longrightarrow> Q () t"
  shows "wp (iunlockput ip s) Q"
  unfolding iunlockput_def wp_kbind
proof (rule wp_fs_iunlock [OF i ip])
  fix t assume t: "cached s t" "fs_inv t (L - {ip})" "refs (inodes t) = refs (inodes s)"
    "\<And>j. j < NINODE \<Longrightarrow> i_inum (inodes t ! j) = i_inum (inodes s ! j) \<and> i_ref (inodes t ! j) = i_ref (inodes s ! j)"
  have n: "i_inum (inodes t ! ip) = i_inum (inodes s ! ip)" using t(4) [OF ip(1)] by simp
  show "wp (iput ip t) Q"
  proof (rule wp_fs_iput [OF t(2) ip(1)])
    show "0 < i_ref (inodes t ! ip)" using fs_inv_locked(2) [OF i ip(2,1)] t(4) [OF ip(1)] by simp
    show "loadable (view t) (sb t) (i_inum (inodes t ! ip))" using ld n cached_fs [OF t(1)] by simp
    fix u assume "cached t u" "fs_inv u (L - {ip})"
      "refs (inodes u) = (refs (inodes t))(i_inum (inodes t ! ip) := refs (inodes t) (i_inum (inodes t ! ip)) - 1)"
      "\<And>j. j < NINODE \<Longrightarrow> i_inum (inodes u ! j) = i_inum (inodes t ! j)"
      "\<And>j. j < NINODE \<Longrightarrow> i_ref (inodes u ! j) = (if j = ip then i_ref (inodes t ! ip) - 1 else i_ref (inodes t ! j))"
    then show "Q () u" using t n ip(1) by (intro Q) (auto intro: cached_trans)
  qed simp
qed

end
