(* ===== verification/Path.thy ===== *)
theory Path
  imports Icache
begin

text \<open>
  Directories and path names of \<^verbatim>\<open>fs.c\<close>: \<^verbatim>\<open>dirlookup\<close> finds the inode a name stands for, and \<^verbatim>\<open>namei\<close> follows the elements of
  a path through the directories on disk, with every reference it takes given back but that of the result.
\<close>

section \<open>Directories\<close>

text \<open>The entries of a directory and the inode that a name stands for: that of the first entry in use with the name.\<close>

definition entries :: "bytes \<Rightarrow> bytes list" where
  "entries c = map (\<lambda>i. slice (16 * i) 16 c) [0..<length c div 16]"

definition dir_find :: "bytes list \<Rightarrow> bytes \<Rightarrow> u32 option" where
  "dir_find es name = map_option (\<lambda>de. ucast (de_inum de)) (find (\<lambda>de. de_inum de \<noteq> 0 \<and> cstr (de_name de) = name) es)"

text \<open>An array as \<^verbatim>\<open>skipelem\<close> fills it: the name, with a NUL unless it has \<^verbatim>\<open>DIRSIZ\<close> characters.\<close>

definition name_array :: "bytes \<Rightarrow> bytes \<Rightarrow> bool" where
  "name_array a name \<longleftrightarrow> cstr a = name \<and> length name \<le> DIRSIZ \<and> (terminated a \<or> length a = DIRSIZ)"

lemma namecmp_name:
  assumes "name_array a name" "length e = 16"
  shows "\<exists>r. namecmp a (de_name e) = Some r \<and> (r = 0 \<longleftrightarrow> cstr (de_name e) = name)"
proof -
  have e: "length (de_name e) = 14" using assms(2) by (simp add: de_name_def)
  then have "length (cstr (de_name e)) \<le> 14" unfolding cstr_def by (metis length_takeWhile_le)
  then show ?thesis using strncmp_eq_iff [of a DIRSIZ "de_name e"] assms e by (auto simp: namecmp_def name_array_def)
qed

lemma icore_content:
  assumes "icore x = icore y"
  shows "content v x = content v y" "file_ok v x = file_ok v y"
  using icore_fields [OF assms] by (simp_all add: content_def file_byte_def file_block_def file_ok_def mapped_def fun_eq_iff)

definition dir_ok :: "(u32 \<Rightarrow> bytes) \<Rightarrow> inode \<Rightarrow> bool" where
  "dir_ok v i \<longleftrightarrow> file_ok v i \<and> i_type i = T_DIR \<and> 16 dvd unat (i_size i)"

lemma wp_dirlookup_from:
  fixes s :: "'x fs_scheme"
  assumes "fs_inv s L" "dp \<in> L" "dp < NINODE" and dir: "dir_ok (view s) (inodes s ! dp)" and a: "name_array a name"
    and es: "es = entries (content (view s) (inodes s ! dp))" and j: "j \<le> length es"
    and room: "card {m. 0 < refs (inodes s) m} < NINODE"
    and Q0: "\<And>t. rd s t \<Longrightarrow> dir_find (drop j es) name = None \<Longrightarrow> Q None t"
    and Q1: "\<And>n ip off t. dir_find (drop j es) name = Some n \<Longrightarrow> cached s t \<Longrightarrow> fs_inv t L \<Longrightarrow> ip < NINODE \<Longrightarrow>
      i_inum (inodes t ! ip) = n \<Longrightarrow> 0 < i_ref (inodes t ! ip) \<Longrightarrow>
      refs (inodes t) = (refs (inodes s))(n := refs (inodes s) n + 1) \<Longrightarrow>
      (\<And>j. j \<in> L \<Longrightarrow> i_inum (inodes t ! j) = i_inum (inodes s ! j)) \<Longrightarrow> Q (Some (ip, off)) t"
  shows "wp (kfind (map (\<lambda>i. 16 * i) [j..<length es]) (dirlookup_try dp a) s) Q"
  using assms
proof (induction "length es - j" arbitrary: j s)
  case 0
  then have "j = length es" by simp
  moreover have "rd s s" using "0.prems"(1) by (simp add: fs_inv_def)
  ultimately show ?case using "0.prems"(9) by (simp add: dir_find_def)
next
  case (Suc k)
  note inv = Suc.prems(1) and dir = Suc.prems(4) and es = Suc.prems(6)
  let ?c = "content (view s) (inodes s ! dp)" and ?e = "es ! j"
  have jl: "j < length es" using Suc.hyps(2) by simp
  have r: "readable s" using inv by (simp add: fs_inv_def)
  have z: "length ?c \<le> 71680" and fo: "file_ok (view s) (inodes s ! dp)" using dir by (auto simp: dir_ok_def file_ok_def)
  have je: "j < length ?c div 16" using jl es by (simp add: entries_def)
  then have jc: "16 * j + 16 \<le> length ?c" by linarith
  have e: "?e = slice (16 * j) 16 ?c" "length ?e = 16" using je jc es by (simp_all add: entries_def)
  have res: "readi_result ?c (of_nat (16 * j)) 16 = (16, ?e)"
  proof -
    have u: "unat (of_nat (16 * j) :: u32) = 16 * j" using jc z by (intro unat_of_nat_u32) simp
    have "length (take 16 (drop (16 * j) ?c)) = 16" using jc by simp
    then show ?thesis unfolding readi_result_def u Let_def using jc z by (simp add: e(1) slice_def)
  qed
  have up: "map (\<lambda>i. 16 * i) [j..<length es] = 16 * j # map (\<lambda>i. 16 * i) [Suc j..<length es]"
    using jl by (simp add: upt_conv_Cons)
  have dr: "drop j es = ?e # drop (Suc j) es" using jl by (simp add: Cons_nth_drop_Suc)
  obtain c where c: "namecmp a (de_name ?e) = Some c" "c = 0 \<longleftrightarrow> cstr (de_name ?e) = name"
    using namecmp_name [OF Suc.prems(5) e(2)] by blast
  have rest: "wp (kfind (map (\<lambda>i. 16 * i) [Suc j..<length es]) (dirlookup_try dp a) t) Q"
    if t: "rd s t" and no: "\<not> (de_inum ?e \<noteq> 0 \<and> cstr (de_name ?e) = name)" for t
  proof (rule Suc.hyps(1))
    note f = rd_fs [OF t]
    have df: "dir_find (drop j es) name = dir_find (drop (Suc j) es) name" using no unfolding dr by (auto simp: dir_find_def)
    show "k = length es - Suc j" using Suc.hyps(2) by simp
    show "fs_inv t L" by (rule fs_inv_rd [OF t inv])
    show "dp \<in> L" "dp < NINODE" "name_array a name" by fact+
    show "dir_ok (view t) (inodes t ! dp)" "es = entries (content (view t) (inodes t ! dp))"
      "card {m. 0 < refs (inodes t) m} < NINODE" using dir es Suc.prems(8) f by simp_all
    show "Suc j \<le> length es" using jl by simp
    show "Q None u" if "rd t u" "dir_find (drop (Suc j) es) name = None" for u
      using that df rd_trans [OF t] by (intro Suc.prems(9)) simp_all
    show "Q (Some (ip, off)) u" if "dir_find (drop (Suc j) es) name = Some n" "cached t u" "fs_inv u L" "ip < NINODE"
      "i_inum (inodes u ! ip) = n" "0 < i_ref (inodes u ! ip)" "refs (inodes u) = (refs (inodes t))(n := refs (inodes t) n + 1)"
      "\<And>j. j \<in> L \<Longrightarrow> i_inum (inodes u ! j) = i_inum (inodes t ! j)" for n ip off u
      using that df f cached_trans [OF cached_rd [OF t]] by (intro Suc.prems(10)) simp_all
  qed
  have found: "wp (iget (i_dev (inodes t ! dp)) (ucast (de_inum ?e)) t) (\<lambda>ip s. Q (Some (ip, of_nat (16 * j))) s)"
    if t: "rd s t" and yes: "de_inum ?e \<noteq> 0" "cstr (de_name ?e) = name" for t
  proof -
    note f = rd_fs [OF t]
    have df: "dir_find (drop j es) name = Some (ucast (de_inum ?e))" using yes unfolding dr by (simp add: dir_find_def)
    have "wp (iget ROOTDEV (ucast (de_inum ?e)) t) (\<lambda>ip s. Q (Some (ip, of_nat (16 * j))) s)"
      by (rule wp_fs_iget [OF fs_inv_rd [OF t inv]])
        (use Suc.prems(8) f df cached_trans [OF cached_rd [OF t]] in \<open>auto intro!: Suc.prems(10)\<close>)
    moreover have "i_dev (inodes t ! dp) = ROOTDEV" using fo f by (simp add: file_ok_def)
    ultimately show ?thesis by simp
  qed
  have "wp (readi_ino dp (of_nat (16 * j)) 16 s) (\<lambda>x t. x = (16, ?e) \<and> rd s t)"
    by (rule wp_readi_ino [OF r fo]) (use res in simp)
  then have "wp (dirlookup_try dp a (16 * j) s) (\<lambda>r s. wp (case r of
      None \<Rightarrow> kfind (map (\<lambda>i. 16 * i) [Suc j..<length es]) (dirlookup_try dp a) s | Some x \<Rightarrow> Ret (Some x) s) Q)"
    unfolding dirlookup_try_def [of dp a "16 * j" s] wp_kbind
    by (rule wp_mono) (use c found rest in auto)
  then show ?case unfolding up by simp
qed

lemma wp_dirlookup:
  fixes s :: "'x fs_scheme"
  assumes i: "fs_inv s L" and dp: "dp \<in> L" "dp < NINODE" and dir: "dir_ok (view s) (inodes s ! dp)" and a: "name_array a name"
    and es: "es = entries (content (view s) (inodes s ! dp))" and room: "card {m. 0 < refs (inodes s) m} < NINODE"
    and Q0: "\<And>t. rd s t \<Longrightarrow> dir_find es name = None \<Longrightarrow> Q None t"
    and Q1: "\<And>n ip off t. dir_find es name = Some n \<Longrightarrow> cached s t \<Longrightarrow> fs_inv t L \<Longrightarrow> ip < NINODE \<Longrightarrow>
      i_inum (inodes t ! ip) = n \<Longrightarrow> 0 < i_ref (inodes t ! ip) \<Longrightarrow>
      refs (inodes t) = (refs (inodes s))(n := refs (inodes s) n + 1) \<Longrightarrow>
      (\<And>j. j \<in> L \<Longrightarrow> i_inum (inodes t ! j) = i_inum (inodes s ! j)) \<Longrightarrow> Q (Some (ip, off)) t"
  shows "wp (dirlookup dp a s) Q"
proof -
  obtain k where k: "unat (i_size (inodes s ! dp)) = 16 * k" using dir by (auto simp: dir_ok_def)
  have "(16 * k + 15) div 16 = k" by simp
  then have "dirents (i_size (inodes s ! dp)) = map (\<lambda>i. 16 * i) [0..<length es]" using k es by (simp add: dirents_def entries_def)
  moreover have "wp (kfind (map (\<lambda>i. 16 * i) [0..<length es]) (dirlookup_try dp a) s) Q"
    by (rule wp_dirlookup_from [OF i dp dir a es _ room]) (use Q0 Q1 in auto)
  ultimately show ?thesis using dir by (simp add: dirlookup_def dir_ok_def)
qed

section \<open>Path names\<close>

text \<open>The elements of a path, and the walk they describe through the directories on disk.\<close>

function path_elems :: "bytes \<Rightarrow> bytes list" where
  "path_elems path = (let p = dropWhile (\<lambda>c. c = SLASH) path in
     if p = [] then [] else takeWhile (\<lambda>c. c \<noteq> SLASH) p # path_elems (dropWhile (\<lambda>c. c \<noteq> SLASH) p))"
  by auto
termination
proof (relation "measure length", simp)
  fix path p :: bytes assume p: "p = dropWhile (\<lambda>c. c = SLASH) path" "p \<noteq> []"
  then have "hd p \<noteq> SLASH" using hd_dropWhile [of "\<lambda>c. c = SLASH" path] by simp
  then have "length (dropWhile (\<lambda>c. c \<noteq> SLASH) p) < length p"
    using p(2) length_dropWhile_le [of "\<lambda>c. c \<noteq> SLASH" "tl p"] by (cases p) auto
  also have "\<dots> \<le> length path" using p(1) by (simp add: length_dropWhile_le)
  finally show "(dropWhile (\<lambda>c. c \<noteq> SLASH) p, path) \<in> measure length" by simp
qed

declare path_elems.simps [simp del]

fun walk_path :: "(u32 \<Rightarrow> bytes) \<Rightarrow> superblock \<Rightarrow> u32 \<Rightarrow> bytes list \<Rightarrow> u32 option" where
  "walk_path v sp n [] = Some n"
| "walk_path v sp n (e # es) =
     (if i_type (disk_inode v sp n) \<noteq> T_DIR then None
      else case dir_find (entries (content v (disk_inode v sp n))) (take DIRSIZ e) of
        None \<Rightarrow> None | Some m \<Rightarrow> walk_path v sp m es)"

text \<open>A set of inodes in use that is closed under the entries of its directories.\<close>

definition tree_ok :: "(u32 \<Rightarrow> bytes) \<Rightarrow> superblock \<Rightarrow> u32 set \<Rightarrow> bool" where
  "tree_ok v sp S \<longleftrightarrow> (\<forall>n \<in> S. loadable v sp n \<and> (i_type (disk_inode v sp n) = T_DIR \<longrightarrow> dir_ok v (disk_inode v sp n) \<and>
     (\<forall>name m. dir_find (entries (content v (disk_inode v sp n))) name = Some m \<longrightarrow> m \<in> S)))"

lemma path_elems_slash: "path_elems (dropWhile (\<lambda>c. c = SLASH) p) = path_elems p"
  by (subst (1 2) path_elems.simps) simp

lemma skipelem_elems:
  assumes "0 \<notin> set path"
  shows "case skipelem path of None \<Rightarrow> path_elems path = []
    | Some (rest, a) \<Rightarrow> 0 \<notin> set rest \<and> (\<exists>e. path_elems path = e # path_elems rest \<and> name_array a (take DIRSIZ e))"
proof (cases "dropWhile (\<lambda>c. c = SLASH) path = []")
  case True
  then show ?thesis by (subst path_elems.simps) (simp add: skipelem_def)
next
  case False
  define p where "p = dropWhile (\<lambda>c. c = SLASH) path"
  define e where "e = takeWhile (\<lambda>c. c \<noteq> SLASH) p"
  define rest where "rest = dropWhile (\<lambda>c. c = SLASH) (dropWhile (\<lambda>c. c \<noteq> SLASH) p)"
  let ?a = "if length e \<ge> DIRSIZ then take DIRSIZ e else e @ [0]"
  have sk: "skipelem path = Some (rest, ?a)" using False by (simp add: skipelem_def Let_def p_def e_def rest_def)
  have nul: "0 \<notin> set p" "0 \<notin> set e" "0 \<notin> set rest"
    using assms by (auto simp: p_def e_def rest_def dest!: set_dropWhileD set_takeWhileD)
  have pe: "path_elems path = e # path_elems rest"
    unfolding rest_def path_elems_slash
    by (subst path_elems.simps) (use False in \<open>simp add: Let_def p_def e_def\<close>)
  have "cstr (take DIRSIZ e) = take DIRSIZ e"
    using nul(2) by (auto simp: cstr_def takeWhile_eq_all_conv dest: in_set_takeD)
  moreover have "cstr (e @ [0]) = e" using nul(2) by simp
  ultimately have "name_array ?a (take DIRSIZ e)" by (auto simp: name_array_def)
  then show ?thesis using sk pe nul by simp
qed

lemma finite_refs:
  assumes "ic_ok v sp pid L xs"
  shows "finite {m. 0 < refs xs m}"
proof -
  have "{m. 0 < refs xs m} \<subseteq> (\<lambda>i. i_inum (xs ! i)) ` {..<NINODE}"
    using refs_pos [of xs] assms by (fastforce simp: ic_ok_def)
  then show ?thesis by (rule finite_subset) simp
qed

lemma card_refs_upd:
  assumes "finite {m. 0 < b m}"
  shows "card {m. 0 < (b(n := b n + 1 :: int)) m} \<le> Suc (card {m :: u32. 0 < b m})"
proof -
  have "{m. 0 < (b(n := b n + 1)) m} \<subseteq> insert n {m. 0 < b m}" by auto
  then have "card {m. 0 < (b(n := b n + 1)) m} \<le> card (insert n {m. 0 < b m})" using assms by (intro card_mono) auto
  also have "\<dots> \<le> Suc (card {m. 0 < b m})" using assms by (simp only: card_insert_if) auto
  finally show ?thesis .
qed

lemma finite_refs_upd: "finite {m. 0 < (b(n := b n + 1 :: int)) m} \<Longrightarrow> finite {m :: u32. 0 < b m}"
  by (rule finite_subset [of _ "insert n {m. 0 < (b(n := b n + 1)) m}"]) auto

lemma fun_upd_undo: "refs X = (b(n := b n + 1))(n := (b(n := b n + 1)) n - 1) \<Longrightarrow> refs X = b"
  by (simp add: fun_upd_idem)

lemma wp_namex_loop:
  fixes s :: "'x fs_scheme"
  assumes "fs_inv s {}" "tree_ok (view s) (sb s) S" "ip < NINODE" "0 < i_ref (inodes s ! ip)" "i_inum (inodes s ! ip) = n" "n \<in> S"
    "refs (inodes s) = b(n := b n + 1)" "card {m. 0 < b m} + 2 \<le> NINODE" "0 \<notin> set path"
    "\<And>t. walk_path (view s) (sb s) n (path_elems path) = None \<Longrightarrow> cached s t \<Longrightarrow> fs_inv t {} \<Longrightarrow> refs (inodes t) = b \<Longrightarrow> Q None t"
    "\<And>m ip' a t. walk_path (view s) (sb s) n (path_elems path) = Some m \<Longrightarrow> cached s t \<Longrightarrow> fs_inv t {} \<Longrightarrow> ip' < NINODE \<Longrightarrow>
      i_inum (inodes t ! ip') = m \<Longrightarrow> 0 < i_ref (inodes t ! ip') \<Longrightarrow> refs (inodes t) = b(m := b m + 1) \<Longrightarrow> Q (Some (ip', a)) t"
  shows "wp (namex_loop False ip path name s) Q"
  using assms
proof (induction "length path" arbitrary: ip path name s n rule: less_induct)
  case less
  note inv = less.prems(1) and tree = less.prems(2) and ip = less.prems(3,4) and n = less.prems(5,6)
    and rf = less.prems(7) and room = less.prems(8) and Qn = less.prems(10) and Qs = less.prems(11)
  have r: "readable s" and ic: "ic_ok (view s) (sb s) (p_pid (curproc s)) {} (inodes s)" using inv by (auto simp: fs_inv_def)
  have ld: "loadable (view s) (sb s) n" using tree n by (auto simp: tree_ok_def)
  show ?case
  proof (cases "skipelem path")
    case None
    then have "path_elems path = []" using skipelem_elems [OF less.prems(9)] by simp
    then have "Q (Some (ip, name)) s" using inv ip n rf cached_rd [OF rd_refl [OF r]] by (intro Qs) auto
    then show ?thesis using None by (simp add: namex_loop.simps)
  next
    case (Some x)
    obtain rest a where x: "x = (rest, a)" by (cases x)
    obtain e where e: "0 \<notin> set rest" "path_elems path = e # path_elems rest" "name_array a (take DIRSIZ e)"
      using skipelem_elems [OF less.prems(9)] Some x by auto
    have sh: "length rest < length path" using skipelem_shorter Some x by simp
    let ?K = "\<lambda>_ s. wp (if i_type (inodes s ! ip) \<noteq> T_DIR then kbind (iunlockput ip s) (\<lambda>_ s. Ret None s)
          else if False \<and> rest = [] then kbind (iunlock (Some ip) s) (\<lambda>_ s. Ret (Some (ip, a)) s)
          else
            kbind (dirlookup ip a s) (\<lambda>r s.
            case r of
              None \<Rightarrow> kbind (iunlockput ip s) (\<lambda>_ s. Ret None s)
            | Some (next, _) \<Rightarrow> kbind (iunlockput ip s) (\<lambda>_ s. namex_loop False next rest a s))) Q"
    have "wp (ilock (Some ip) s) ?K"
    proof (rule wp_fs_ilock [OF inv ip(1) _ ip(2)])
      show "loadable (view s) (sb s) (i_inum (inodes s ! ip))" using ld n by simp
      fix t assume t: "cached s t" "fs_inv t (insert ip {})" "refs (inodes t) = refs (inodes s)"
        "\<And>j. j < NINODE \<Longrightarrow> i_inum (inodes t ! j) = i_inum (inodes s ! j) \<and> i_ref (inodes t ! j) = i_ref (inodes s ! j)"
      note f = cached_fs [OF t(1)]
      have nt: "i_inum (inodes t ! ip) = n" using t(4) [OF ip(1)] n by simp
      have core: "icore (inodes t ! ip) = icore (disk_inode (view s) (sb s) n)"
        using fs_inv_locked(1) [OF t(2) _ ip(1)] nt f by simp
      have unlock: "wp (iunlockput ip u) (\<lambda>_ w. Q None w)"
        if u: "cached s u" "fs_inv u {ip}" "refs (inodes u) = refs (inodes s)" "i_inum (inodes u ! ip) = n"
          "walk_path (view s) (sb s) n (path_elems path) = None" for u
      proof (rule wp_fs_iunlockput [OF u(2) ip(1)])
        show "loadable (view u) (sb u) (i_inum (inodes u ! ip))" using ld u(4) cached_fs [OF u(1)] by simp
        fix w assume "cached u w" "fs_inv w ({ip} - {ip})"
          "refs (inodes w) = (refs (inodes u))(i_inum (inodes u ! ip) := refs (inodes u) (i_inum (inodes u ! ip)) - 1)"
        then show "Q None w" using u rf by (intro Qn) (auto intro: cached_trans fun_upd_undo)
      qed simp
      show "?K () t"
      proof (cases "i_type (disk_inode (view s) (sb s) n) = T_DIR")
        case False
        then have "walk_path (view s) (sb s) n (path_elems path) = None" by (simp add: e(2))
        then have "wp (iunlockput ip t) (\<lambda>_ w. Q None w)" using t nt by (intro unlock) auto
        then show ?thesis using False icore_fields(1) [OF core] by simp
      next
        case True
        let ?es = "entries (content (view s) (disk_inode (view s) (sb s) n))"
        have dir: "dir_ok (view s) (disk_inode (view s) (sb s) n)" and closed: "\<And>m. dir_find ?es (take DIRSIZ e) = Some m \<Longrightarrow> m \<in> S"
          using tree n True by (auto simp: tree_ok_def)
        have es: "?es = entries (content (view t) (inodes t ! ip))" using icore_content(1) [OF core] f by simp
        have dt: "dir_ok (view t) (inodes t ! ip)"
          using dir icore_content(2) [OF core] icore_fields [OF core] f by (simp add: dir_ok_def)
        have fb: "finite {m. 0 < b m}" using finite_refs [OF ic] unfolding rf by (rule finite_refs_upd)
        have rm: "card {m. 0 < refs (inodes t) m} < NINODE" using card_refs_upd [OF fb, of n] room t(3) rf by simp
        have "wp (dirlookup ip a t) (\<lambda>r s. wp (case r of
              None \<Rightarrow> kbind (iunlockput ip s) (\<lambda>_ s. Ret None s)
            | Some (next, _) \<Rightarrow> kbind (iunlockput ip s) (\<lambda>_ s. namex_loop False next rest a s)) Q)"
        proof (rule wp_dirlookup [OF t(2) _ ip(1) dt e(3) es rm])
          show "ip \<in> {ip}" by simp
          fix u assume u: "rd t u" "dir_find ?es (take DIRSIZ e) = None"
          then have "walk_path (view s) (sb s) n (path_elems path) = None" by (simp add: e(2))
          moreover have "cached s u" using cached_trans [OF t(1) cached_rd [OF u(1)]] .
          ultimately have "wp (iunlockput ip u) (\<lambda>_ w. Q None w)"
            using t(3) nt rd_fs [OF u(1)] fs_inv_rd [OF u(1) t(2)] by (intro unlock) auto
          then show "wp (case None of None \<Rightarrow> kbind (iunlockput ip u) (\<lambda>_ s. Ret None s)
            | Some (next, _) \<Rightarrow> kbind (iunlockput ip u) (\<lambda>_ s. namex_loop False next rest a s)) Q" by simp
        next
          fix m nx off u
          assume u: "dir_find ?es (take DIRSIZ e) = Some m" "cached t u" "fs_inv u {ip}" "nx < NINODE" "i_inum (inodes u ! nx) = m"
            "0 < i_ref (inodes u ! nx)" "refs (inodes u) = (refs (inodes t))(m := refs (inodes t) m + 1)"
            "\<And>j. j \<in> {ip} \<Longrightarrow> i_inum (inodes u ! j) = i_inum (inodes t ! j)"
          have su: "cached s u" by (rule cached_trans [OF t(1) u(2)])
          have nu: "i_inum (inodes u ! ip) = n" using u(8) nt by simp
          have icu: "ic_ok (view u) (sb u) (p_pid (curproc u)) {ip} (inodes u)" using u(3) by (simp add: fs_inv_def)
          have "wp (iunlockput ip u) (\<lambda>_ s. wp (namex_loop False nx rest a s) Q)"
          proof (rule wp_fs_iunlockput [OF u(3) ip(1)])
            show "loadable (view u) (sb u) (i_inum (inodes u ! ip))" using ld nu cached_fs [OF su] by simp
            fix w assume w: "cached u w" "fs_inv w ({ip} - {ip})"
              "refs (inodes w) = (refs (inodes u))(i_inum (inodes u ! ip) := refs (inodes u) (i_inum (inodes u ! ip)) - 1)"
              "\<And>j. j < NINODE \<Longrightarrow> i_inum (inodes w ! j) = i_inum (inodes u ! j)"
              "\<And>j. j < NINODE \<Longrightarrow> i_ref (inodes w ! j) = (if j = ip then i_ref (inodes u ! ip) - 1 else i_ref (inodes u ! j))"
            have sw: "cached s w" by (rule cached_trans [OF su w(1)])
            note fw = cached_fs [OF sw]
            have rw: "refs (inodes w) = b(m := b m + 1)"
              unfolding w(3) u(7) t(3) rf nu by (auto simp: fun_eq_iff)
            have wk: "walk_path (view s) (sb s) n (path_elems path) = walk_path (view s) (sb s) m (path_elems rest)"
              using True u(1) by (simp add: e(2))
            have pos: "0 < i_ref (inodes w ! nx)"
            proof (cases "nx = ip")
              case True
              have "i_ref (inodes u ! ip) = refs (inodes u) n" using refs_at(2) [OF icu ip(1)] u(6) nu True by simp
              also have "\<dots> = b n + 2" unfolding u(7) t(3) rf using u(5) nu True by simp
              finally have "i_ref (inodes u ! ip) = b n + 2" .
              moreover have "0 < b n + 1" using refs_at(2) [OF ic ip(1,2)] ip(2) n rf by simp
              ultimately show ?thesis using w(5) [OF u(4)] True by simp
            next
              case False
              then show ?thesis using w(5) [OF u(4)] u(6) by simp
            qed
            show "wp (namex_loop False nx rest a w) Q"
            proof (rule less.hyps [OF sh])
              show "fs_inv w {}" using w(2) by simp
              show "tree_ok (view w) (sb w) S" using tree fw by simp
              show "nx < NINODE" "0 < i_ref (inodes w ! nx)" by fact+
              show "i_inum (inodes w ! nx) = m" using w(4) [OF u(4)] u(5) by simp
              show "m \<in> S" by (rule closed [OF u(1)])
              show "refs (inodes w) = b(m := b m + 1)" by (rule rw)
              show "card {m. 0 < b m} + 2 \<le> NINODE" "0 \<notin> set rest" by fact+
            next
              fix t' assume "walk_path (view w) (sb w) m (path_elems rest) = None" "cached w t'" "fs_inv t' {}" "refs (inodes t') = b"
              then show "Q None t'" using wk fw cached_trans [OF sw] by (intro Qn) auto
            next
              fix k ip' a' t'
              assume "walk_path (view w) (sb w) m (path_elems rest) = Some k" "cached w t'" "fs_inv t' {}" "ip' < NINODE"
                "i_inum (inodes t' ! ip') = k" "0 < i_ref (inodes t' ! ip')" "refs (inodes t') = b(k := b k + 1)"
              then show "Q (Some (ip', a')) t'" using wk fw cached_trans [OF sw] by (intro Qs) auto
            qed
          qed simp
          then show "wp (case Some (nx, off) of None \<Rightarrow> kbind (iunlockput ip u) (\<lambda>_ s. Ret None s)
            | Some (next, _) \<Rightarrow> kbind (iunlockput ip u) (\<lambda>_ s. namex_loop False next rest a s)) Q" by simp
        qed
        then show ?thesis using True icore_fields(1) [OF core] by simp
      qed
    qed simp
    then show ?thesis by (subst namex_loop.simps) (simp add: Some x)
  qed
qed

lemma wp_fs_idup:
  assumes i: "fs_inv s L" and ip: "ip < NINODE" "0 < i_ref (inodes s ! ip)"
    and Q: "\<And>t. cached s t \<Longrightarrow> fs_inv t L \<Longrightarrow> i_inum (inodes t ! ip) = i_inum (inodes s ! ip) \<Longrightarrow> 0 < i_ref (inodes t ! ip) \<Longrightarrow>
      refs (inodes t) = (refs (inodes s))(i_inum (inodes s ! ip) := refs (inodes s) (i_inum (inodes s ! ip)) + 1) \<Longrightarrow> Q ip t"
  shows "wp (idup ip s) Q"
proof -
  let ?xs = "inodes s" let ?x = "?xs ! ip" let ?y = "?x\<lparr>i_ref := i_ref ?x + 1\<rparr>" let ?pid = "p_pid (curproc s)"
  have r: "readable s" and ic: "ic_ok (view s) (sb s) ?pid L ?xs" using i by (auto simp: fs_inv_def)
  have l: "length ?xs = NINODE" using ic by (simp add: ic_ok_def)
  have "islot (view s) (sb s) ?pid L ip ?y" using ic_slot [OF ic ip(1)] ip by (auto simp: islot_def icore_def)
  then have ic': "ic_ok (view s) (sb s) ?pid L (?xs[ip := ?y])" using ip by (intro ic_ok_upd_same [OF ic ip(1)]) auto
  have rf: "refs (?xs[ip := ?y]) = (refs ?xs)(i_inum ?x := refs ?xs (i_inum ?x) + 1)"
    using refs_upd [OF ic ic' ip(1)] ip refs_at(2) [OF ic ip] by simp
  have "rd (s\<lparr>inodes := ?xs[ip := ?y]\<rparr>) (s\<lparr>inodes := ?xs[ip := ?y]\<rparr>)" using r by (intro rd_refl) simp
  from cachedI [OF this r ic'] have "Q ip (s\<lparr>inodes := ?xs[ip := ?y]\<rparr>)" using l ip rf by (intro Q) simp_all
  then show ?thesis using fs_inv_held [OF i] by (simp add: idup_def held_same)
qed

text \<open>The inode a path starts from: the root, or the current directory of the process.\<close>

definition path_start :: "'x fs_scheme \<Rightarrow> bytes \<Rightarrow> u32" where
  "path_start s path = (if path \<noteq> [] \<and> hd path = SLASH then ROOTINO else i_inum (inodes s ! the (p_cwd (curproc s))))"

definition start_ok :: "'x fs_scheme \<Rightarrow> bytes \<Rightarrow> bool" where
  "start_ok s path \<longleftrightarrow> path \<noteq> [] \<and> hd path = SLASH \<or>
     (\<exists>c. p_cwd (curproc s) = Some c \<and> c < NINODE \<and> 0 < i_ref (inodes s ! c))"

lemma wp_namei:
  fixes s :: "'x fs_scheme"
  assumes i: "fs_inv s {}" and tree: "tree_ok (view s) (sb s) S" and st: "path_start s path \<in> S" and cwd: "start_ok s path"
    and room: "card {m. 0 < refs (inodes s) m} + 2 \<le> NINODE" and nul: "0 \<notin> set path"
    and Q: "\<And>r t. cached s t \<Longrightarrow> fs_inv t {} \<Longrightarrow> (case walk_path (view s) (sb s) (path_start s path) (path_elems path) of
        None \<Rightarrow> r = None \<and> refs (inodes t) = refs (inodes s)
      | Some m \<Rightarrow> (\<exists>ip<NINODE. r = Some ip \<and> i_inum (inodes t ! ip) = m \<and> 0 < i_ref (inodes t ! ip) \<and>
          refs (inodes t) = (refs (inodes s))(m := refs (inodes s) m + 1))) \<Longrightarrow> Q r t"
  shows "wp (namei path s) Q"
proof -
  let ?n = "path_start s path" and ?b = "refs (inodes s)"
  have loop: "wp (namex_loop False ip path [] t) (\<lambda>r u. Q (map_option fst r) u)"
    if t: "cached s t" "fs_inv t {}" "ip < NINODE" "0 < i_ref (inodes t ! ip)" "i_inum (inodes t ! ip) = ?n"
      "refs (inodes t) = ?b(?n := ?b ?n + 1)" for ip t
  proof (rule wp_namex_loop [OF t(2) _ t(3-5) st t(6) room nul])
    note f = cached_fs [OF t(1)]
    show "tree_ok (view t) (sb t) S" using tree f by simp
    show "Q (map_option fst None) u"
      if "walk_path (view t) (sb t) ?n (path_elems path) = None" "cached t u" "fs_inv u {}" "refs (inodes u) = ?b" for u
      using that f cached_trans [OF t(1)] by (intro Q) auto
    show "Q (map_option fst (Some (ip', a))) u"
      if "walk_path (view t) (sb t) ?n (path_elems path) = Some m" "cached t u" "fs_inv u {}" "ip' < NINODE"
        "i_inum (inodes u ! ip') = m" "0 < i_ref (inodes u ! ip')" "refs (inodes u) = ?b(m := ?b m + 1)" for m ip' a u
      using that f cached_trans [OF t(1)] by (intro Q) auto
  qed
  have "wp (namex path False s) (\<lambda>r u. Q (map_option fst r) u)"
  proof (cases "path \<noteq> [] \<and> hd path = SLASH")
    case True
    have "wp (iget ROOTDEV ROOTINO s) (\<lambda>ip t. wp (namex_loop False ip path [] t) (\<lambda>r u. Q (map_option fst r) u))"
      by (rule wp_fs_iget [OF i]) (use room True in \<open>auto intro!: loop simp: path_start_def\<close>)
    then show ?thesis using True by (simp add: namex_def)
  next
    case False
    obtain c where c: "p_cwd (curproc s) = Some c" "c < NINODE" "0 < i_ref (inodes s ! c)" using cwd False by (auto simp: start_ok_def)
    have n: "?n = i_inum (inodes s ! c)" using False c by (auto simp: path_start_def)
    have "running s" using i by (auto simp: fs_inv_def dest: readable_running)
    then obtain p where p: "myproc s = Some p" "curproc s = procs s ! p" by (auto simp: running_def curproc_def)
    have "wp (idup c s) (\<lambda>ip t. wp (namex_loop False ip path [] t) (\<lambda>r u. Q (map_option fst r) u))"
      by (rule wp_fs_idup [OF i c(2,3)]) (use c n in \<open>auto intro!: loop\<close>)
    then show ?thesis using False p c unfolding namex_def by auto
  qed
  then show ?thesis by (simp add: namei_def)
qed

section \<open>Sample file systems\<close>

text \<open>The state at rest on a disk with given blocks.\<close>

definition fs_on :: "(u32 \<Rightarrow> bytes) \<Rightarrow> fs" where
  "fs_on d = fs_boot\<lparr>disk := \<lambda>_. d\<rparr>"

lemma fs_on:
  assumes "\<And>k. length (d k) = BSIZE"
  shows "bio_inv (fs_on d) {}" "view (fs_on d) = d" "dirtyset (fs_on d) = {}"
proof -
  let ?s = "fs_boot\<lparr>bufs := replicate (NBUF + 1) buf_zero, disk := \<lambda>_. d\<rparr>"
  have e: "fs_on d = binit ?s"
    by (simp add: fs_on_def fs_boot_def log_boot_def bio_boot_def binit_def kbase.defs kmem.defs bio.defs log.defs fs.defs)
  have "bio_inv (binit ?s) {} \<and> view (binit ?s) = disk ?s 1 \<and> dirtyset (binit ?s) = {}"
  proof (rule bio_inv_binit)
    show "running ?s" by (simp add: running_def myproc_def kbase_run_def kbase_boot_def)
  qed (use assms in \<open>simp_all add: fs_boot_def log_boot_def bio_boot_def binit_def kbase.defs kmem.defs bio.defs log.defs fs.defs\<close>)
  then show "bio_inv (fs_on d) {}" "view (fs_on d) = d" "dirtyset (fs_on d) = {}" by (simp_all add: e)
qed

lemma fs_on_sel [simp]:
  "inodes (fs_on d) = replicate NINODE inode_zero" "sb (fs_on d) = sb_boot" "cons (fs_on d) = cons_boot" "held (fs_on d) = []"
  "lh_n (fs_on d) = 0" "log_start (fs_on d) = 2" "log_outstanding (fs_on d) = 0" "\<not> log_committing (fs_on d)" "disk (fs_on d) = (\<lambda>_. d)"
  "log_size (fs_on d) = 30" "log_dev (fs_on d) = 1" "lh_block (fs_on d) = replicate 30 0"
  by (simp_all add: fs_on_def fs_boot_def log_boot_def bio_boot_def binit_def kbase_run_def kbase_boot_def kbase.defs kmem.defs bio.defs log.defs fs.defs)

lemma fs_inv_on:
  assumes "\<And>k. length (d k) = BSIZE"
  shows "fs_inv (fs_on d) {}" "refs (inodes (fs_on d)) = (\<lambda>_. 0)"
proof -
  have "refs (replicate NINODE inode_zero) n = 0" for n by (rule refs_0) (simp add: inode_zero_def)
  then show "refs (inodes (fs_on d)) = (\<lambda>_. 0)" by auto
  have "ic_ok v sp pid {} (replicate NINODE inode_zero)" for v sp pid
    by (simp add: ic_ok_def islot_def iuniq_def inode_zero_def sl_free_def)
  then show "fs_inv (fs_on d) {}" using fs_on [OF assms] by (simp add: fs_inv_def readable_def)
qed

text \<open>A disk with a root directory, inode 1, and in it the file \<open>a\<close>, inode 2, of three lines.\<close>

definition sample_dinode :: "u8 \<Rightarrow> u8 \<Rightarrow> u8 \<Rightarrow> bytes" where
  "sample_dinode type len addr = [type, 0, 0, 0, 0, 0, 1, 0, len, 0, 0, 0, addr, 0, 0, 0] @ replicate 48 0"

definition sample_disk :: "u32 \<Rightarrow> bytes" where
  "sample_disk k =
     (if k = 32 then replicate 64 0 @ sample_dinode 1 32 59 @ sample_dinode 2 6 60 @ replicate 320 0
      else if k = 59 then [1, 0, 46] @ replicate 13 0 @ [2, 0, 97] @ replicate 13 0 @ replicate 480 0
      else if k = 60 then [97, 10, 97, 10, 98, 10] @ replicate 506 0
      else replicate 512 0)"

lemma length_sample_disk: "length (sample_disk k) = BSIZE"
  by (simp add: sample_disk_def sample_dinode_def)

lemma nth_sample: "i < n \<Longrightarrow> (replicate n 0 @ xs) ! i = 0" "n \<le> i \<Longrightarrow> (replicate n 0 @ xs) ! i = xs ! (i - n)"
  by (simp_all add: nth_append)

lemma sample_root:
  "i_type (disk_inode sample_disk sb_boot 1) = T_DIR" "i_nlink (disk_inode sample_disk sb_boot 1) = 1"
  "i_size (disk_inode sample_disk sb_boot 1) = 32" "i_addrs (disk_inode sample_disk sb_boot 1) = [59, 0, 0, 0, 0, 0, 0, 0, 0, 0, 0, 0, 0]"
  by (simp_all add: disk_inode_def dinode_get_def dinode_off_def IBLOCK_def sb_boot_def sample_disk_def sample_dinode_def
      le16_def le32_def nth_append get_addrs_def upt_rec nth_Cons')

lemma sample_a:
  "i_type (disk_inode sample_disk sb_boot 2) = T_FILE" "i_nlink (disk_inode sample_disk sb_boot 2) = 1"
  "i_size (disk_inode sample_disk sb_boot 2) = 6" "i_addrs (disk_inode sample_disk sb_boot 2) = [60, 0, 0, 0, 0, 0, 0, 0, 0, 0, 0, 0, 0]"
  by (simp_all add: disk_inode_def dinode_get_def dinode_off_def IBLOCK_def sb_boot_def sample_disk_def sample_dinode_def
      le16_def le32_def nth_append get_addrs_def upt_rec nth_Cons')

lemma content_small:
  assumes "unat (i_size i) \<le> 512" "length (v (i_addrs i ! 0)) = 512"
  shows "content v i = take (unat (i_size i)) (v (i_addrs i ! 0))"
  using assms by (intro nth_equalityI) (auto simp: content_def file_byte_def file_block_def)

lemma sample_content:
  "content sample_disk (disk_inode sample_disk sb_boot 1) = [1, 0, 46] @ replicate 13 0 @ [2, 0, 97] @ replicate 13 0"
  "content sample_disk (disk_inode sample_disk sb_boot 2) = [97, 10, 97, 10, 98, 10]"
  using length_sample_disk
  by (simp_all add: content_small sample_root sample_a) (simp_all add: sample_disk_def)

lemma sample_entries:
  "entries ([1, 0, 46] @ replicate 13 0 @ [2, 0, 97] @ replicate 13 0) = [[1, 0, 46] @ replicate 13 0, [2, 0, 97] @ replicate 13 0]"
  by (simp add: entries_def upt_rec slice_def)

lemma sample_find:
  "dir_find [[1, 0, 46] @ replicate 13 0, [2, 0, 97] @ replicate 13 0] name =
     (if name = [46] then Some 1 else if name = [97] then Some 2 else None)"
  by (auto simp: dir_find_def de_inum_def de_name_def le16_def slice_def cstr_def)

lemma sample_file_ok: "file_ok sample_disk (disk_inode sample_disk sb_boot 1)" "file_ok sample_disk (disk_inode sample_disk sb_boot 2)"
proof -
  have d: "i_dev (disk_inode sample_disk sb_boot n) = ROOTDEV" for n by (simp add: disk_inode_def dinode_get_def)
  show "file_ok sample_disk (disk_inode sample_disk sb_boot 1)" "file_ok sample_disk (disk_inode sample_disk sb_boot 2)"
    by (simp_all add: file_ok_def mapped_def file_block_def sample_root sample_a d)
qed

lemma sample_lookup:
  "dir_find (entries (content sample_disk (disk_inode sample_disk sb_boot 1))) name =
     (if name = [46] then Some 1 else if name = [97] then Some 2 else None)"
  unfolding sample_content sample_entries by (rule sample_find)

lemma sample_tree: "tree_ok sample_disk sb_boot {1, 2}"
  using sample_file_ok
  by (auto simp: tree_ok_def loadable_def sample_root sample_a dir_ok_def sample_lookup IBLOCK_def sb_boot_def [THEN arg_cong [where f = sb_inodestart]] split: if_splits)

section \<open>Properties\<close>

text \<open>
  C4. \<^verbatim>\<open>namei\<close> resolves a path: it returns, without waiting, the inode that the walk through the directories on disk gives
  for the elements of the path, each cut to \<^verbatim>\<open>DIRSIZ\<close> characters, or null when an element is missing or not in a directory. Of
  the references it takes it gives all back but the one to the result, no inode is left locked, and no block changes.
\<close>

theorem namei_walks:
  assumes "fs_inv s {}" "tree_ok (view s) (sb s) S" "path_start s path \<in> S" "start_ok s path"
    "card {m. 0 < refs (inodes s) m} + 2 \<le> NINODE" "0 \<notin> set path"
  shows "wp (namei path s) (\<lambda>r t. fs_inv t {} \<and> view t = view s \<and>
    (case walk_path (view s) (sb s) (path_start s path) (path_elems path) of
       None \<Rightarrow> r = None \<and> refs (inodes t) = refs (inodes s)
     | Some m \<Rightarrow> (\<exists>ip<NINODE. r = Some ip \<and> i_inum (inodes t ! ip) = m \<and> 0 < i_ref (inodes t ! ip) \<and>
         refs (inodes t) = (refs (inodes s))(m := refs (inodes s) m + 1))))"
  by (rule wp_namei [OF assms]) (simp add: cached_fs)

theorem namei_walks_witness:
  "wp (namei (lit ''/a'') (fs_on sample_disk)) (\<lambda>r t. \<exists>ip. r = Some ip \<and> i_inum (inodes t ! ip) = 2 \<and> refs (inodes t) 2 = 1)"
proof -
  let ?s = "fs_on sample_disk"
  note on = fs_on [OF length_sample_disk] fs_inv_on [OF length_sample_disk]
  have st: "path_start ?s (lit ''/a'') = 1" by (simp add: path_start_def of_char_def)
  have pe: "path_elems (lit ''/a'') = [[97]]" by (simp add: path_elems.simps of_char_def)
  have w: "walk_path (view ?s) (sb ?s) 1 [[97]] = Some 2" using on by (simp add: sample_root sample_lookup)
  have "wp (namei (lit ''/a'') ?s) (\<lambda>r t. fs_inv t {} \<and> view t = view ?s \<and>
    (case walk_path (view ?s) (sb ?s) (path_start ?s (lit ''/a'')) (path_elems (lit ''/a'')) of
       None \<Rightarrow> r = None \<and> refs (inodes t) = refs (inodes ?s)
     | Some m \<Rightarrow> (\<exists>ip<NINODE. r = Some ip \<and> i_inum (inodes t ! ip) = m \<and> 0 < i_ref (inodes t ! ip) \<and>
         refs (inodes t) = (refs (inodes ?s))(m := refs (inodes ?s) m + 1))))"
    by (rule namei_walks [where S = "{1, 2}"]) (use on sample_tree st in \<open>simp_all add: start_ok_def of_char_def\<close>)
  then show ?thesis unfolding st pe w by (rule wp_mono) (use on in auto)
qed

end
