(* ===== verification/Ring.thy ===== *)
theory Ring
  imports Prelude
begin

text \<open>
  Ring buffers indexed by 32-bit counters that wrap around, as \<^verbatim>\<open>pipe.c\<close> and \<^verbatim>\<open>console.c\<close> use them, and the
  contract of a bounded queue, the locale \<open>bounded_queue\<close>.
\<close>

section \<open>The buffer\<close>

definition ring_get :: "'a list \<Rightarrow> u32 \<Rightarrow> 'a" where
  "ring_get buf i = buf ! (unat i mod length buf)"

definition ring_put :: "'a list \<Rightarrow> u32 \<Rightarrow> 'a \<Rightarrow> 'a list" where
  "ring_put buf i x = buf[unat i mod length buf := x]"

text \<open>The elements from counter \<open>r\<close> up to counter \<open>w\<close>.\<close>

definition ring :: "'a list \<Rightarrow> u32 \<Rightarrow> u32 \<Rightarrow> 'a list" where
  "ring buf r w = map (\<lambda>i. ring_get buf (r + of_nat i)) [0..<unat (w - r)]"

lemma length_ring_put [simp]: "length (ring_put buf i x) = length buf"
  by (simp add: ring_put_def)

lemma length_ring [simp]: "length (ring buf r w) = unat (w - r)"
  by (simp add: ring_def)

lemma ring_empty [simp]: "ring buf r r = []"
  by (simp add: ring_def)

lemma unat_add_mod_dvd:
  assumes "N dvd 2 ^ 32"
  shows "unat (a + b :: u32) mod N = (unat a + unat b) mod N"
proof -
  have "unat (a + b) = (unat a + unat b) mod 2 ^ 32" by (simp add: unat_word_ariths)
  then show ?thesis using assms by (simp add: mod_mod_cancel)
qed

lemma mod_add_neq:
  fixes a i j N :: nat
  assumes "i < j" "j - i < N"
  shows "(a + i) mod N \<noteq> (a + j) mod N"
proof
  assume "(a + i) mod N = (a + j) mod N"
  then have "N dvd (a + j) - (a + i)" by (metis mod_eq_dvd_iff_nat assms(1) add_le_mono less_imp_le order_refl)
  then have "N dvd j - i" by simp
  with assms show False by (auto dest: dvd_imp_le)
qed

definition ring_size :: "nat \<Rightarrow> bool" where
  "ring_size N \<longleftrightarrow> N dvd 2 ^ 32 \<and> N < 2 ^ 32"

lemma ring_get_add:
  "ring_size (length buf) \<Longrightarrow> i < 2 ^ 32 \<Longrightarrow> ring_get buf (r + of_nat i) = buf ! ((unat r + i) mod length buf)"
  by (simp add: ring_get_def ring_size_def unat_add_mod_dvd)

text \<open>A new element goes to the end.\<close>

lemma ring_put_snoc:
  assumes N: "ring_size (length buf)" and lt: "unat (w - r) < length buf"
  shows "ring (ring_put buf w x) r (w + 1) = ring buf r w @ [x]"
proof -
  define n where "n = unat (w - r)"
  have w: "w = r + of_nat n" by (simp add: n_def)
  have n: "n < length buf" "n < 2 ^ 32" "Suc n < 2 ^ 32" using lt N by (simp_all add: n_def ring_size_def)
  have Suc: "unat (w + 1 - r) = Suc n"
  proof -
    have "w + 1 - r = of_nat (Suc n)" by (simp add: w)
    then show ?thesis using n(3) by (simp del: of_nat_Suc)
  qed
  have pos: "unat w mod length buf = (unat r + n) mod length buf"
    using N n by (simp add: w ring_size_def unat_add_mod_dvd)
  have old: "ring_get (ring_put buf w x) (r + of_nat i) = ring_get buf (r + of_nat i)" if "i < n" for i
  proof -
    have "(unat r + i) mod length buf \<noteq> (unat r + n) mod length buf"
      using that n by (intro mod_add_neq) auto
    then show ?thesis using that n N by (simp add: ring_get_add) (simp add: ring_put_def pos)
  qed
  have new: "ring_get (ring_put buf w x) (r + of_nat n) = x"
  proof -
    have "(unat r + n) mod length buf < length buf" using n by (intro mod_less_divisor) auto
    then show ?thesis using n N by (simp add: ring_get_add) (simp add: ring_put_def pos)
  qed
  show ?thesis using old new unfolding ring_def Suc n_def [symmetric] by simp
qed

text \<open>The first element is at the read counter.\<close>

lemma ring_get_Cons:
  assumes "r \<noteq> w"
  shows "ring buf r w = ring_get buf r # ring buf (r + 1) w"
proof -
  have n: "unat (w - r) = Suc (unat (w - (r + 1)))" using assms by (intro unat_minus_Suc) auto
  show ?thesis
  proof (rule nth_equalityI)
    fix i assume "i < length (ring buf r w)"
    then have "i < Suc (unat (w - (r + 1)))" by (simp add: n)
    then show "ring buf r w ! i = (ring_get buf r # ring buf (r + 1) w) ! i"
      unfolding ring_def n by (cases i) (simp_all add: ac_simps del: upt_Suc)
  qed (simp add: n)
qed

text \<open>Dropping the last element, when a character is erased.\<close>

lemma ring_butlast:
  assumes "r \<noteq> w"
  shows "ring buf r (w - 1) = butlast (ring buf r w)"
proof -
  have "unat (w - r) = Suc (unat (w - 1 - r))"
    using unat_minus_one [of "w - r"] assms unat_gt_0 [of "w - r"] by (simp add: algebra_simps)
  then show ?thesis by (simp add: ring_def)
qed

text \<open>A range is split at a counter inside it.\<close>

lemma ring_append:
  assumes "unat (w - r) \<le> unat (e - r)"
  shows "ring buf r e = ring buf r w @ ring buf w e" and "unat (e - r) = unat (w - r) + unat (e - w)"
proof -
  have le: "w - r \<le> e - r" using assms by (simp add: word_le_nat_alt)
  have "unat ((e - r) - (w - r)) = unat (e - r) - unat (w - r)" using le by (rule unat_sub_u32)
  then show len: "unat (e - r) = unat (w - r) + unat (e - w)" using assms by simp
  have "r + of_nat (unat (w - r) + i) = w + of_nat i" for i by (simp add: algebra_simps)
  then show "ring buf r e = ring buf r w @ ring buf w e"
    unfolding ring_def len by (auto intro!: nth_equalityI simp: nth_append ac_simps)
qed

section \<open>Bounded queues\<close>

locale bounded_queue =
  fixes inv :: "'q \<Rightarrow> bool"
    and contents :: "'q \<Rightarrow> 'a list"
    and full :: "'q \<Rightarrow> bool"
    and empty :: "'q \<Rightarrow> bool"
    and put :: "'a \<Rightarrow> 'q \<Rightarrow> 'q"
    and get :: "'q \<Rightarrow> 'a \<times> 'q"
    and cap :: nat
  assumes put_ok: "inv q \<Longrightarrow> \<not> full q \<Longrightarrow> inv (put a q) \<and> contents (put a q) = contents q @ [a]"
    and get_ok: "inv q \<Longrightarrow> \<not> empty q \<Longrightarrow>
          inv (snd (get q)) \<and> contents q = fst (get q) # contents (snd (get q))"
    and full_iff: "inv q \<Longrightarrow> full q \<longleftrightarrow> length (contents q) = cap"
    and empty_iff: "inv q \<Longrightarrow> empty q \<longleftrightarrow> contents q = []"
    and bounded: "inv q \<Longrightarrow> length (contents q) \<le> cap"
begin

text \<open>Putting elements until the queue is full.\<close>

fun puts :: "'a list \<Rightarrow> 'q \<Rightarrow> 'a list \<times> 'q" where
  "puts [] q = ([], q)"
| "puts (a # as) q = (if full q then (a # as, q) else puts as (put a q))"

text \<open>Taking at most \<open>n\<close> elements.\<close>

fun gets :: "nat \<Rightarrow> 'q \<Rightarrow> 'a list \<times> 'q" where
  "gets 0 q = ([], q)"
| "gets (Suc n) q = (if empty q then ([], q)
     else let (a, q) = get q; (as, q) = gets n q in (a # as, q))"

lemma puts_ok:
  assumes "inv q"
  shows "inv (snd (puts as q)) \<and> (let m = min (length as) (cap - length (contents q)) in
     fst (puts as q) = drop m as \<and> contents (snd (puts as q)) = contents q @ take m as)"
  using assms
proof (induction as arbitrary: q)
  case Nil
  then show ?case by simp
next
  case (Cons a as)
  show ?case
  proof (cases "full q")
    case True
    with Cons.prems show ?thesis by (simp add: full_iff)
  next
    case False
    then have lt: "length (contents q) < cap"
      using full_iff [OF Cons.prems] bounded [OF Cons.prems] by simp
    from put_ok [OF Cons.prems False] Cons.IH [of "put a q"] False lt show ?thesis
      by (simp add: Let_def min_def Suc_diff_Suc split: if_splits)
         (auto simp: take_Cons' drop_Cons' split: if_splits)
  qed
qed

lemma gets_ok:
  assumes "inv q"
  shows "inv (snd (gets n q)) \<and> fst (gets n q) = take n (contents q)
     \<and> contents (snd (gets n q)) = drop n (contents q)"
  using assms
proof (induction n arbitrary: q)
  case (Suc n)
  show ?case
  proof (cases "empty q")
    case True
    with Suc.prems show ?thesis by (simp add: empty_iff)
  next
    case False
    obtain a p as r where g: "get q = (a, p)" "gets n p = (as, r)" by (metis surj_pair)
    from get_ok [OF Suc.prems False] Suc.IH [of p] False g show ?thesis by simp
  qed
qed simp

end

end
