(* ===== verification/Pipe.thy ===== *)
theory Pipe
  imports Path Ring
begin

text \<open>
  Pipes, \<^verbatim>\<open>pipe.c\<close>. A \<^verbatim>\<open>struct pipe\<close> lives in a page of its own; the model keeps it as a record under the
  address of the page.
\<close>

section \<open>State and operations\<close>

abbreviation (input) PIPESIZE :: nat where "PIPESIZE \<equiv> 512"

record pipe =
  pp_data :: bytes
  pp_nread :: u32
  pp_nwrite :: u32
  pp_readopen :: bool
  pp_writeopen :: bool

record pst = fs +
  pipes :: "u32 \<Rightarrow> pipe option"

abbreviation set_pipe :: "u32 \<Rightarrow> pipe \<Rightarrow> 'x pst_scheme \<Rightarrow> 'x pst_scheme" where
  "set_pipe p pp s \<equiv> s\<lparr>pipes := (pipes s)(p := Some pp)\<rparr>"

text \<open>One byte in and one byte out.\<close>

definition pipe_full :: "pipe \<Rightarrow> bool" where
  "pipe_full p \<longleftrightarrow> pp_nwrite p = pp_nread p + of_nat PIPESIZE"

definition pipe_empty :: "pipe \<Rightarrow> bool" where
  "pipe_empty p \<longleftrightarrow> pp_nread p = pp_nwrite p"

definition pipe_put :: "u8 \<Rightarrow> pipe \<Rightarrow> pipe" where
  "pipe_put c p = p\<lparr>pp_data := (pp_data p)[unat (pp_nwrite p) mod PIPESIZE := c], pp_nwrite := pp_nwrite p + 1\<rparr>"

definition pipe_get :: "pipe \<Rightarrow> u8 \<times> pipe" where
  "pipe_get p = (pp_data p ! (unat (pp_nread p) mod PIPESIZE), p\<lparr>pp_nread := pp_nread p + 1\<rparr>)"

text \<open>
  \<^verbatim>\<open>pipeclose\<close>; when both ends are closed the page is freed and the pipe is gone.
\<close>

definition pipeclose :: "u32 \<Rightarrow> bool \<Rightarrow> 'x pst_scheme \<Rightarrow> (unit, 'x pst_scheme) outcome" where
  "pipeclose p writable s =
     kbind (acquire (LPipe p) s) (\<lambda>_ s.
     case pipes s p of None \<Rightarrow> undef
     | Some pp \<Rightarrow>
         kbind (if writable then wakeup (ChPipeRead p) (set_pipe p (pp\<lparr>pp_writeopen := False\<rparr>) s)
                else wakeup (ChPipeWrite p) (set_pipe p (pp\<lparr>pp_readopen := False\<rparr>) s)) (\<lambda>_ s.
         case pipes s p of None \<Rightarrow> undef
         | Some pp \<Rightarrow>
             if \<not> pp_readopen pp \<and> \<not> pp_writeopen pp then
               kbind (release (LPipe p) s) (\<lambda>_ s.
               kfree p (s\<lparr>pipes := (pipes s)(p := None)\<rparr>))
             else release (LPipe p) s))"

text \<open>
  The loop of \<^verbatim>\<open>pipewrite\<close> with the bytes still to write. It returns whether all are written; when not, the lock
  is already released. A writer that sleeps continues with the loop for the bytes that are left.
\<close>

fun pipewrite_loop :: "u32 \<Rightarrow> bytes \<Rightarrow> 'x pst_scheme \<Rightarrow> (bool, 'x pst_scheme) outcome" where
  "pipewrite_loop p [] s = Ret True s"
| "pipewrite_loop p (c # cs) s =
     (case pipes s p of None \<Rightarrow> undef
      | Some pp \<Rightarrow>
          if pipe_full pp then
            (if \<not> pp_readopen pp then kbind (release (LPipe p) s) (\<lambda>_ s. Ret False s)
             else case myproc s of None \<Rightarrow> Panic ''trap''
             | Some q \<Rightarrow>
                 if p_killed (procs s ! q) then kbind (release (LPipe p) s) (\<lambda>_ s. Ret False s)
                 else kbind (wakeup (ChPipeRead p) s) (\<lambda>_ s. sleep (ChPipeWrite p) (LPipe p) s))
          else pipewrite_loop p cs (set_pipe p (pipe_put c pp) s))"

definition pipewrite_rest :: "u32 \<Rightarrow> bytes \<Rightarrow> nat \<Rightarrow> 'x pst_scheme \<Rightarrow> (int, 'x pst_scheme) outcome" where
  "pipewrite_rest p data n s =
     kbind (pipewrite_loop p data s) (\<lambda>ok s.
     if \<not> ok then Ret (-1) s
     else
       kbind (wakeup (ChPipeRead p) s) (\<lambda>_ s.
       kbind (release (LPipe p) s) (\<lambda>_ s. Ret (int n) s)))"

definition pipewrite :: "u32 \<Rightarrow> bytes \<Rightarrow> 'x pst_scheme \<Rightarrow> (int, 'x pst_scheme) outcome" where
  "pipewrite p data s = kbind (acquire (LPipe p) s) (\<lambda>_ s. pipewrite_rest p data (length data) s)"

text \<open>\<^verbatim>\<open>piperead\<close>; a reader that sleeps continues with \<open>piperead_rest\<close>.\<close>

fun piperead_loop :: "nat \<Rightarrow> pipe \<Rightarrow> bytes \<times> pipe" where
  "piperead_loop 0 pp = ([], pp)"
| "piperead_loop (Suc n) pp =
     (if pipe_empty pp then ([], pp)
      else let (c, pp) = pipe_get pp; (cs, pp) = piperead_loop n pp in (c # cs, pp))"

definition piperead_rest :: "u32 \<Rightarrow> nat \<Rightarrow> 'x pst_scheme \<Rightarrow> (int \<times> bytes, 'x pst_scheme) outcome" where
  "piperead_rest p n s =
     (case pipes s p of None \<Rightarrow> undef
      | Some pp \<Rightarrow>
          if pipe_empty pp \<and> pp_writeopen pp then
            (case myproc s of None \<Rightarrow> Panic ''trap''
             | Some q \<Rightarrow>
                 if p_killed (procs s ! q) then kbind (release (LPipe p) s) (\<lambda>_ s. Ret (-1, []) s)
                 else sleep (ChPipeRead p) (LPipe p) s)
          else
            let (cs, pp) = piperead_loop n pp in
            kbind (wakeup (ChPipeWrite p) (set_pipe p pp s)) (\<lambda>_ s.
            kbind (release (LPipe p) s) (\<lambda>_ s. Ret (int (length cs), cs) s)))"

definition piperead :: "u32 \<Rightarrow> nat \<Rightarrow> 'x pst_scheme \<Rightarrow> (int \<times> bytes, 'x pst_scheme) outcome" where
  "piperead p n s = kbind (acquire (LPipe p) s) (\<lambda>_ s. piperead_rest p n s)"

section \<open>A pipe is a bounded queue\<close>

definition pipe_inv :: "pipe \<Rightarrow> bool" where
  "pipe_inv p \<longleftrightarrow> length (pp_data p) = PIPESIZE \<and> unat (pp_nwrite p - pp_nread p) \<le> PIPESIZE"

definition pipe_contents :: "pipe \<Rightarrow> bytes" where
  "pipe_contents p = ring (pp_data p) (pp_nread p) (pp_nwrite p)"

lemma ring_size_512 [simp]: "ring_size 512"
  unfolding ring_size_def
proof
  have "(512::nat) dvd 2 ^ 9" by simp
  also have "(2::nat) ^ 9 dvd 2 ^ 32" by (rule le_imp_power_dvd) simp
  finally show "(512::nat) dvd 2 ^ 32" .
qed simp

lemma pipe_full_iff: "pipe_inv p \<Longrightarrow> pipe_full p \<longleftrightarrow> unat (pp_nwrite p - pp_nread p) = 512"
proof -
  have "pipe_full p \<longleftrightarrow> pp_nwrite p - pp_nread p = 512" by (auto simp: pipe_full_def algebra_simps)
  also have "\<dots> \<longleftrightarrow> unat (pp_nwrite p - pp_nread p) = unat (512 :: u32)" by (simp only: word_unat_eq_iff)
  finally show ?thesis by simp
qed

lemma unat_diff_Suc_u32: "unat (w - r) < 2 ^ 32 - 1 \<Longrightarrow> unat (w + 1 - r :: u32) = Suc (unat (w - r))"
proof -
  assume "unat (w - r) < 2 ^ 32 - 1"
  then have "unat ((w - r) + 1) = unat (w - r) + unat (1 :: u32)" by (intro unat_add_u32) simp
  then show ?thesis by (simp add: algebra_simps)
qed

interpretation pq: bounded_queue pipe_inv pipe_contents pipe_full pipe_empty pipe_put pipe_get PIPESIZE
proof
  fix q a assume q: "pipe_inv q" "\<not> pipe_full q"
  then have lt: "unat (pp_nwrite q - pp_nread q) < 512" and len: "length (pp_data q) = 512"
    using pipe_full_iff [OF q(1)] by (simp_all add: pipe_inv_def)
  have put: "(pp_data q)[unat (pp_nwrite q) mod 512 := a] = ring_put (pp_data q) (pp_nwrite q) a"
    by (simp add: ring_put_def len)
  show "pipe_inv (pipe_put a q) \<and> pipe_contents (pipe_put a q) = pipe_contents q @ [a]"
    using lt len unat_diff_Suc_u32 [of "pp_nwrite q" "pp_nread q"]
    by (simp add: pipe_inv_def pipe_put_def pipe_contents_def put ring_put_snoc)
next
  fix q assume q: "pipe_inv q" "\<not> pipe_empty q"
  then have ne: "pp_nread q \<noteq> pp_nwrite q" and len: "length (pp_data q) = 512"
    by (auto simp: pipe_empty_def pipe_inv_def)
  have "unat (pp_nwrite q - pp_nread q) = Suc (unat (pp_nwrite q - (pp_nread q + 1)))"
    using ne by (intro unat_minus_Suc) auto
  then show "pipe_inv (snd (pipe_get q)) \<and>
      pipe_contents q = fst (pipe_get q) # pipe_contents (snd (pipe_get q))"
    using q(1) len ring_get_Cons [OF ne, of "pp_data q"]
    by (simp add: pipe_inv_def pipe_get_def pipe_contents_def ring_get_def)
next
  fix q assume q: "pipe_inv q"
  then show "pipe_full q = (length (pipe_contents q) = 512)"
    by (simp add: pipe_full_iff pipe_contents_def)
  show "pipe_empty q = (pipe_contents q = [])"
    by (simp add: pipe_empty_def pipe_contents_def flip: length_0_conv) (auto simp: unat_eq_0)
  show "length (pipe_contents q) \<le> 512"
    using q by (simp add: pipe_inv_def pipe_contents_def)
qed

lemma piperead_loop_gets: "piperead_loop n pp = pq.gets n pp"
  by (induction n arbitrary: pp) (simp_all split: prod.splits)

lemma puts_flags [simp]:
  "pp_nread (snd (pq.puts cs pp)) = pp_nread pp"
  "pp_readopen (snd (pq.puts cs pp)) = pp_readopen pp" "pp_writeopen (snd (pq.puts cs pp)) = pp_writeopen pp"
  by (induction cs arbitrary: pp) (simp_all add: pipe_put_def)

lemma gets_flags [simp]:
  "pp_readopen (snd (pq.gets n pp)) = pp_readopen pp" "pp_writeopen (snd (pq.gets n pp)) = pp_writeopen pp"
  by (induction n arbitrary: pp) (simp_all add: pipe_get_def case_prod_beta)

lemma puts_full: "fst (pq.puts cs pp) \<noteq> [] \<Longrightarrow> pipe_full (snd (pq.puts cs pp))"
  by (induction cs arbitrary: pp) (simp_all split: if_splits)

lemma set_pipe_same: "pipes s p = Some pp \<Longrightarrow> set_pipe p pp s = s"
proof -
  assume "pipes s p = Some pp"
  then have "(pipes s)(p := Some pp) = pipes s" by (rule fun_upd_idem)
  then show "set_pipe p pp s = s" by (simp only:) simp
qed

text \<open>The loop of \<^verbatim>\<open>pipewrite\<close> puts bytes until the pipe is full; then it gives up or sleeps.\<close>

lemma pipewrite_loop_puts:
  assumes "pipes s p = Some pp"
  shows "pipewrite_loop p cs s =
    (let (rest, pp') = pq.puts cs pp; s' = set_pipe p pp' s in
     case rest of [] \<Rightarrow> Ret True s' | _ # _ \<Rightarrow> pipewrite_loop p rest s')"
  using assms
proof (induction cs arbitrary: s pp)
  case Nil
  then show ?case by (simp only: pq.puts.simps pipewrite_loop.simps Let_def prod.case list.case set_pipe_same)
next
  case (Cons c cs)
  show ?case
  proof (cases "pipe_full pp")
    case True
    with Cons.prems show ?thesis
      by (simp only: pq.puts.simps if_True Let_def prod.case list.case set_pipe_same)
  next
    case False
    have e: "pipewrite_loop p (c # cs) s = pipewrite_loop p cs (set_pipe p (pipe_put c pp) s)"
      using False Cons.prems by simp
    show ?thesis unfolding e using False
      by (subst Cons.IH [of _ "pipe_put c pp"]) (simp_all add: Let_def split: list.splits prod.splits)
  qed
qed


text \<open>What a call of \<^verbatim>\<open>pipewrite\<close> does, from where it has the lock; the three ways it can end.\<close>

lemma pipewrite_rest_ok:
  assumes pp: "pipes s p = Some pp" and inv: "pipe_inv pp" and me: "myproc s = Some q"
    and held: "held s = [LPipe p]" and q: "q < length (procs s)"
    and run: "p_state (procs s ! q) = RUNNING"
  obtains pp' where "pipe_inv pp'" "pp_nread pp' = pp_nread pp" "pp_readopen pp' = pp_readopen pp" "pp_writeopen pp' = pp_writeopen pp"
      "pipe_contents pp' = pipe_contents pp @ data"
      "pipewrite_rest p data n s = Ret (int n) (set_pipe p pp' s\<lparr>held := [], procs := wake (ChPipeRead p) (procs s)\<rparr>)"
  | pp' m where "pipe_inv pp'" "pp_nread pp' = pp_nread pp" "pp_readopen pp' = pp_readopen pp" "pp_writeopen pp' = pp_writeopen pp"
      "pipe_full pp'" "m < length data" "pipe_contents pp' = pipe_contents pp @ take m data"
      "\<not> pp_readopen pp \<or> p_killed (procs s ! q)"
      "pipewrite_rest p data n s = Ret (-1) (set_pipe p pp' s\<lparr>held := []\<rparr>)"
  | pp' m where "pipe_inv pp'" "pp_nread pp' = pp_nread pp" "pp_readopen pp' = pp_readopen pp" "pp_writeopen pp' = pp_writeopen pp"
      "pipe_full pp'" "m < length data" "pipe_contents pp' = pipe_contents pp @ take m data"
      "pp_readopen pp" "\<not> p_killed (procs s ! q)"
      "pipewrite_rest p data n s = Switch (set_pipe p pp' s\<lparr>held := [LPtable],
         procs := (wake (ChPipeRead p) (procs s))
           [q := (procs s ! q)\<lparr>p_chan := Some (ChPipeWrite p), p_state := SLEEPING\<rparr>]\<rparr>)"
proof -
  define m where "m = min (length data) (PIPESIZE - length (pipe_contents pp))"
  obtain rest pp' where puts: "pq.puts data pp = (rest, pp')" by (metis surj_pair)
  note ok = pq.puts_ok [OF inv, of data, unfolded puts Let_def fst_conv snd_conv, folded m_def]
  have fl: "pp_nread pp' = pp_nread pp" "pp_readopen pp' = pp_readopen pp" "pp_writeopen pp' = pp_writeopen pp"
    using puts_flags [of data pp] puts by simp_all
  have loop: "pipewrite_loop p data s =
      (case rest of [] \<Rightarrow> Ret True (set_pipe p pp' s) | _ # _ \<Rightarrow> pipewrite_loop p rest (set_pipe p pp' s))"
    using pipewrite_loop_puts [OF pp, of data] by (simp only: puts Let_def prod.case)
  have wq: "wake (ChPipeRead p) (procs s) ! q = procs s ! q"
    using run q by (simp add: wake_def)
  show thesis
  proof (cases rest)
    case Nil
    with ok have "length data \<le> m" by simp
    with ok have c: "pipe_contents pp' = pipe_contents pp @ data" by simp
    have "pipewrite_rest p data n s = Ret (int n) (set_pipe p pp' s\<lparr>held := [], procs := wake (ChPipeRead p) (procs s)\<rparr>)"
      using held by (simp add: pipewrite_rest_def loop Nil)
    with ok fl c show thesis by (intro that(1) [of pp']) auto
  next
    case (Cons c cs)
    with ok have m: "m < length data" by (metis drop_all leI list.distinct(1))
    have full: "pipe_full pp'" using puts_full [of data pp] puts Cons by simp
    show thesis
    proof (cases "\<not> pp_readopen pp \<or> p_killed (procs s ! q)")
      case True
      then have "pipewrite_rest p data n s = Ret (-1) (set_pipe p pp' s\<lparr>held := []\<rparr>)"
        using held full fl me Cons by (auto simp: pipewrite_rest_def loop myproc_def)
      with ok fl full m True show thesis by (intro that(2) [of pp' m]) auto
    next
      case False
      then have "pipewrite_rest p data n s = Switch (set_pipe p pp' s\<lparr>held := [LPtable],
         procs := (wake (ChPipeRead p) (procs s))
           [q := (procs s ! q)\<lparr>p_chan := Some (ChPipeWrite p), p_state := SLEEPING\<rparr>]\<rparr>)"
        using held full fl me Cons q wq
        by (simp add: pipewrite_rest_def loop myproc_def sleep_def sched_def wake_def)
      with ok fl full m False show thesis by (intro that(3) [of pp' m]) auto
    qed
  qed
qed


lemma piperead_rest_ok:
  assumes pp: "pipes s p = Some pp" and inv: "pipe_inv pp" and me: "myproc s = Some q"
    and held: "held s = [LPipe p]" and q: "q < length (procs s)"
  obtains pp' where "pipe_inv pp'" "pp_readopen pp' = pp_readopen pp" "pp_writeopen pp' = pp_writeopen pp"
      "pipe_contents pp' = drop n (pipe_contents pp)" "pipe_contents pp \<noteq> [] \<or> \<not> pp_writeopen pp"
      "piperead_rest p n s = Ret (int (min n (length (pipe_contents pp))), take n (pipe_contents pp))
         (set_pipe p pp' s\<lparr>held := [], procs := wake (ChPipeWrite p) (procs s)\<rparr>)"
  | "pipe_empty pp" "pp_writeopen pp" "p_killed (procs s ! q)"
      "piperead_rest p n s = Ret (-1, []) (s\<lparr>held := []\<rparr>)"
  | "pipe_empty pp" "pp_writeopen pp" "\<not> p_killed (procs s ! q)"
      "piperead_rest p n s = Switch (s\<lparr>held := [LPtable],
         procs := (procs s)[q := (procs s ! q)\<lparr>p_chan := Some (ChPipeRead p), p_state := SLEEPING\<rparr>]\<rparr>)"
proof (cases "pipe_empty pp \<and> pp_writeopen pp")
  case True
  show thesis
  proof (cases "p_killed (procs s ! q)")
    case k: True
    then have "piperead_rest p n s = Ret (-1, []) (s\<lparr>held := []\<rparr>)"
      using True pp me held by (simp add: piperead_rest_def)
    with True k show thesis by (intro that(2)) auto
  next
    case k: False
    then have "piperead_rest p n s = Switch (s\<lparr>held := [LPtable],
         procs := (procs s)[q := (procs s ! q)\<lparr>p_chan := Some (ChPipeRead p), p_state := SLEEPING\<rparr>]\<rparr>)"
      using True pp me held q by (simp add: piperead_rest_def sleep_def sched_def myproc_def)
    with True k show thesis by (intro that(3)) auto
  qed
next
  case False
  obtain cs pp' where g: "pq.gets n pp = (cs, pp')" by (metis surj_pair)
  note ok = pq.gets_ok [OF inv, of n, unfolded g fst_conv snd_conv]
  have fl: "pp_readopen pp' = pp_readopen pp" "pp_writeopen pp' = pp_writeopen pp"
    using gets_flags [of n pp] g by simp_all
  have len: "length cs = min n (length (pipe_contents pp))" using ok by simp
  have cs: "cs = take n (pipe_contents pp)" using ok by simp
  have "piperead_rest p n s = Ret (int (length cs), cs)
      (set_pipe p pp' s\<lparr>held := [], procs := wake (ChPipeWrite p) (procs s)\<rparr>)"
    using False pp held by (auto simp: piperead_rest_def piperead_loop_gets g)
  then have "piperead_rest p n s = Ret (int (min n (length (pipe_contents pp))), take n (pipe_contents pp))
      (set_pipe p pp' s\<lparr>held := [], procs := wake (ChPipeWrite p) (procs s)\<rparr>)"
    unfolding len unfolding cs .
  with ok fl False pq.empty_iff [OF inv] show thesis by (intro that(1) [of pp']) auto
qed

section \<open>Bytes come out in the order they went in\<close>

text \<open>A process runs and has the pipe's lock, at the start of the loop of \<^verbatim>\<open>pipewrite\<close> or \<^verbatim>\<open>piperead\<close>.\<close>

definition at_pipe :: "u32 \<Rightarrow> 'x pst_scheme \<Rightarrow> bool" where
  "at_pipe p s \<longleftrightarrow> held s = [LPipe p] \<and>
     (\<exists>q. myproc s = Some q \<and> q < length (procs s) \<and> p_state (procs s ! q) = RUNNING)"

text \<open>
  A history of one pipe: calls of \<^verbatim>\<open>pipewrite\<close> and \<^verbatim>\<open>piperead\<close> by any processes in any order, each from where it
  gets the lock, at the start of the call or after a sleep, to where it gives it up. \<open>ws\<close> are the bytes
  the writers have put, \<open>rs\<close> those the readers have been given. Between two of them anything may happen that leaves
  the pipe alone.
\<close>

inductive pipe_run :: "u32 \<Rightarrow> 'x pst_scheme \<Rightarrow> bytes \<Rightarrow> bytes \<Rightarrow> 'x pst_scheme \<Rightarrow> bool" for p s0 where
  start: "pipe_run p s0 [] [] s0"
| wr: "pipe_run p s0 ws rs s \<Longrightarrow> at_pipe p s \<Longrightarrow> leaves (pipewrite_rest p data n s) = Some s' \<Longrightarrow>
    pipe_run p s0 (ws @ take (unat (pp_nwrite (the (pipes s' p)) - pp_nwrite (the (pipes s p)))) data) rs s'"
| rd: "pipe_run p s0 ws rs s \<Longrightarrow> at_pipe p s \<Longrightarrow> piperead_rest p n s = Ret (r, cs) s' \<Longrightarrow>
    pipe_run p s0 ws (rs @ cs) s'"
| rd_sleep: "pipe_run p s0 ws rs s \<Longrightarrow> at_pipe p s \<Longrightarrow> piperead_rest p n s = Switch s' \<Longrightarrow> pipe_run p s0 ws rs s'"
| other: "pipe_run p s0 ws rs s \<Longrightarrow> pipes s' p = pipes s p \<Longrightarrow> pipe_run p s0 ws rs s'"

lemma contents_counter:
  assumes "pipe_inv pp" "pipe_inv pp'" "pp_nread pp' = pp_nread pp" "pipe_contents pp' = pipe_contents pp @ xs"
  shows "unat (pp_nwrite pp' - pp_nwrite pp) = length xs"
proof -
  let ?a = "pp_nwrite pp - pp_nread pp" and ?b = "pp_nwrite pp' - pp_nread pp"
  have b: "unat ?b = unat ?a + length xs"
    using arg_cong [OF assms(4), of length] assms(3) by (simp add: pipe_contents_def)
  then have "?a \<le> ?b" by (simp add: word_le_nat_alt)
  then have "unat (?b - ?a) = unat ?b - unat ?a" by (rule unat_sub_u32)
  with b show ?thesis by simp
qed


definition pipe_at :: "u32 \<Rightarrow> 'x pst_scheme \<Rightarrow> bytes \<Rightarrow> bool" where
  "pipe_at p s cs \<longleftrightarrow> (\<exists>pp. pipes s p = Some pp \<and> pipe_inv pp \<and> pipe_contents pp = cs)"

lemma pipe_write_step:
  assumes "pipe_at p s cs" "at_pipe p s" "leaves (pipewrite_rest p data n s) = Some s'"
  shows "pipe_at p s' (cs @ take (unat (pp_nwrite (the (pipes s' p)) - pp_nwrite (the (pipes s p)))) data)"
proof -
  from assms(1) obtain pp where pp: "pipes s p = Some pp" "pipe_inv pp" "pipe_contents pp = cs"
    by (auto simp: pipe_at_def)
  from assms(2) obtain q where q: "myproc s = Some q" "held s = [LPipe p]" "q < length (procs s)"
      "p_state (procs s ! q) = RUNNING" by (auto simp: at_pipe_def)
  show ?thesis
  proof (rule pipewrite_rest_ok [OF pp(1,2) q, of data n], goal_cases)
    case (1 pp')
    with assms(3) have s': "pipes s' p = Some pp'" by auto
    have "unat (pp_nwrite pp' - pp_nwrite pp) = length data" using contents_counter [OF pp(2) 1(1,2,5)] .
    with 1 s' pp show ?thesis by (simp add: pipe_at_def)
  next
    case (2 pp' m)
    with assms(3) have s': "pipes s' p = Some pp'" by auto
    have "unat (pp_nwrite pp' - pp_nwrite pp) = m" using contents_counter [OF pp(2) 2(1,2,7)] 2(6) by simp
    with 2 s' pp show ?thesis by (simp add: pipe_at_def)
  next
    case (3 pp' m)
    with assms(3) have s': "pipes s' p = Some pp'" by auto
    have "unat (pp_nwrite pp' - pp_nwrite pp) = m" using contents_counter [OF pp(2) 3(1,2,7)] 3(6) by simp
    with 3 s' pp show ?thesis by (simp add: pipe_at_def)
  qed
qed

lemma pipe_read_step:
  assumes "pipe_at p s cs" "at_pipe p s"
  shows "piperead_rest p n s = Ret (r, d) s' \<Longrightarrow> \<exists>cs'. cs = d @ cs' \<and> pipe_at p s' cs'"
    and "piperead_rest p n s = Switch s' \<Longrightarrow> pipe_at p s' cs"
proof -
  from assms(1) obtain pp where pp: "pipes s p = Some pp" "pipe_inv pp" "pipe_contents pp = cs"
    by (auto simp: pipe_at_def)
  from assms(2) obtain q where q: "myproc s = Some q" "held s = [LPipe p]" "q < length (procs s)"
    by (auto simp: at_pipe_def)
  note cases = piperead_rest_ok [OF pp(1,2) q, of n]
  show "\<exists>cs'. cs = d @ cs' \<and> pipe_at p s' cs'" if r: "piperead_rest p n s = Ret (r, d) s'"
    by (rule cases) (use r pp in \<open>auto simp: pipe_at_def intro!: exI [of _ "drop n cs"]\<close>)
  show "pipe_at p s' cs" if r: "piperead_rest p n s = Switch s'"
    by (rule cases) (use r pp in \<open>auto simp: pipe_at_def\<close>)
qed



section \<open>No wake-up is lost\<close>

text \<open>
  A process sleeps on a pipe only while it has a reason to: a reader while the pipe is empty and may still be written, a
  writer while it is full and may still be read.
\<close>

definition sleeps_on :: "'x kbase_scheme \<Rightarrow> chan \<Rightarrow> bool" where
  "sleeps_on s ch \<longleftrightarrow> (\<exists>q \<in> set (procs s). p_state q = SLEEPING \<and> p_chan q = Some ch)"

definition pipe_sleepers :: "'x pst_scheme \<Rightarrow> bool" where
  "pipe_sleepers s \<longleftrightarrow> (\<forall>p pp. pipes s p = Some pp \<longrightarrow>
     (sleeps_on s (ChPipeRead p) \<longrightarrow> pipe_empty pp \<and> pp_writeopen pp) \<and>
     (sleeps_on s (ChPipeWrite p) \<longrightarrow> pipe_full pp \<and> pp_readopen pp))"

lemma sleeps_on_wake: "sleeps_on (s\<lparr>procs := wake ch (procs s)\<rparr>) ch' \<longleftrightarrow> ch' \<noteq> ch \<and> sleeps_on s ch'"
  by (auto simp: sleeps_on_def wake_def)

lemma sleeps_on_update: "sleeps_on (s\<lparr>procs := (procs s)[q := v]\<rparr>) ch \<Longrightarrow>
   sleeps_on s ch \<or> p_state v = SLEEPING \<and> p_chan v = Some ch"
  using set_update_subset_insert [of "procs s" q v] by (auto simp: sleeps_on_def)

lemma sleeps_on_cong: "procs s' = procs s \<Longrightarrow> sleeps_on s' ch = sleeps_on s ch"
  by (simp add: sleeps_on_def)

lemma pipe_sleepers_one:
  assumes "pipe_sleepers s" "\<And>p'. p' \<noteq> p \<Longrightarrow> pipes s' p' = pipes s p'"
    and "\<And>ch. ch \<noteq> ChPipeRead p \<Longrightarrow> ch \<noteq> ChPipeWrite p \<Longrightarrow> sleeps_on s' ch \<Longrightarrow> sleeps_on s ch"
    and "\<And>pp. pipes s' p = Some pp \<Longrightarrow> sleeps_on s' (ChPipeRead p) \<Longrightarrow> pipe_empty pp \<and> pp_writeopen pp"
    and "\<And>pp. pipes s' p = Some pp \<Longrightarrow> sleeps_on s' (ChPipeWrite p) \<Longrightarrow> pipe_full pp \<and> pp_readopen pp"
  shows "pipe_sleepers s'"
  unfolding pipe_sleepers_def
proof (intro allI impI)
  fix p' pp' assume p': "pipes s' p' = Some pp'"
  show "(sleeps_on s' (ChPipeRead p') \<longrightarrow> pipe_empty pp' \<and> pp_writeopen pp') \<and>
    (sleeps_on s' (ChPipeWrite p') \<longrightarrow> pipe_full pp' \<and> pp_readopen pp')"
  proof (cases "p' = p")
    case True
    with p' assms(4,5) show ?thesis by simp
  next
    case False
    with p' assms(2) have "pipes s p' = Some pp'" by simp
    moreover have "sleeps_on s' (ChPipeRead p') \<Longrightarrow> sleeps_on s (ChPipeRead p')"
      "sleeps_on s' (ChPipeWrite p') \<Longrightarrow> sleeps_on s (ChPipeWrite p')"
      using assms(3) False by simp_all
    ultimately show ?thesis using assms(1) unfolding pipe_sleepers_def by blast
  qed
qed

lemma pipe_sleepersD:
  "pipe_sleepers s \<Longrightarrow> pipes s p = Some pp \<Longrightarrow> sleeps_on s (ChPipeRead p) \<Longrightarrow> pipe_empty pp \<and> pp_writeopen pp"
  "pipe_sleepers s \<Longrightarrow> pipes s p = Some pp \<Longrightarrow> sleeps_on s (ChPipeWrite p) \<Longrightarrow> pipe_full pp \<and> pp_readopen pp"
  by (auto simp: pipe_sleepers_def)

lemma full_not_empty: "pipe_inv pp \<Longrightarrow> pipe_full pp \<Longrightarrow> \<not> pipe_empty pp"
  using pq.full_iff [of pp] pq.empty_iff [of pp] by auto

lemma pipe_sleepers_write:
  assumes sl: "pipe_sleepers s" and pp: "pipes s p = Some pp" "pipe_inv pp" and at: "at_pipe p s"
    and r: "pipewrite_rest p data n s = Ret (int n) s' \<or> pipewrite_rest p data n s = Switch s'"
  shows "pipe_sleepers s'"
proof -
  from at obtain q where q: "myproc s = Some q" "held s = [LPipe p]" "q < length (procs s)"
      "p_state (procs s ! q) = RUNNING" by (auto simp: at_pipe_def)
  show ?thesis
  proof (rule pipewrite_rest_ok [OF pp q, of data n], goal_cases)
    case (1 pp')
    have s': "pipes s' = (pipes s)(p := Some pp')" "procs s' = wake (ChPipeRead p) (procs s)" using r 1(6) by auto
    have on: "sleeps_on s' ch \<longleftrightarrow> ch \<noteq> ChPipeRead p \<and> sleeps_on s ch" for ch
      using sleeps_on_wake [where s = s and ch = "ChPipeRead p" and ch' = ch] s'(2) by (simp add: sleeps_on_def)
    show ?thesis
    proof (rule pipe_sleepers_one [OF sl, of p])
      fix pq assume a: "pipes s' p = Some pq" "sleeps_on s' (ChPipeWrite p)"
      then have "pipe_full pp \<and> pp_readopen pp" using on pipe_sleepersD(2) [OF sl pp(1)] by simp
      moreover from this have "length (pipe_contents pp) = 512" using pq.full_iff [OF pp(2)] by simp
      then have "length (pipe_contents pp') = 512"
        using 1(5) pq.bounded [OF 1(1)] by simp
      ultimately show "pipe_full pq \<and> pp_readopen pq"
        using a(1) 1 s' pq.full_iff [OF 1(1)] by simp
    qed (use s' on in auto)
  next
    case (2 pp' m)
    with r show ?thesis by auto
  next
    case (3 pp' m)
    let ?v = "(procs s ! q)\<lparr>p_chan := Some (ChPipeWrite p), p_state := SLEEPING\<rparr>"
    have s': "pipes s' = (pipes s)(p := Some pp')" "procs s' = (wake (ChPipeRead p) (procs s))[q := ?v]"
      using r 3(10) by auto
    have on: "ch \<noteq> ChPipeRead p \<and> sleeps_on s ch \<or> ch = ChPipeWrite p" if "sleeps_on s' ch" for ch
      using that sleeps_on_update [where s = "s\<lparr>procs := wake (ChPipeRead p) (procs s)\<rparr>" and q = q and v = ?v and ch = ch]
        sleeps_on_wake [where s = s and ch = "ChPipeRead p" and ch' = ch] s'(2) by (auto simp: sleeps_on_def)
    show ?thesis by (rule pipe_sleepers_one [OF sl, of p]) (use s' on 3 in auto)
  qed
qed

lemma pipe_sleepers_read:
  assumes sl: "pipe_sleepers s" and pp: "pipes s p = Some pp" "pipe_inv pp" and at: "at_pipe p s"
    and r: "leaves (piperead_rest p n s) = Some s'"
  shows "pipe_sleepers s'"
proof -
  from at obtain q where q: "myproc s = Some q" "held s = [LPipe p]" "q < length (procs s)"
    by (auto simp: at_pipe_def)
  show ?thesis
  proof (rule piperead_rest_ok [OF pp q, of n], goal_cases)
    case (1 pp')
    have s': "pipes s' = (pipes s)(p := Some pp')" "procs s' = wake (ChPipeWrite p) (procs s)" using r 1(6) by auto
    have on: "sleeps_on s' ch \<longleftrightarrow> ch \<noteq> ChPipeWrite p \<and> sleeps_on s ch" for ch
      using sleeps_on_wake [where s = s and ch = "ChPipeWrite p" and ch' = ch] s'(2) by (simp add: sleeps_on_def)
    show ?thesis
    proof (rule pipe_sleepers_one [OF sl, of p])
      fix pq assume a: "pipes s' p = Some pq" "sleeps_on s' (ChPipeRead p)"
      then have "pipe_empty pp \<and> pp_writeopen pp" using on pipe_sleepersD(1) [OF sl pp(1)] by simp
      then show "pipe_empty pq \<and> pp_writeopen pq" using 1 pq.empty_iff [OF pp(2)] by auto
    qed (use s' on in auto)
  next
    case 2
    have s': "pipes s' = pipes s" "procs s' = procs s" using r 2(4) by auto
    with sl show ?thesis by (simp add: pipe_sleepers_def sleeps_on_def)
  next
    case 3
    let ?v = "(procs s ! q)\<lparr>p_chan := Some (ChPipeRead p), p_state := SLEEPING\<rparr>"
    have s': "pipes s' = pipes s" "procs s' = (procs s)[q := ?v]" using r 3(4) by auto
    have on: "sleeps_on s ch \<or> ch = ChPipeRead p" if "sleeps_on s' ch" for ch
      using that sleeps_on_update [where s = s and q = q and v = ?v and ch = ch] s'(2) by (auto simp: sleeps_on_def)
    show ?thesis
      by (rule pipe_sleepers_one [OF sl, of p]) (use s' on 3 pp pipe_sleepersD(2) [OF sl pp(1)] in auto)
  qed
qed


lemma kfree_frame:
  assumes "kfree v s = Ret x s'" "LKmem \<notin> set (held s)"
  shows "procs s' = procs s" "pipes s' = pipes s"
  using assms kfree_panic [of s v] kfree_Ret [of s v] by (cases "kpage s v"; force)+

lemma pipe_sleepers_close:
  assumes sl: "pipe_sleepers s" and held: "held s = []" and r: "leaves (pipeclose p writable s) = Some s'"
  shows "pipe_sleepers s'"
proof -
  obtain pp where pp: "pipes s p = Some pp"
    using r held by (cases "pipes s p") (auto simp: pipeclose_def)
  define pp' where "pp' = (if writable then pp\<lparr>pp_writeopen := False\<rparr> else pp\<lparr>pp_readopen := False\<rparr>)"
  define ch where "ch = (if writable then ChPipeRead p else ChPipeWrite p)"
  define t where "t = set_pipe p pp' s\<lparr>procs := wake ch (procs s), held := []\<rparr>"
  have t: "pipes t = (pipes s)(p := Some pp')" "procs t = wake ch (procs s)" "held t = []"
    by (simp_all add: t_def held)
  have c: "pipeclose p writable s = (if \<not> pp_readopen pp' \<and> \<not> pp_writeopen pp'
      then kfree p (t\<lparr>pipes := (pipes t)(p := None)\<rparr>) else Ret () t)"
    using pp held by (cases writable) (auto simp: pipeclose_def t_def pp'_def ch_def)
  have s': "procs s' = wake ch (procs s) \<and>
     (pipes s' = (pipes s)(p := None) \<or> pipes s' = (pipes s)(p := Some pp'))"
  proof (cases "\<not> pp_readopen pp' \<and> \<not> pp_writeopen pp'")
    case True
    let ?t = "t\<lparr>pipes := (pipes t)(p := None)\<rparr>"
    have "leaves (kfree p ?t) = Some s'" using r c True by simp
    then have k: "kfree p ?t = Ret () s'"
      using kfree_panic [of ?t p] kfree_Ret [of ?t p] t(3) by (cases "kpage ?t p") auto
    have "procs s' = procs ?t" "pipes s' = pipes ?t"
      by (rule kfree_frame [OF k]; simp add: t)+
    then show ?thesis by (simp add: t)
  next
    case False
    with r c have "s' = t" by simp
    then show ?thesis by (simp add: t)
  qed
  have on: "sleeps_on s' c \<longleftrightarrow> c \<noteq> ch \<and> sleeps_on s c" for c
    using s' sleeps_on_wake [where s = s and ch = ch and ch' = c] by (simp add: sleeps_on_def)
  have keep: "pipe_empty pp' = pipe_empty pp" "pipe_full pp' = pipe_full pp"
    by (cases writable; simp add: pp'_def pipe_empty_def pipe_full_def)+
  have at: "pipes s' p = Some pr \<Longrightarrow> pr = pp'" and other: "p' \<noteq> p \<Longrightarrow> pipes s' p' = pipes s p'" for pr p'
    using s' by (elim conjE disjE; simp)+
  show ?thesis
  proof (rule pipe_sleepers_one [OF sl, of p])
    fix pr assume a: "pipes s' p = Some pr" "sleeps_on s' (ChPipeRead p)"
    then have "pr = pp'" "ChPipeRead p \<noteq> ch" using at on by simp_all
    with a(2) show "pipe_empty pr \<and> pp_writeopen pr"
      using on pipe_sleepersD(1) [OF sl pp] keep by (simp add: pp'_def ch_def split: if_splits)
  next
    fix pr assume a: "pipes s' p = Some pr" "sleeps_on s' (ChPipeWrite p)"
    then have "pr = pp'" "ChPipeWrite p \<noteq> ch" using at on by simp_all
    with a(2) show "pipe_full pr \<and> pp_readopen pr"
      using on pipe_sleepersD(2) [OF sl pp] keep by (simp add: pp'_def ch_def split: if_splits)
  qed (simp_all add: other on)
qed

lemma pipe_sleepers_kill:
  assumes sl: "pipe_sleepers s" and r: "leaves (kill pid s) = Some s'"
  shows "pipe_sleepers s'"
proof -
  have held: "LPtable \<notin> set (held s)" using r by (auto simp: kill_def acquire_def split: if_splits)
  obtain i v where s': "pipes s' = pipes s" "procs s' = procs s \<or> procs s' = (procs s)[i := v] \<and> p_state v \<noteq> SLEEPING"
  proof (cases "find_idx (\<lambda>p. p_pid p = pid) (procs s)")
    case None
    with r that show thesis by (simp add: kill_ok [OF held])
  next
    case (Some i)
    with r that [of i "killed (procs s ! i)"] show thesis by (auto simp: kill_ok [OF held] killed_def)
  qed
  have "sleeps_on s ch" if a: "sleeps_on s' ch" for ch
    using s'(2)
  proof
    assume "procs s' = procs s"
    with a show ?thesis by (simp add: sleeps_on_def)
  next
    assume v: "procs s' = (procs s)[i := v] \<and> p_state v \<noteq> SLEEPING"
    with a have "sleeps_on (s\<lparr>procs := (procs s)[i := v]\<rparr>) ch" by (simp add: sleeps_on_def)
    from sleeps_on_update [OF this] v show ?thesis by simp
  qed
  with sl s'(1) show ?thesis by (auto simp: pipe_sleepers_def)
qed

text \<open>
  A killed writer that fills the pipe returns \<open>-1\<close> without waking the readers: a reader that found the pipe empty
  stays asleep although the pipe is full.
\<close>

lemma failed_write_leaves_reader_asleep:
  assumes pp: "pipes s p = Some pp" "pipe_inv pp"
    and q: "myproc s = Some q" "held s = [LPipe p]" "q < length (procs s)" "p_state (procs s ! q) = RUNNING"
    and killed: "p_killed (procs s ! q)" and long: "512 < length (pipe_contents pp) + length data"
    and reader: "sleeps_on s (ChPipeRead p)"
  shows "\<exists>s' pp'. pipewrite_rest p data n s = Ret (-1) s' \<and> pipes s' p = Some pp' \<and> pipe_full pp'
    \<and> sleeps_on s' (ChPipeRead p)"
proof (rule pipewrite_rest_ok [OF pp q, of data n], goal_cases)
  case (1 pp')
  with long pq.bounded [OF 1(1)] show ?thesis by simp
next
  case (2 pp' m)
  with reader show ?thesis by (auto simp: sleeps_on_def)
next
  case (3 pp' m)
  with killed show ?thesis by simp
qed


text \<open>A fresh pipe at a page address, with a process that has its lock.\<close>

definition pipe_new :: pipe where
  "pipe_new = \<lparr>pp_data = replicate PIPESIZE 0, pp_nread = 0, pp_nwrite = 0, pp_readopen = True, pp_writeopen = True\<rparr>"

definition pst_boot :: pst where
  "pst_boot = fs.extend fs_boot (pst.fields ((\<lambda>_. None)(0x8dffe000 := Some pipe_new)))\<lparr>held := [LPipe 0x8dffe000]\<rparr>"

lemma pst_boot: "pipes pst_boot 0x8dffe000 = Some pipe_new" "at_pipe 0x8dffe000 pst_boot" "pipe_sleepers pst_boot"
  "pipe_at 0x8dffe000 pst_boot []" "pipe_inv pipe_new"
proof -
  have s: "procs pst_boot = procs kbase_run" "held pst_boot = [LPipe 0x8dffe000]" "myproc pst_boot = Some 0"
    by (simp_all add: pst_boot_def fs.defs myproc_def)
  have "p_state q \<noteq> SLEEPING" if "q \<in> set (procs kbase_run)" for q
    using that set_update_subset_insert [of "replicate NPROC proc_zero" 0 "proc_zero\<lparr>p_state := RUNNING, p_pid := 1\<rparr>"]
    by (auto simp: kbase_run_def proc_zero_def)
  then have nosl: "\<not> sleeps_on pst_boot ch" for ch by (auto simp: sleeps_on_def s)
  show p: "pipes pst_boot 0x8dffe000 = Some pipe_new" by (simp add: pst_boot_def fs.defs pst.defs)
  show "at_pipe 0x8dffe000 pst_boot" by (simp add: at_pipe_def s) (simp add: kbase_run_def kbase_boot_def)
  show "pipe_sleepers pst_boot" by (simp add: pipe_sleepers_def nosl)
  show "pipe_inv pipe_new" by (simp add: pipe_new_def pipe_inv_def)
  with p show "pipe_at 0x8dffe000 pst_boot []" by (auto simp: pipe_at_def) (simp add: pipe_contents_def pipe_new_def)
qed

lemma pst_boot_write:
  obtains s1 where "pipewrite_rest 0x8dffe000 [7, 9] 2 pst_boot = Ret 2 s1" "pipe_at 0x8dffe000 s1 [7, 9]"
    "unat (pp_nwrite (the (pipes s1 0x8dffe000)) - pp_nwrite (the (pipes pst_boot 0x8dffe000))) = 2"
proof -
  let ?p = "0x8dffe000 :: u32"
  note b = pst_boot
  from b(2) obtain q where q: "myproc pst_boot = Some q" "held pst_boot = [LPipe ?p]" "q < length (procs pst_boot)"
      "p_state (procs pst_boot ! q) = RUNNING" by (auto simp: at_pipe_def)
  have room: False if "pipe_inv pp'" "pipe_full pp'" "pipe_contents pp' = pipe_contents pipe_new @ take m [7, 9]" for pp' m
    using pq.full_iff [OF that(1)] that(2) arg_cong [OF that(3), of length] by (simp add: pipe_contents_def pipe_new_def)
  show thesis
  proof (rule pipewrite_rest_ok [OF b(1,5) q, of "[7, 9]" 2], goal_cases)
    case (1 pp')
    have c: "pipe_contents pp' = [7, 9]" using 1(5) b(1,4) by (simp add: pipe_at_def)
    have "unat (pp_nwrite pp' - pp_nwrite pipe_new) = 2" using contents_counter [OF b(5) 1(1,2,5)] by simp
    with 1 c b(1) show thesis by (intro that) (auto simp: pipe_at_def)
  qed (use room in blast)+
qed



end
