(* ===== verification/Console.thy ===== *)
theory Console
  imports Fs Ring
begin

text \<open>
  Console input: the keyboard (\<^verbatim>\<open>kbd.c\<close>, \<^verbatim>\<open>kbd.h\<close>), the input ring with its line editing, and the console as a device
  (\<^verbatim>\<open>console.c\<close>); also the listings \<^verbatim>\<open>getcallerpcs\<close> and \<^verbatim>\<open>procdump\<close>. A device is the list of bytes it has ready.
\<close>

section \<open>Keyboard\<close>

abbreviation (input) SHIFT :: u8 where "SHIFT \<equiv> 1"
abbreviation (input) CTL :: u8 where "CTL \<equiv> 2"
abbreviation (input) ALT :: u8 where "ALT \<equiv> 4"
abbreviation (input) CAPSLOCK :: u8 where "CAPSLOCK \<equiv> 8"
abbreviation (input) NUMLOCK :: u8 where "NUMLOCK \<equiv> 16"
abbreviation (input) SCROLLLOCK :: u8 where "SCROLLLOCK \<equiv> 32"
abbreviation (input) E0ESC :: u32 where "E0ESC \<equiv> 64"

definition shiftcode :: "u8 \<Rightarrow> u8" where
  "shiftcode d = (if d = 0x1D then CTL else if d = 0x2A then SHIFT else if d = 0x36 then SHIFT
     else if d = 0x38 then ALT else if d = 0x9D then CTL else if d = 0xB8 then ALT else 0)"

definition togglecode :: "u8 \<Rightarrow> u8" where
  "togglecode d = (if d = 0x3A then CAPSLOCK else if d = 0x45 then NUMLOCK else if d = 0x46 then SCROLLLOCK else 0)"

text \<open>The entries of the key maps that are given by their index.\<close>

definition keypad :: "u8 \<Rightarrow> u8" where
  "keypad d = (if d = 0xC8 then 0xE2 else if d = 0xD0 then 0xE3 else if d = 0xC9 then 0xE6 else if d = 0xD1 then 0xE7
     else if d = 0xCB then 0xE4 else if d = 0xCD then 0xE5 else if d = 0x97 then 0xE0 else if d = 0xCF then 0xE1
     else if d = 0xD2 then 0xE8 else if d = 0xD3 then 0xE9 else 0)"

definition tab_entry :: "bytes \<Rightarrow> u8 \<Rightarrow> u8 \<Rightarrow> u8 \<Rightarrow> u8" where
  "tab_entry tab enter slash d = (if unat d < length tab then tab ! unat d
     else if d = 0x9C then enter else if d = 0xB5 then slash else keypad d)"

definition numpad :: bytes where
  "numpad = [0, 32, 0, 0, 0, 0, 0, 0, 0, 0, 0, 0, 0, 0, 0] @ lit ''789-456+1230.'' @ [0, 0, 0, 0]"

definition normalmap :: "u8 \<Rightarrow> u8" where
  "normalmap = tab_entry ([0, 0x1B] @ lit ''1234567890-='' @ [8, 9] @ lit ''qwertyuiop[]'' @ [10, 0] @
     lit ''asdfghjkl;'' @ [39, 96, 0, 92] @ lit ''zxcvbnm,./'' @ [0, 42] @ numpad) 10 47"

definition shiftmap :: "u8 \<Rightarrow> u8" where
  "shiftmap = tab_entry ([0, 0x1B] @ lit ''!@#$%^&*()_+'' @ [8, 9] @ lit ''QWERTYUIOP{}'' @ [10, 0] @
     lit ''ASDFGHJKL:'' @ [34, 126, 0, 124] @ lit ''ZXCVBNM<>?'' @ [0, 42] @ numpad) 10 47"

definition ctlmap :: "u8 \<Rightarrow> u8" where
  "ctlmap = tab_entry (replicate 16 0 @ map (\<lambda>c. c - 64) (lit ''QWERTYUIOP'') @ [0, 0, 13, 0] @
     map (\<lambda>c. c - 64) (lit ''ASDFGHJKL'') @ [0, 0, 0, 0, 28] @ map (\<lambda>c. c - 64) (lit ''ZXCVBNM'') @
     [0, 0, 47 - 64, 0, 0]) 13 (47 - 64)"

text \<open>
  \<^verbatim>\<open>kbdgetc\<close> when the controller has a byte; without one it returns -1.
\<close>

definition kbdgetc :: "u8 \<Rightarrow> console \<Rightarrow> u32 \<times> console" where
  "kbdgetc data k =
     (let shift = c_shift k in
      if data = 0xE0 then (0, k\<lparr>c_shift := shift OR E0ESC\<rparr>)
      else if data AND 0x80 \<noteq> 0 then
        let data = (if shift AND E0ESC \<noteq> 0 then data else data AND 0x7F)
        in (0, k\<lparr>c_shift := shift AND NOT (ucast (shiftcode data) OR E0ESC)\<rparr>)
      else
        let (data, shift) = (if shift AND E0ESC \<noteq> 0 then (data OR 0x80, shift AND NOT E0ESC) else (data, shift));
            shift = shift OR ucast (shiftcode data);
            shift = shift XOR ucast (togglecode data);
            m = shift AND 3;
            c = (if m = 0 then normalmap data else if m = 1 then shiftmap data else ctlmap data);
            c = (if shift AND 8 \<noteq> 0 then
                   if 97 \<le> c \<and> c \<le> 122 then c + (65 - 97)
                   else if 65 \<le> c \<and> c \<le> 90 then c + (97 - 65) else c
                 else c)
        in (ucast c, k\<lparr>c_shift := shift\<rparr>))"

text \<open>\<^verbatim>\<open>uartgetc\<close> when the serial port has a byte.\<close>

definition uartgetc :: "u8 \<Rightarrow> console \<Rightarrow> u32 \<times> console" where
  "uartgetc data k = (ucast data, k)"

section \<open>Listings\<close>

fun getcallerpcs_loop :: "nat \<Rightarrow> u32 \<Rightarrow> mem \<Rightarrow> u32 list" where
  "getcallerpcs_loop 0 ebp m = []"
| "getcallerpcs_loop (Suc n) ebp m =
     (if ebp = 0 \<or> ebp < KERNBASE \<or> ebp = 0xFFFFFFFF then replicate (Suc n) 0
      else load32 m (ebp + 4) # getcallerpcs_loop n (load32 m ebp) m)"

definition getcallerpcs :: "u32 \<Rightarrow> mem \<Rightarrow> u32 list" where
  "getcallerpcs v m = getcallerpcs_loop 10 (v - 8) m"

definition state_name :: "procstate \<Rightarrow> bytes" where
  "state_name st = (case st of UNUSED \<Rightarrow> lit ''unused'' | EMBRYO \<Rightarrow> lit ''embryo'' | SLEEPING \<Rightarrow> lit ''sleep ''
     | RUNNABLE \<Rightarrow> lit ''runble'' | RUNNING \<Rightarrow> lit ''run   '' | ZOMBIE \<Rightarrow> lit ''zombie'')"

definition procdump_one :: "nat \<Rightarrow> 'x kmem_scheme \<Rightarrow> (unit, 'x kmem_scheme) outcome" where
  "procdump_one i s =
     (let p = procs s ! i in
      if p_state p = UNUSED then Ret () s
      else if \<not> terminated (p_name p) then undef
      else
        kbind (cprintf (lit ''%d %s %s'')
          [ANum (word_of_int (p_pid p)), AStr (Some (state_name (p_state p))), AStr (Some (cstr (p_name p)))] s) (\<lambda>_ s.
        kbind (if p_state p = SLEEPING then
                 kfor (takeWhile (\<lambda>pc. pc \<noteq> 0) (getcallerpcs (cx_ebp (p_context p) + 8) (mem s)))
                   (\<lambda>pc. cprintf (lit '' %p'') [ANum pc]) s
               else Ret () s) (\<lambda>_ s.
        cprintf [NEWLINE] [] s)))"

definition procdump :: "'x kmem_scheme \<Rightarrow> (unit, 'x kmem_scheme) outcome" where
  "procdump s = kfor [0..<length (procs s)] procdump_one s"

section \<open>The input ring\<close>

abbreviation (input) INPUT_BUF :: nat where "INPUT_BUF \<equiv> 128"

lemma consputc_keeps:
  "consputc c k = Ret x k' \<Longrightarrow>
     c_e k' = c_e k \<and> c_w k' = c_w k \<and> c_r k' = c_r k \<and> c_buf k' = c_buf k \<and> c_locking k' = c_locking k"
  by (auto simp: consputc_def cgaputc_def uartputc_def Let_def split: if_splits prod.splits)

text \<open>Control-U: the line being edited is erased.\<close>

function killline :: "console \<Rightarrow> (unit, console) outcome" where
  "killline k =
     (if c_e k \<noteq> c_w k \<and> c_buf k ! (unat (c_e k - 1) mod INPUT_BUF) \<noteq> NEWLINE then
        kbind (consputc BACKSPACE (k\<lparr>c_e := c_e k - 1\<rparr>)) (\<lambda>_ k. killline k)
      else Ret () k)"
  by pat_completeness auto
termination
proof (relation "measure (\<lambda>k. unat (c_e k - c_w k))", simp)
  fix k x k' assume a: "c_e k \<noteq> c_w k \<and> c_buf k ! (unat (c_e k - 1) mod INPUT_BUF) \<noteq> NEWLINE"
    and "consputc BACKSPACE (k\<lparr>c_e := c_e k - 1\<rparr>) = Ret x k'"
  then have "c_e k' = c_e k - 1" "c_w k' = c_w k" using consputc_keeps by fastforce+
  moreover have "unat (c_e k - c_w k) \<noteq> 0" using a by (simp add: unat_eq_0)
  then have "unat (c_e k - 1 - c_w k) < unat (c_e k - c_w k)"
    using unat_minus_one [of "c_e k - c_w k"] a by (simp add: algebra_simps)
  ultimately show "(k', k) \<in> measure (\<lambda>k. unat (c_e k - c_w k))" by simp
qed

declare killline.simps [simp del]

text \<open>
  One character of the loop of \<^verbatim>\<open>consoleintr\<close>; the result says whether a process listing is asked for.
\<close>

definition consoleintr_char :: "u32 \<Rightarrow> 'x kbase_scheme \<Rightarrow> (bool, 'x kbase_scheme) outcome" where
  "consoleintr_char c s =
     (if c = 16 then Ret True s
      else if c = 21 then kbind (on_cons killline s) (\<lambda>_ s. Ret False s)
      else if c = 8 \<or> c = 0x7F then
        (if c_e (cons s) \<noteq> c_w (cons s) then
           kbind (on_cons (\<lambda>k. consputc BACKSPACE (k\<lparr>c_e := c_e k - 1\<rparr>)) s) (\<lambda>_ s. Ret False s)
         else Ret False s)
      else if c \<noteq> 0 \<and> c_e (cons s) - c_r (cons s) < of_nat INPUT_BUF then
        let c = (if c = 13 then 10 else c) in
        kbind (on_cons (\<lambda>k. consputc c
                 (k\<lparr>c_buf := (c_buf k)[unat (c_e k) mod INPUT_BUF := ucast c], c_e := c_e k + 1\<rparr>)) s) (\<lambda>_ s.
        if c = 10 \<or> c = 4 \<or> c_e (cons s) = c_r (cons s) + of_nat INPUT_BUF then
          kbind (wakeup ChInput (s\<lparr>cons := (cons s)\<lparr>c_w := c_e (cons s)\<rparr>\<rparr>)) (\<lambda>_ s. Ret False s)
        else Ret False s)
      else Ret False s)"

fun consoleintr_loop :: "(u8 \<Rightarrow> console \<Rightarrow> u32 \<times> console) \<Rightarrow> bytes \<Rightarrow> bool \<Rightarrow> 'x kbase_scheme
    \<Rightarrow> (bool, 'x kbase_scheme) outcome" where
  "consoleintr_loop getc [] dump s = Ret dump s"
| "consoleintr_loop getc (d # ds) dump s =
     (let (c, k) = getc d (cons s) in
      kbind (consoleintr_char c (s\<lparr>cons := k\<rparr>)) (\<lambda>b s. consoleintr_loop getc ds (dump \<or> b) s))"

definition consoleintr :: "(u8 \<Rightarrow> console \<Rightarrow> u32 \<times> console) \<Rightarrow> bytes \<Rightarrow> 'x kmem_scheme \<Rightarrow> (unit, 'x kmem_scheme) outcome"
where
  "consoleintr getc ds s =
     kbind (acquire LCons s) (\<lambda>_ s.
     kbind (consoleintr_loop getc ds False s) (\<lambda>dump s.
     kbind (release LCons s) (\<lambda>_ s.
     if dump then procdump s else Ret () s)))"

definition kbdintr :: "bytes \<Rightarrow> 'x kmem_scheme \<Rightarrow> (unit, 'x kmem_scheme) outcome" where
  "kbdintr ds s = consoleintr kbdgetc ds s"

text \<open>Without a serial port \<^verbatim>\<open>uartgetc\<close> returns -1 at once.\<close>

definition uartintr :: "bytes \<Rightarrow> 'x kmem_scheme \<Rightarrow> (unit, 'x kmem_scheme) outcome" where
  "uartintr ds s = consoleintr uartgetc (if c_uart (cons s) then ds else []) s"

section \<open>The console as a device\<close>

text \<open>
  The loop of \<^verbatim>\<open>consoleread\<close> with \<open>n\<close> of \<open>target\<close> bytes to go: the bytes it copies, or \<^const>\<open>None\<close> when the process is
  killed. A reader that sleeps goes on with the loop for the bytes that are left.
\<close>

fun consoleread_loop :: "nat \<Rightarrow> nat \<Rightarrow> 'x kbase_scheme \<Rightarrow> (bytes option, 'x kbase_scheme) outcome" where
  "consoleread_loop target 0 s = Ret (Some []) s"
| "consoleread_loop target (Suc n) s =
     (if c_r (cons s) = c_w (cons s) then
        (case myproc s of None \<Rightarrow> Panic ''trap''
         | Some p \<Rightarrow> if p_killed (procs s ! p) then Ret None s else sleep ChInput LCons s)
      else
        let k = cons s; c = c_buf k ! (unat (c_r k) mod INPUT_BUF); s' = s\<lparr>cons := k\<lparr>c_r := c_r k + 1\<rparr>\<rparr> in
        if c = 4 then Ret (Some []) (if Suc n < target then s else s')
        else if c = NEWLINE then Ret (Some [c]) s'
        else kbind (consoleread_loop target n s') (\<lambda>r s. Ret (map_option ((#) c) r) s))"

definition consoleread_rest :: "nat \<Rightarrow> nat \<Rightarrow> nat \<Rightarrow> 'x fs_scheme \<Rightarrow> (int \<times> bytes, 'x fs_scheme) outcome" where
  "consoleread_rest ip target n s =
     kbind (consoleread_loop target n s) (\<lambda>r s.
     kbind (release LCons s) (\<lambda>_ s.
     kbind (ilock (Some ip) s) (\<lambda>_ s.
     case r of None \<Rightarrow> Ret (-1, []) s
     | Some d \<Rightarrow> Ret (int (target - (n - length d)), d) s)))"

definition consoleread :: "nat \<Rightarrow> int \<Rightarrow> 'x fs_scheme \<Rightarrow> (int \<times> bytes, 'x fs_scheme) outcome" where
  "consoleread ip n s =
     kbind (iunlock (Some ip) s) (\<lambda>_ s.
     kbind (acquire LCons s) (\<lambda>_ s.
     consoleread_rest ip (nat n) (nat n) s))"

definition consolewrite :: "nat \<Rightarrow> bytes \<Rightarrow> 'x fs_scheme \<Rightarrow> (int, 'x fs_scheme) outcome" where
  "consolewrite ip buf s =
     kbind (iunlock (Some ip) s) (\<lambda>_ s.
     kbind (acquire LCons s) (\<lambda>_ s.
     kbind (on_cons (kfor buf (\<lambda>c. consputc (ucast c))) s) (\<lambda>_ s.
     kbind (release LCons s) (\<lambda>_ s.
     kbind (ilock (Some ip) s) (\<lambda>_ s.
     Ret (int (length buf)) s)))))"

section \<open>The line discipline\<close>

text \<open>
  What the input is for the processes that read it: the bytes they may read, and the line that is still being edited.
\<close>

type_synonym tty = "bytes \<times> bytes"

definition tty_char :: "u32 \<Rightarrow> tty \<Rightarrow> tty" where
  "tty_char c t = (let (ready, line) = t in
     if c = 16 then t
     else if c = 21 then (ready, [])
     else if c = 8 \<or> c = 0x7F then (ready, butlast line)
     else if c \<noteq> 0 \<and> length ready + length line < INPUT_BUF then
       let c = (if c = 13 then 10 else c); line = line @ [ucast c] in
       if c = 10 \<or> c = 4 \<or> length ready + length line = INPUT_BUF then (ready @ line, []) else (ready, line)
     else t)"

definition tty_of :: "console \<Rightarrow> tty" where
  "tty_of k = (ring (c_buf k) (c_r k) (c_w k), ring (c_buf k) (c_w k) (c_e k))"

definition in_inv :: "console \<Rightarrow> bool" where
  "in_inv k \<longleftrightarrow> length (c_buf k) = INPUT_BUF \<and> unat (c_w k - c_r k) \<le> unat (c_e k - c_r k)
     \<and> unat (c_e k - c_r k) \<le> INPUT_BUF \<and> NEWLINE \<notin> set (snd (tty_of k))"

lemma ring_size_128 [simp]: "ring_size 128"
  unfolding ring_size_def
proof
  have "(128::nat) dvd 2 ^ 7" by simp
  also have "(2::nat) ^ 7 dvd 2 ^ 32" by (rule le_imp_power_dvd) simp
  finally show "(128::nat) dvd 2 ^ 32" .
qed simp

lemma in_inv_len: "in_inv k \<Longrightarrow> unat (c_e k - c_r k) = length (fst (tty_of k)) + length (snd (tty_of k))"
  using ring_append(2) [of "c_w k" "c_r k" "c_e k"] by (simp add: in_inv_def tty_of_def)

text \<open>The operations on the counters.\<close>

lemma in_put:
  fixes k :: console and c :: u8
  assumes inv: "in_inv k" and lt: "unat (c_e k - c_r k) < INPUT_BUF"
  defines "k' \<equiv> k\<lparr>c_buf := (c_buf k)[unat (c_e k) mod INPUT_BUF := c], c_e := c_e k + 1\<rparr>"
  shows "tty_of k' = (fst (tty_of k), snd (tty_of k) @ [c])" "unat (c_e k' - c_r k') = Suc (unat (c_e k - c_r k))"
    "unat (c_w k' - c_r k') \<le> unat (c_e k' - c_r k')" "length (c_buf k') = INPUT_BUF"
proof -
  let ?b = "ring_put (c_buf k) (c_e k) c"
  have len: "length (c_buf k) = 128" and le: "unat (c_w k - c_r k) \<le> unat (c_e k - c_r k)"
    using inv by (simp_all add: in_inv_def)
  have b: "c_buf k' = ?b" by (simp add: k'_def ring_put_def len)
  have e: "unat (c_e k + 1 - c_r k) = Suc (unat (c_e k - c_r k))"
  proof -
    have "unat ((c_e k - c_r k) + 1) = unat (c_e k - c_r k) + unat (1::u32)" using lt by (intro unat_add_u32) simp
    then show ?thesis by (simp add: algebra_simps)
  qed
  show "unat (c_e k' - c_r k') = Suc (unat (c_e k - c_r k))" using e by (simp add: k'_def)
  show "unat (c_w k' - c_r k') \<le> unat (c_e k' - c_r k')" using e le by (simp add: k'_def)
  show "length (c_buf k') = 128" using len by (simp add: k'_def)
  have lt': "unat (c_e k - c_w k) < 128" using ring_append(2) [OF le] lt by simp
  have 1: "ring ?b (c_r k) (c_e k + 1) = ring (c_buf k) (c_r k) (c_e k) @ [c]"
    and 2: "ring ?b (c_w k) (c_e k + 1) = ring (c_buf k) (c_w k) (c_e k) @ [c]"
    by (rule ring_put_snoc; use lt lt' len in simp)+
  have "ring ?b (c_r k) (c_e k + 1) = ring ?b (c_r k) (c_w k) @ ring ?b (c_w k) (c_e k + 1)"
    by (rule ring_append(1)) (use le e in simp)
  with 1 2 ring_append(1) [OF le, of "c_buf k"] have "ring ?b (c_r k) (c_w k) = ring (c_buf k) (c_r k) (c_w k)" by simp
  with 2 show "tty_of k' = (fst (tty_of k), snd (tty_of k) @ [c])"
    unfolding tty_of_def b by (simp add: k'_def)
qed

lemma in_erase:
  assumes inv: "in_inv k" and ne: "c_e k \<noteq> c_w k"
  defines "k' \<equiv> k\<lparr>c_e := c_e k - 1\<rparr>"
  shows "tty_of k' = (fst (tty_of k), butlast (snd (tty_of k)))" "in_inv k'"
proof -
  have le: "unat (c_w k - c_r k) \<le> unat (c_e k - c_r k)" "unat (c_e k - c_r k) \<le> 128" using inv by (simp_all add: in_inv_def)
  have n: "unat (c_e k - c_w k) \<noteq> 0" using ne by (simp add: unat_eq_0)
  with ring_append(2) [OF le(1)] have lt: "unat (c_w k - c_r k) < unat (c_e k - c_r k)" by simp
  then have "c_e k - c_r k \<noteq> 0" by auto
  then have "unat (c_e k - 1 - c_r k) = unat (c_e k - c_r k) - 1"
    using unat_minus_one [of "c_e k - c_r k"] by (simp add: algebra_simps)
  moreover show t: "tty_of k' = (fst (tty_of k), butlast (snd (tty_of k)))"
    using ring_butlast [of "c_w k" "c_e k"] ne by (simp add: tty_of_def k'_def)
  ultimately show "in_inv k'"
    using inv lt le in_set_butlastD [of NEWLINE "snd (tty_of k)"] unfolding in_inv_def t by (auto simp: k'_def)
qed

lemma tty_of_cong: "c_e k' = c_e k \<Longrightarrow> c_w k' = c_w k \<Longrightarrow> c_r k' = c_r k \<Longrightarrow> c_buf k' = c_buf k \<Longrightarrow> tty_of k' = tty_of k"
  and in_inv_cong: "c_e k' = c_e k \<Longrightarrow> c_w k' = c_w k \<Longrightarrow> c_r k' = c_r k \<Longrightarrow> c_buf k' = c_buf k \<Longrightarrow> in_inv k' = in_inv k"
  by (simp_all add: tty_of_def in_inv_def)

lemma consputc_uart: "consputc c k = Ret x k' \<Longrightarrow> c_uart k' = c_uart k \<and> c_shift k' = c_shift k"
  by (auto simp: consputc_def cgaputc_def uartputc_def Let_def split: if_splits prod.splits)

text \<open>Printing a character does not touch the input.\<close>

lemma consputc_input:
  assumes "cons_ok k"
  obtains k' where "consputc c k = Ret () k'" "cons_ok k'" "c_e k' = c_e k" "c_w k' = c_w k" "c_r k' = c_r k"
    "c_buf k' = c_buf k" "c_locking k' = c_locking k" "c_uart k' = c_uart k" "c_shift k' = c_shift k" "tty_of k' = tty_of k" "in_inv k' = in_inv k"
proof -
  have "wp (consputc c k) (\<lambda>_ k'. cons_ok k')"
    using assms unfolding consputc_def cons_ok_def by (auto simp: uartputc_def intro!: wp_cgaputc)
  then obtain k' where k': "consputc c k = Ret () k'" "cons_ok k'" by (auto simp: wp_iff)
  note keep = consputc_keeps [OF k'(1)]
  from keep have "tty_of k' = tty_of k" "in_inv k' = in_inv k"
    using tty_of_cong [of k' k] in_inv_cong [of k' k] by blast+
  with k' keep consputc_uart [OF k'(1)] that show thesis by blast
qed

lemma wp_killline:
  assumes "cons_ok k" "in_inv k"
    and "\<And>k'. cons_ok k' \<Longrightarrow> in_inv k' \<Longrightarrow> tty_of k' = (fst (tty_of k), []) \<Longrightarrow> c_locking k' = c_locking k
      \<Longrightarrow> c_uart k' = c_uart k \<Longrightarrow> c_shift k' = c_shift k \<Longrightarrow> Q () k'"
  shows "wp (killline k) Q"
  using assms
proof (induction k rule: killline.induct)
  case (1 k)
  show ?case
  proof (cases "c_e k = c_w k")
    case True
    then have "snd (tty_of k) = []" by (simp add: tty_of_def)
    then have "tty_of k = (fst (tty_of k), [])" by (metis prod.collapse)
    with True "1.prems" show ?thesis by (subst killline.simps) simp
  next
    case False
    let ?l = "c_buf k ! (unat (c_e k - 1) mod INPUT_BUF)"
    have l: "?l \<in> set (snd (tty_of k))"
    proof -
      have "ring (c_buf k) (c_w k) (c_e k) = ring (c_buf k) (c_w k) (c_e k - 1) @ ring (c_buf k) (c_e k - 1) (c_e k)"
      proof (rule ring_append(1))
        show "unat (c_e k - 1 - c_w k) \<le> unat (c_e k - c_w k)"
          using unat_minus_one [of "c_e k - c_w k"] False by (simp add: algebra_simps)
      qed
      moreover have "ring (c_buf k) (c_e k - 1) (c_e k) = [ring_get (c_buf k) (c_e k - 1)]"
        using ring_get_Cons [of "c_e k - 1" "c_e k" "c_buf k"] by simp
      ultimately show ?thesis using "1.prems"(2) by (simp add: tty_of_def ring_get_def in_inv_def)
    qed
    then have c: "c_e k \<noteq> c_w k \<and> ?l \<noteq> NEWLINE" using False "1.prems"(2) by (auto simp: in_inv_def)
    let ?k = "k\<lparr>c_e := c_e k - 1\<rparr>"
    have er: "tty_of ?k = (fst (tty_of k), butlast (snd (tty_of k)))" "in_inv ?k"
      using in_erase [OF "1.prems"(2) False] by simp_all
    have "cons_ok ?k" using "1.prems"(1) by (simp add: cons_ok_def)
    then obtain k1 where k1: "consputc BACKSPACE ?k = Ret () k1" "cons_ok k1" "tty_of k1 = tty_of ?k" "in_inv k1 = in_inv ?k"
        "c_locking k1 = c_locking ?k" "c_uart k1 = c_uart ?k" "c_shift k1 = c_shift ?k" by (rule consputc_input)
    with er have t1: "fst (tty_of k1) = fst (tty_of k)" "in_inv k1" by simp_all
    have "wp (killline k1) Q"
      by (rule "1.IH" [OF c k1(1,2) t1(2)]) (use "1.prems"(3) t1(1) k1(5-7) in simp)
    with c k1(1) show ?thesis by (subst killline.simps) simp
  qed
qed


text \<open>What one character does to the kernel: the console changes, and sleeping readers may be woken.\<close>

definition cframe :: "'x kbase_scheme \<Rightarrow> 'x kbase_scheme \<Rightarrow> bool" where
  "cframe s s' \<longleftrightarrow> (\<exists>k ps. s' = s\<lparr>cons := k, procs := ps\<rparr> \<and> woken (procs s) ps \<and> c_locking k = c_locking (cons s)
     \<and> c_uart k = c_uart (cons s) \<and> c_shift k = c_shift (cons s))"

lemma cframe_refl: "cframe s s"
  unfolding cframe_def by (rule exI [of _ "cons s"], rule exI [of _ "procs s"]) simp

lemma cframe_trans: "cframe s t \<Longrightarrow> cframe t u \<Longrightarrow> cframe s u"
proof -
  assume "cframe s t" "cframe t u"
  then obtain k ps k' ps' where t: "t = s\<lparr>cons := k, procs := ps\<rparr>" "woken (procs s) ps" "c_locking k = c_locking (cons s)"
      "c_uart k = c_uart (cons s)" "c_shift k = c_shift (cons s)"
    and u: "u = t\<lparr>cons := k', procs := ps'\<rparr>" "woken (procs t) ps'" "c_locking k' = c_locking (cons t)"
      "c_uart k' = c_uart (cons t)" "c_shift k' = c_shift (cons t)"
    unfolding cframe_def by blast
  have "u = s\<lparr>cons := k', procs := ps'\<rparr>" using t(1) u(1) by simp
  moreover have "woken (procs s) ps'" using woken_trans [OF t(2)] u(2) t(1) by simp
  ultimately show "cframe s u" using t u unfolding cframe_def
    by (intro exI [of _ k'] exI [of _ ps']) simp
qed

lemma cframe_held: "cframe s s' \<Longrightarrow> held s' = held s"
  by (auto simp: cframe_def)

lemma wp_on_cons:
  assumes "wp (f (cons s)) (\<lambda>x k. Q x (s\<lparr>cons := k\<rparr>))"
  shows "wp (on_cons f s) Q"
  using assms by (cases "f (cons s)") (simp_all add: on_cons_def)

definition tty_ok :: "console \<Rightarrow> bool" where
  "tty_ok k \<longleftrightarrow> cons_ok k \<and> in_inv k"

lemma tty_ok_shift: "tty_ok (k\<lparr>c_shift := h\<rparr>) = tty_ok k" "tty_of (k\<lparr>c_shift := h\<rparr>) = tty_of k"
  by (simp_all add: tty_ok_def cons_ok_def in_inv_def tty_of_def)

lemma wp_consoleintr_erase:
  assumes "tty_ok (cons s)" "c_e (cons s) \<noteq> c_w (cons s)"
  shows "wp (on_cons (\<lambda>k. consputc BACKSPACE (k\<lparr>c_e := c_e k - 1\<rparr>)) s)
    (\<lambda>_ s'. cframe s s' \<and> tty_ok (cons s') \<and> tty_of (cons s') = (fst (tty_of (cons s)), butlast (snd (tty_of (cons s)))))"
proof -
  let ?k = "cons s" and ?k1 = "(cons s)\<lparr>c_e := c_e (cons s) - 1\<rparr>"
  have er: "tty_of ?k1 = (fst (tty_of ?k), butlast (snd (tty_of ?k)))" "in_inv ?k1"
    using in_erase [OF _ assms(2)] assms(1) by (simp_all add: tty_ok_def)
  have "cons_ok ?k1" using assms(1) by (simp add: tty_ok_def cons_ok_def)
  then obtain k2 where k2: "consputc BACKSPACE ?k1 = Ret () k2" "cons_ok k2" "tty_of k2 = tty_of ?k1" "in_inv k2 = in_inv ?k1"
      "c_locking k2 = c_locking ?k1" "c_uart k2 = c_uart ?k1" "c_shift k2 = c_shift ?k1" by (rule consputc_input)
  have "cframe s (s\<lparr>cons := k2\<rparr>)"
    unfolding cframe_def using k2 by (intro exI [of _ k2] exI [of _ "procs s"]) simp
  with er k2 show ?thesis by (intro wp_on_cons) (simp add: tty_ok_def)
qed

lemma wp_consoleintr_killline:
  assumes "tty_ok (cons s)"
  shows "wp (on_cons killline s)
    (\<lambda>_ s'. cframe s s' \<and> tty_ok (cons s') \<and> tty_of (cons s') = (fst (tty_of (cons s)), []))"
proof (intro wp_on_cons wp_killline)
  fix k assume k: "cons_ok k" "in_inv k" "tty_of k = (fst (tty_of (cons s)), [])" "c_locking k = c_locking (cons s)"
    "c_uart k = c_uart (cons s)" "c_shift k = c_shift (cons s)"
  have "cframe s (s\<lparr>cons := k\<rparr>)"
    unfolding cframe_def using k by (intro exI [of _ k] exI [of _ "procs s"]) simp
  with k show "cframe s (s\<lparr>cons := k\<rparr>) \<and> tty_ok (cons (s\<lparr>cons := k\<rparr>)) \<and>
      tty_of (cons (s\<lparr>cons := k\<rparr>)) = (fst (tty_of (cons s)), [])" by (simp add: tty_ok_def)
qed (use assms in \<open>simp_all add: tty_ok_def\<close>)


lemma in_commit:
  assumes "length (c_buf k) = INPUT_BUF" "unat (c_w k - c_r k) \<le> unat (c_e k - c_r k)" "unat (c_e k - c_r k) \<le> INPUT_BUF"
  defines "k' \<equiv> k\<lparr>c_w := c_e k\<rparr>"
  shows "tty_of k' = (fst (tty_of k) @ snd (tty_of k), [])" "in_inv k'"
  using assms ring_append(1) [OF assms(2), of "c_buf k"] by (simp_all add: tty_of_def in_inv_def)

lemma in_full_iff: "c_e k = c_r k + of_nat INPUT_BUF \<longleftrightarrow> unat (c_e k - c_r k) = INPUT_BUF"
proof -
  have "c_e k = c_r k + of_nat INPUT_BUF \<longleftrightarrow> c_e k - c_r k = 128" by (auto simp: algebra_simps)
  also have "\<dots> \<longleftrightarrow> unat (c_e k - c_r k) = unat (128 :: u32)" by (simp only: word_unat_eq_iff)
  finally show ?thesis by simp
qed

lemma ucast_newline_iff: "c < 256 \<Longrightarrow> (ucast (c :: u32) :: u8) = NEWLINE \<longleftrightarrow> c = 10"
proof -
  assume "c < 256"
  then have "unat (ucast c :: u8) = unat c"
    by (simp add: unsigned_ucast_eq word_less_nat_alt take_bit_nat_eq_self)
  then show ?thesis by (auto simp: word_unat_eq_iff)
qed

lemma wp_consoleintr_put:
  fixes s :: "'x kbase_scheme"
  assumes ok: "tty_ok (cons s)" and c: "c < 256" and lt: "unat (c_e (cons s) - c_r (cons s)) < INPUT_BUF"
    and held: "LPtable \<notin> set (held s)"
  defines "line \<equiv> snd (tty_of (cons s)) @ [ucast c]" and "ready \<equiv> fst (tty_of (cons s))"
  shows "wp (kbind (on_cons (\<lambda>k. consputc c
                 (k\<lparr>c_buf := (c_buf k)[unat (c_e k) mod INPUT_BUF := ucast c], c_e := c_e k + 1\<rparr>)) s) (\<lambda>_ s.
        if c = 10 \<or> c = 4 \<or> c_e (cons s) = c_r (cons s) + of_nat INPUT_BUF then
          kbind (wakeup ChInput (s\<lparr>cons := (cons s)\<lparr>c_w := c_e (cons s)\<rparr>\<rparr>)) (\<lambda>_ s. Ret False s)
        else Ret False s))
     (\<lambda>b s'. \<not> b \<and> cframe s s' \<and> tty_ok (cons s') \<and>
        tty_of (cons s') = (if c = 10 \<or> c = 4 \<or> length ready + length line = INPUT_BUF then (ready @ line, []) else (ready, line)))"
proof -
  let ?k = "cons s"
  let ?k1 = "?k\<lparr>c_buf := (c_buf ?k)[unat (c_e ?k) mod INPUT_BUF := ucast c], c_e := c_e ?k + 1\<rparr>"
  have inv: "in_inv ?k" "cons_ok ?k" using ok by (simp_all add: tty_ok_def)
  note put = in_put [OF inv(1) lt, of "ucast c"]
  have t1: "tty_of ?k1 = (ready, line)" using put(1) by (simp add: ready_def line_def)
  have "cons_ok ?k1" using inv(2) by (simp add: cons_ok_def)
  then obtain k2 where k2: "consputc c ?k1 = Ret () k2" "cons_ok k2" "c_e k2 = c_e ?k1" "c_w k2 = c_w ?k1" "c_r k2 = c_r ?k1"
      "c_buf k2 = c_buf ?k1" "c_locking k2 = c_locking ?k1" "c_uart k2 = c_uart ?k1" "c_shift k2 = c_shift ?k1" "tty_of k2 = tty_of ?k1" by (rule consputc_input)
  have on: "on_cons (\<lambda>k. consputc c
      (k\<lparr>c_buf := (c_buf k)[unat (c_e k) mod INPUT_BUF := ucast c], c_e := c_e k + 1\<rparr>)) s = Ret () (s\<lparr>cons := k2\<rparr>)"
    using k2(1) by (simp add: on_cons_def)
  have bnd: "length (c_buf k2) = INPUT_BUF" "unat (c_w k2 - c_r k2) \<le> unat (c_e k2 - c_r k2)" "unat (c_e k2 - c_r k2) \<le> INPUT_BUF"
    using put(2-4) lt unfolding k2(3-6) by simp_all
  have full: "c_e k2 = c_r k2 + of_nat INPUT_BUF \<longleftrightarrow> length ready + length line = INPUT_BUF"
  proof -
    have "unat (c_e k2 - c_r k2) = length ready + length line"
      using ring_append(2) [OF bnd(2)] k2(10) t1 by (auto simp: tty_of_def)
    then show ?thesis unfolding in_full_iff by simp
  qed
  show ?thesis
  proof (cases "c = 10 \<or> c = 4 \<or> length ready + length line = INPUT_BUF")
    case True
    let ?k3 = "k2\<lparr>c_w := c_e k2\<rparr>"
    have cm: "tty_of ?k3 = (ready @ line, [])" "in_inv ?k3" using in_commit [OF bnd] k2(10) t1 by simp_all
    have "cframe s (s\<lparr>cons := ?k3, procs := wake ChInput (procs s)\<rparr>)"
      unfolding cframe_def using k2 by (intro exI [of _ ?k3] exI [of _ "wake ChInput (procs s)"]) simp
    then show ?thesis using True held cm k2(2)
      unfolding wp_kbind on wp_Ret by (simp add: full [unfolded of_nat_numeral] tty_ok_def cons_ok_def)
  next
    case False
    have "NEWLINE \<notin> set line" using inv(1) ucast_newline_iff [OF c] False by (auto simp: in_inv_def line_def)
    then have "in_inv k2" using bnd k2(10) t1 by (simp add: in_inv_def)
    moreover have "cframe s (s\<lparr>cons := k2\<rparr>)"
      unfolding cframe_def using k2 by (intro exI [of _ k2] exI [of _ "procs s"]) simp
    ultimately show ?thesis using False k2(2,10) t1
      unfolding wp_kbind on wp_Ret by (simp add: full [unfolded of_nat_numeral] tty_ok_def)
  qed
qed

lemma wp_consoleintr_char:
  assumes ok: "tty_ok (cons s)" and c: "c < 256" and held: "LPtable \<notin> set (held s)"
  shows "wp (consoleintr_char c s) (\<lambda>b s'. b = (c = 16) \<and> cframe s s' \<and> tty_ok (cons s') \<and>
     tty_of (cons s') = tty_char c (tty_of (cons s)))"
proof -
  obtain ready line where t: "tty_of (cons s) = (ready, line)" by (metis surj_pair)
  have inv: "in_inv (cons s)" using ok by (simp add: tty_ok_def)
  have len: "unat (c_e (cons s) - c_r (cons s)) = length ready + length line"
    using in_inv_len [OF inv] t by simp
  consider "c = 16" | "c = 21" | "c = 8 \<or> c = 0x7F" | "c \<noteq> 16" "c \<noteq> 21" "c \<noteq> 8" "c \<noteq> 0x7F" by blast
  then show ?thesis
  proof cases
    case 1
    with ok show ?thesis by (simp add: consoleintr_char_def tty_char_def cframe_refl case_prod_beta)
  next
    case 2
    then show ?thesis using wp_consoleintr_killline [OF ok]
      by (simp add: consoleintr_char_def tty_char_def t)
  next
    case 3
    then have n: "c \<noteq> 16" "c \<noteq> 21" by auto
    show ?thesis
    proof (cases "c_e (cons s) = c_w (cons s)")
      case True
      then have "line = []" using t by (auto simp: tty_of_def)
      with True 3 n ok show ?thesis by (simp add: consoleintr_char_def tty_char_def t cframe_refl)
    next
      case False
      with wp_consoleintr_erase [OF ok False] 3 n show ?thesis
        by (simp add: consoleintr_char_def tty_char_def t)
    qed
  next
    case 4
    show ?thesis
    proof (cases "c \<noteq> 0 \<and> length ready + length line < INPUT_BUF")
      case True
      define d where "d = (if c = 13 then 10 else c)"
      have lt: "unat (c_e (cons s) - c_r (cons s)) < INPUT_BUF" using True len by simp
      have g: "c \<noteq> 0 \<and> c_e (cons s) - c_r (cons s) < of_nat INPUT_BUF"
        using True len by (simp add: word_less_nat_alt)
      have "d < 256" using c by (simp add: d_def)
      note put = wp_consoleintr_put [OF ok this lt held]
      have l: "consoleintr_char c s = kbind (on_cons (\<lambda>k. consputc d
                 (k\<lparr>c_buf := (c_buf k)[unat (c_e k) mod INPUT_BUF := ucast d], c_e := c_e k + 1\<rparr>)) s) (\<lambda>_ s.
        if d = 10 \<or> d = 4 \<or> c_e (cons s) = c_r (cons s) + of_nat INPUT_BUF then
          kbind (wakeup ChInput (s\<lparr>cons := (cons s)\<lparr>c_w := c_e (cons s)\<rparr>\<rparr>)) (\<lambda>_ s. Ret False s)
        else Ret False s)"
        unfolding consoleintr_char_def d_def [symmetric] Let_def if_P [OF g]
        by (simp only: 4 if_False simp_thms)
      have r: "tty_char c (ready, line) = (if d = 10 \<or> d = 4 \<or> length ready + length (line @ [ucast d]) = INPUT_BUF
          then (ready @ line @ [ucast d], []) else (ready, line @ [ucast d]))"
        unfolding tty_char_def d_def [symmetric] Let_def prod.case if_P [OF True]
        by (simp only: 4 if_False simp_thms)
      from put show ?thesis
        unfolding l r t fst_conv snd_conv by (rule wp_mono) (use 4 in blast)
    next
      case False
      then have g: "\<not> (c \<noteq> 0 \<and> c_e (cons s) - c_r (cons s) < of_nat INPUT_BUF)"
        using len by (simp add: word_less_nat_alt)
      with 4 False ok show ?thesis by (auto simp: consoleintr_char_def tty_char_def t cframe_refl)
    qed
  qed
qed


section \<open>The interrupt\<close>

text \<open>
  What \<^verbatim>\<open>consoleintr\<close> relies on in the \<^verbatim>\<open>getc\<close> it is given: it returns characters, and the only state of the console it
  reads or changes is the shift state.
\<close>

locale char_device =
  fixes getc :: "u8 \<Rightarrow> console \<Rightarrow> u32 \<times> console"
  assumes getc_char: "fst (getc d k) < 256"
    and getc_frame: "\<exists>h. snd (getc d k) = k\<lparr>c_shift := h\<rparr>"
    and getc_cong: "c_shift k = c_shift k' \<Longrightarrow>
      fst (getc d k) = fst (getc d k') \<and> c_shift (snd (getc d k)) = c_shift (snd (getc d k'))"
begin

text \<open>The characters that a list of bytes from the device stands for.\<close>

fun typed :: "bytes \<Rightarrow> console \<Rightarrow> u32 list" where
  "typed [] k = []"
| "typed (d # ds) k = fst (getc d k) # typed ds (snd (getc d k))"

lemma typed_cong: "c_shift k = c_shift k' \<Longrightarrow> typed ds k = typed ds k'"
proof (induction ds arbitrary: k k')
  case (Cons d ds)
  have "fst (getc d k) = fst (getc d k') \<and> c_shift (snd (getc d k)) = c_shift (snd (getc d k'))"
    by (rule getc_cong) (rule Cons.prems)
  with Cons.IH [of "snd (getc d k)" "snd (getc d k')"] show ?case by simp
qed simp

lemma wp_consoleintr_loop:
  assumes "tty_ok (cons s)" "LPtable \<notin> set (held s)"
  shows "wp (consoleintr_loop getc ds dump s) (\<lambda>b s'. b = (dump \<or> 16 \<in> set (typed ds (cons s))) \<and> tty_ok (cons s')
     \<and> tty_of (cons s') = fold tty_char (typed ds (cons s)) (tty_of (cons s))
     \<and> (\<exists>k ps. s' = s\<lparr>cons := k, procs := ps\<rparr> \<and> woken (procs s) ps))"
  using assms
proof (induction ds arbitrary: s dump)
  case Nil
  then show ?case by (auto intro!: exI [of _ "cons s"] exI [of _ "procs s"])
next
  case (Cons d ds)
  obtain c k where g: "getc d (cons s) = (c, k)" by (metis surj_pair)
  obtain h where k: "k = (cons s)\<lparr>c_shift := h\<rparr>" using getc_frame [of d "cons s"] g by auto
  let ?s = "s\<lparr>cons := k\<rparr>"
  have c: "c < 256" using getc_char [of d "cons s"] g by simp
  have ok: "tty_ok (cons ?s)" "tty_of (cons ?s) = tty_of (cons s)" using Cons.prems(1) by (simp_all add: k tty_ok_shift)
  have "wp (consoleintr_char c ?s) (\<lambda>b s. wp (consoleintr_loop getc ds (dump \<or> b) s)
    (\<lambda>b s'. b = (dump \<or> 16 \<in> set (typed (d # ds) (cons s0))) \<and> tty_ok (cons s')
     \<and> tty_of (cons s') = fold tty_char (typed (d # ds) (cons s0)) (tty_of (cons s0))
     \<and> (\<exists>k ps. s' = s0\<lparr>cons := k, procs := ps\<rparr> \<and> woken (procs s0) ps)))" if s0: "s0 = s" for s0
  proof (rule wp_mono)
    show "wp (consoleintr_char c ?s) (\<lambda>b s'. b = (c = 16) \<and> cframe ?s s' \<and> tty_ok (cons s') \<and>
        tty_of (cons s') = tty_char c (tty_of (cons ?s)))"
      using Cons.prems(2) by (intro wp_consoleintr_char [OF ok(1) c]) simp
  next
    fix b s1 assume a: "b = (c = 16) \<and> cframe ?s s1 \<and> tty_ok (cons s1) \<and> tty_of (cons s1) = tty_char c (tty_of (cons ?s))"
    then obtain k1 ps where s1: "s1 = ?s\<lparr>cons := k1, procs := ps\<rparr>" "woken (procs s) ps" "c_shift k1 = h"
      unfolding cframe_def k by auto
    have ty: "typed (d # ds) (cons s) = c # typed ds (cons s1)"
      using typed_cong [of k1 k ds] s1 by (simp add: g k)
    have "LPtable \<notin> set (held s1)" using s1 Cons.prems(2) by simp
    from Cons.IH [OF _ this, of "dump \<or> b"] a
    have "wp (consoleintr_loop getc ds (dump \<or> b) s1) (\<lambda>b' s'. b' = ((dump \<or> b) \<or> 16 \<in> set (typed ds (cons s1))) \<and> tty_ok (cons s')
     \<and> tty_of (cons s') = fold tty_char (typed ds (cons s1)) (tty_of (cons s1))
     \<and> (\<exists>k ps. s' = s1\<lparr>cons := k, procs := ps\<rparr> \<and> woken (procs s1) ps))" by blast
    then show "wp (consoleintr_loop getc ds (dump \<or> b) s1)
    (\<lambda>b s'. b = (dump \<or> 16 \<in> set (typed (d # ds) (cons s0))) \<and> tty_ok (cons s')
     \<and> tty_of (cons s') = fold tty_char (typed (d # ds) (cons s0)) (tty_of (cons s0))
     \<and> (\<exists>k ps. s' = s0\<lparr>cons := k, procs := ps\<rparr> \<and> woken (procs s0) ps))"
      unfolding s0 ty
    proof (rule wp_mono, elim conjE exE, intro conjI)
      fix b' s2 k2 ps2
      assume "s2 = s1\<lparr>cons := k2, procs := ps2\<rparr>" "woken (procs s1) ps2"
      then have "s2 = s\<lparr>cons := k2, procs := ps2\<rparr>" "woken (procs s) ps2" using s1 woken_trans [of "procs s" ps ps2] by simp_all
      then show "\<exists>k ps. s2 = s\<lparr>cons := k, procs := ps\<rparr> \<and> woken (procs s) ps" by blast
    qed (use a ok(2) in auto)
  qed
  then show ?case by (simp add: g)
qed

end


lemma ucast_char_less: "(ucast (c :: u8) :: u32) < 256"
proof -
  have "unat (ucast c :: u32) = unat c" by (simp add: unsigned_ucast_eq take_bit_nat_eq_self order_less_trans [OF unsigned_less])
  moreover have "unat c < 256" using unsigned_less [of c] by simp
  ultimately show ?thesis by (simp add: word_less_nat_alt)
qed

interpretation uart: char_device uartgetc
proof
  fix d k show "fst (uartgetc d k) < 256" by (simp add: uartgetc_def ucast_char_less)
  show "\<exists>h. snd (uartgetc d k) = k\<lparr>c_shift := h\<rparr>" by (simp add: uartgetc_def) (metis console.surjective console.update_convs(4))
qed (simp add: uartgetc_def)

interpretation kbd: char_device kbdgetc
proof
  fix d k show "fst (kbdgetc d k) < 256" by (simp add: kbdgetc_def Let_def ucast_char_less)
  show "\<exists>h. snd (kbdgetc d k) = k\<lparr>c_shift := h\<rparr>" by (simp add: kbdgetc_def Let_def) blast
qed (simp add: kbdgetc_def Let_def)


section \<open>A line that is typed is a line that is read\<close>

lemma in_get:
  assumes inv: "in_inv k" and ready: "fst (tty_of k) = c # cs"
  defines "k' \<equiv> k\<lparr>c_r := c_r k + 1\<rparr>"
  shows "c_r k \<noteq> c_w k" "c_buf k ! (unat (c_r k) mod INPUT_BUF) = c" "tty_of k' = (cs, snd (tty_of k))" "in_inv k'"
proof -
  show ne: "c_r k \<noteq> c_w k" using ready by (auto simp: tty_of_def)
  have len: "length (c_buf k) = 128" using inv by (simp add: in_inv_def)
  from ring_get_Cons [OF ne, of "c_buf k"] ready
  have c: "c = ring_get (c_buf k) (c_r k)" "cs = ring (c_buf k) (c_r k + 1) (c_w k)" by (simp_all add: tty_of_def)
  then show "c_buf k ! (unat (c_r k) mod INPUT_BUF) = c" by (simp add: ring_get_def len)
  show t: "tty_of k' = (cs, snd (tty_of k))" using c by (simp add: tty_of_def k'_def)
  have w: "unat (c_w k - c_r k) = Suc (unat (c_w k - (c_r k + 1)))" using ne by (intro unat_minus_Suc) auto
  have e: "unat (c_e k - c_r k) = Suc (unat (c_e k - (c_r k + 1)))"
  proof (rule unat_minus_Suc)
    have "unat (c_w k - c_r k) \<le> unat (c_e k - c_r k)" using inv by (simp add: in_inv_def)
    with w show "c_e k \<noteq> c_r k" by auto
  qed
  show "in_inv k'" using inv w e unfolding in_inv_def t by (simp add: k'_def)
qed

lemma consoleread_line:
  assumes "in_inv (cons s)" "fst (tty_of (cons s)) = xs @ NEWLINE # rest" "NEWLINE \<notin> set xs" "4 \<notin> set xs" "length xs < n"
  shows "\<exists>r. consoleread_loop target n s = Ret (Some (xs @ [NEWLINE])) (s\<lparr>cons := (cons s)\<lparr>c_r := r\<rparr>\<rparr>)
    \<and> in_inv ((cons s)\<lparr>c_r := r\<rparr>) \<and> tty_of ((cons s)\<lparr>c_r := r\<rparr>) = (rest, snd (tty_of (cons s)))"
  using assms
proof (induction xs arbitrary: s n)
  case Nil
  from Nil.prems(5) obtain m where n: "n = Suc m" by (cases n) auto
  note g = in_get [OF Nil.prems(1), of NEWLINE rest]
  show ?case using g Nil.prems(2) by (intro exI [of _ "c_r (cons s) + 1"]) (simp add: n Let_def)
next
  case (Cons x xs)
  from Cons.prems(5) obtain m where n: "n = Suc m" "length xs < m" by (cases n) auto
  have ready: "fst (tty_of (cons s)) = x # (xs @ NEWLINE # rest)" using Cons.prems(2) by simp
  note g = in_get [OF Cons.prems(1) ready]
  let ?s = "s\<lparr>cons := (cons s)\<lparr>c_r := c_r (cons s) + 1\<rparr>\<rparr>"
  have "\<exists>r. consoleread_loop target m ?s = Ret (Some (xs @ [NEWLINE])) (?s\<lparr>cons := (cons ?s)\<lparr>c_r := r\<rparr>\<rparr>)
    \<and> in_inv ((cons ?s)\<lparr>c_r := r\<rparr>) \<and> tty_of ((cons ?s)\<lparr>c_r := r\<rparr>) = (rest, snd (tty_of (cons ?s)))"
    by (rule Cons.IH) (use g Cons.prems n in simp_all)
  then obtain r where "consoleread_loop target m ?s = Ret (Some (xs @ [NEWLINE])) (s\<lparr>cons := (cons s)\<lparr>c_r := r\<rparr>\<rparr>)"
    "in_inv ((cons s)\<lparr>c_r := r\<rparr>)" "tty_of ((cons s)\<lparr>c_r := r\<rparr>) = (rest, snd (tty_of (cons s)))"
    using g by auto
  then show ?case using g Cons.prems(3,4) by (intro exI [of _ r]) (simp add: n Let_def)
qed

text \<open>Characters that stand for themselves.\<close>

definition plain :: "u8 \<Rightarrow> bool" where
  "plain c \<longleftrightarrow> 32 \<le> c \<and> c \<noteq> 0x7F"

lemma ucast_char_eq: "(ucast (c :: u8) :: u32) = ucast (d :: u8) \<longleftrightarrow> c = d"
  by (metis ucast_scast_char(2))

lemma ucast_char_numeral:
  "(ucast (c :: u8) :: u32) = 0 \<longleftrightarrow> c = 0" "(ucast c :: u32) = 4 \<longleftrightarrow> c = 4" "(ucast c :: u32) = 8 \<longleftrightarrow> c = 8"
  "(ucast c :: u32) = 10 \<longleftrightarrow> c = 10" "(ucast c :: u32) = 13 \<longleftrightarrow> c = 13" "(ucast c :: u32) = 16 \<longleftrightarrow> c = 16"
  "(ucast c :: u32) = 21 \<longleftrightarrow> c = 21" "(ucast c :: u32) = 0x7F \<longleftrightarrow> c = 0x7F"
  using ucast_char_eq [of c 0] ucast_char_eq [of c 4] ucast_char_eq [of c 8] ucast_char_eq [of c 10] ucast_char_eq [of c 13]
    ucast_char_eq [of c 16] ucast_char_eq [of c 21] ucast_char_eq [of c "0x7F"] by simp_all

lemma tty_char_plain:
  assumes "plain c" "length ready + length line + 1 < INPUT_BUF"
  shows "tty_char (ucast c) (ready, line) = (ready, line @ [c])"
proof -
  have "c \<noteq> 16" "c \<noteq> 21" "c \<noteq> 8" "c \<noteq> 0x7F" "c \<noteq> 0" "c \<noteq> 13" "c \<noteq> 10" "c \<noteq> 4"
    using assms(1) by (auto simp: plain_def)
  with assms(2) show ?thesis by (simp add: tty_char_def Let_def ucast_char_numeral)
qed

lemma tty_line:
  assumes "\<forall>c \<in> set xs. plain c" "length line + length xs < INPUT_BUF"
  shows "fold tty_char (map ucast xs) ([], line) = ([], line @ xs)"
  using assms by (induction xs arbitrary: line) (simp_all add: tty_char_plain)

lemma tty_enter: "length line < INPUT_BUF \<Longrightarrow> tty_char 13 ([], line) = (line @ [NEWLINE], [])"
  by (simp add: tty_char_def)

lemma uart_typed: "uart.typed ds k = map ucast ds"
  by (induction ds arbitrary: k) (simp_all add: uartgetc_def)


text \<open>
  C19. A line that is typed is the line that is read: when the input is empty and somebody types at most 127 ordinary characters
  and the return key, the characters go through \<^verbatim>\<open>consoleintr\<close> into the ring, and the next \<^verbatim>\<open>consoleread\<close> with room for the line
  gets exactly these characters and a newline, does not sleep, and leaves the input empty.
\<close>

theorem typed_line_is_read:
  assumes "tty_ok (cons s)" "tty_of (cons s) = ([], [])" "LPtable \<notin> set (held s)" "LCons \<notin> set (held s)" "c_uart (cons s)"
    and "\<forall>c \<in> set xs. plain c" "length xs < INPUT_BUF" "length xs < n"
  shows "wp (kbind (uartintr (xs @ [13]) s) (\<lambda>_ s. consoleread_loop n n s))
    (\<lambda>r s'. r = Some (xs @ [NEWLINE]) \<and> tty_of (cons s') = ([], []))"
proof -
  let ?s = "s\<lparr>held := LCons # held s\<rparr>"
  have ty: "uart.typed (xs @ [13]) k = map ucast xs @ [13]" for k by (simp add: uart_typed)
  have fold: "fold tty_char (map ucast xs @ [13]) ([], []) = (xs @ [NEWLINE], [])"
    using assms(6,7) by (simp add: tty_line tty_enter)
  have ne: "c \<noteq> 16 \<and> c \<noteq> 10 \<and> c \<noteq> 4" if "c \<in> set xs" for c using assms(6) that by (auto simp: plain_def)
  have no16: "(16 :: u32) \<notin> set (map ucast xs @ [13])"
  proof -
    have "(ucast c :: u32) \<noteq> 16" if "c \<in> set xs" for c
      using ne [OF that] by (simp add: ucast_char_numeral)
    then show ?thesis by auto
  qed
  have "wp (consoleintr_loop uartgetc (xs @ [13]) False ?s) (\<lambda>b s'. b = (False \<or> 16 \<in> set (uart.typed (xs @ [13]) (cons ?s)))
     \<and> tty_ok (cons s')
     \<and> tty_of (cons s') = fold tty_char (uart.typed (xs @ [13]) (cons ?s)) (tty_of (cons ?s))
     \<and> (\<exists>k ps. s' = ?s\<lparr>cons := k, procs := ps\<rparr> \<and> woken (procs ?s) ps))"
    using assms by (intro uart.wp_consoleintr_loop) simp_all
  then obtain k ps where r: "consoleintr_loop uartgetc (xs @ [13]) False ?s = Ret False (?s\<lparr>cons := k, procs := ps\<rparr>)"
      "tty_ok k" "tty_of k = (xs @ [NEWLINE], [])"
    using no16 fold assms(2) unfolding ty by (auto simp: wp_iff)
  have u: "uartintr (xs @ [13]) s = Ret () (s\<lparr>cons := k, procs := ps\<rparr>)"
    using r(1) assms(4,5) by (simp add: uartintr_def consoleintr_def)
  let ?t = "s\<lparr>cons := k, procs := ps\<rparr>"
  have "\<exists>r. consoleread_loop n n ?t = Ret (Some (xs @ [NEWLINE])) (?t\<lparr>cons := (cons ?t)\<lparr>c_r := r\<rparr>\<rparr>)
    \<and> in_inv ((cons ?t)\<lparr>c_r := r\<rparr>) \<and> tty_of ((cons ?t)\<lparr>c_r := r\<rparr>) = ([], snd (tty_of (cons ?t)))"
    by (rule consoleread_line) (use r ne assms(8) in \<open>auto simp: tty_ok_def\<close>)
  with u r(3) show ?thesis by auto
qed

definition kmem_con :: kmem where
  "kmem_con = kbase.extend (kbase_run\<lparr>cons := cons_boot\<lparr>c_uart := True\<rparr>\<rparr>) (kmem.fields (\<lambda>_. 0) True 0)"

lemma kmem_con: "cons kmem_con = cons_boot\<lparr>c_uart := True\<rparr>" "held kmem_con = []" "tty_ok (cons_boot\<lparr>c_uart := True\<rparr>)"
    "tty_of (cons_boot\<lparr>c_uart := True\<rparr>) = ([], [])"
  by (simp_all add: kmem_con_def kbase_run_def kbase_boot_def kbase.defs tty_ok_def cons_ok_def in_inv_def tty_of_def cons_boot_def)

theorem typed_line_is_read_witness:
  "wp (kbind (uartintr (lit ''ls'' @ [13]) kmem_con) (\<lambda>_ s. consoleread_loop 10 10 s))
    (\<lambda>r s'. r = Some (lit ''ls'' @ [NEWLINE]) \<and> tty_of (cons s') = ([], []))"
  by (rule typed_line_is_read) (simp_all add: kmem_con plain_def of_char_def)


end
