(* ===== verification/File.thy ===== *)
theory File
  imports Pipe Console
begin

text \<open>
  Open files, \<^verbatim>\<open>file.c\<close>, with \<^verbatim>\<open>pipealloc\<close> of \<^verbatim>\<open>pipe.c\<close>, the device table and the device cases of \<^verbatim>\<open>readi\<close> and \<^verbatim>\<open>writei\<close>
  (\<^verbatim>\<open>fs.c\<close>). A file pointer is an index into \<^verbatim>\<open>ftable.file\<close>.
\<close>

section \<open>State\<close>

datatype fdtype = FD_NONE | FD_PIPE | FD_INODE

record file_t =
  f_type :: fdtype
  f_ref :: int
  f_readable :: bool
  f_writable :: bool
  f_pipe :: u32
  f_ip :: "nat option"
  f_off :: u32

text \<open>The functions a device entry can hold.\<close>

datatype devfun = Consoleread | Consolewrite

record ft = pst +
  ftable :: "file_t list"
  devsw :: "(devfun option \<times> devfun option) list"   \<comment> \<open>\<^verbatim>\<open>read\<close> and \<^verbatim>\<open>write\<close>\<close>

abbreviation upd_file :: "nat \<Rightarrow> (file_t \<Rightarrow> file_t) \<Rightarrow> 'x ft_scheme \<Rightarrow> 'x ft_scheme" where
  "upd_file f u s \<equiv> s\<lparr>ftable := (ftable s)[f := u (ftable s ! f)]\<rparr>"

text \<open>\<^verbatim>\<open>consoleinit\<close>, without the interrupt routing.\<close>

definition consoleinit :: "'x ft_scheme \<Rightarrow> 'x ft_scheme" where
  "consoleinit s = s\<lparr>devsw := (devsw s)[1 := (Some Consoleread, Some Consolewrite)],
     cons := (cons s)\<lparr>c_locking := True\<rparr>\<rparr>"

section \<open>Reading and writing inodes, devices included\<close>

definition readi :: "nat \<Rightarrow> u32 \<Rightarrow> u32 \<Rightarrow> 'x ft_scheme \<Rightarrow> (int \<times> bytes, 'x ft_scheme) outcome" where
  "readi ip off n s =
     (if i_type (inodes s ! ip) = T_DEV then
        let major = sint (i_major (inodes s ! ip)) in
        if major < 0 \<or> major \<ge> int NDEV then Ret (-1, []) s
        else case fst (devsw s ! nat major) of
          None \<Rightarrow> Ret (-1, []) s
        | Some Consoleread \<Rightarrow> consoleread ip (sint n) s
        | Some Consolewrite \<Rightarrow> undef
      else readi_ino ip off n s)"

definition writei :: "nat \<Rightarrow> bytes \<Rightarrow> u32 \<Rightarrow> 'x ft_scheme \<Rightarrow> (int, 'x ft_scheme) outcome" where
  "writei ip src off s =
     (if i_type (inodes s ! ip) = T_DEV then
        let major = sint (i_major (inodes s ! ip)) in
        if major < 0 \<or> major \<ge> int NDEV then Ret (-1) s
        else case snd (devsw s ! nat major) of
          None \<Rightarrow> Ret (-1) s
        | Some Consolewrite \<Rightarrow> consolewrite ip src s
        | Some Consoleread \<Rightarrow> undef
      else writei_ino ip src off s)"

section \<open>The file table\<close>

definition filealloc :: "'x ft_scheme \<Rightarrow> (nat option, 'x ft_scheme) outcome" where
  "filealloc s =
     kbind (acquire LFtable s) (\<lambda>_ s.
     case find_idx (\<lambda>f. f_ref f = 0) (ftable s) of
       Some f \<Rightarrow> kbind (release LFtable (upd_file f (\<lambda>x. x\<lparr>f_ref := 1\<rparr>) s)) (\<lambda>_ s. Ret (Some f) s)
     | None \<Rightarrow> kbind (release LFtable s) (\<lambda>_ s. Ret None s))"

definition filedup :: "nat \<Rightarrow> 'x ft_scheme \<Rightarrow> (nat, 'x ft_scheme) outcome" where
  "filedup f s =
     kbind (acquire LFtable s) (\<lambda>_ s.
     if f_ref (ftable s ! f) < 1 then Panic ''filedup''
     else kbind (release LFtable (upd_file f (\<lambda>x. x\<lparr>f_ref := f_ref x + 1\<rparr>) s)) (\<lambda>_ s. Ret f s))"

definition fileclose :: "nat \<Rightarrow> 'x ft_scheme \<Rightarrow> (unit, 'x ft_scheme) outcome" where
  "fileclose f s =
     kbind (acquire LFtable s) (\<lambda>_ s.
     if f_ref (ftable s ! f) < 1 then Panic ''fileclose''
     else
       let s = upd_file f (\<lambda>x. x\<lparr>f_ref := f_ref x - 1\<rparr>) s in
       if f_ref (ftable s ! f) > 0 then release LFtable s
       else
         let ff = ftable s ! f in
         kbind (release LFtable (upd_file f (\<lambda>x. x\<lparr>f_ref := 0, f_type := FD_NONE\<rparr>) s)) (\<lambda>_ s.
         case f_type ff of
           FD_PIPE \<Rightarrow> pipeclose (f_pipe ff) (f_writable ff) s
         | FD_INODE \<Rightarrow>
             kbind (begin_op s) (\<lambda>_ s.
             kbind (case f_ip ff of None \<Rightarrow> Panic ''trap'' | Some ip \<Rightarrow> iput ip s) (\<lambda>_ s.
             end_op s))
         | FD_NONE \<Rightarrow> Ret () s))"

definition filestat :: "nat \<Rightarrow> 'x ft_scheme \<Rightarrow> (stat option, 'x ft_scheme) outcome" where
  "filestat f s =
     (if f_type (ftable s ! f) = FD_INODE then
        kbind (ilock (f_ip (ftable s ! f)) s) (\<lambda>_ s.
        let st = stati (the (f_ip (ftable s ! f))) s
        in kbind (iunlock (f_ip (ftable s ! f)) s) (\<lambda>_ s. Ret (Some st) s))
      else Ret None s)"

definition fileread :: "nat \<Rightarrow> int \<Rightarrow> 'x ft_scheme \<Rightarrow> (int \<times> bytes, 'x ft_scheme) outcome" where
  "fileread f n s =
     (if \<not> f_readable (ftable s ! f) then Ret (-1, []) s
      else case f_type (ftable s ! f) of
        FD_PIPE \<Rightarrow> piperead (f_pipe (ftable s ! f)) (nat n) s
      | FD_INODE \<Rightarrow>
          kbind (ilock (f_ip (ftable s ! f)) s) (\<lambda>_ s.
          kbind (readi (the (f_ip (ftable s ! f))) (f_off (ftable s ! f)) (word_of_int n) s) (\<lambda>(r, d) s.
          let s = (if r > 0 then upd_file f (\<lambda>x. x\<lparr>f_off := f_off x + word_of_int r\<rparr>) s else s)
          in kbind (iunlock (f_ip (ftable s ! f)) s) (\<lambda>_ s. Ret (r, d) s)))
      | FD_NONE \<Rightarrow> Panic ''fileread'')"

text \<open>
  The loop of \<^verbatim>\<open>filewrite\<close> with the bytes still to write, at most \<open>1536\<close> in a transaction; the result is whether all
  are written.
\<close>

abbreviation (input) FWMAX :: nat where "FWMAX \<equiv> ((MAXOPBLOCKS - 1 - 1 - 2) div 2) * 512"

function filewrite_loop :: "nat \<Rightarrow> bytes \<Rightarrow> 'x ft_scheme \<Rightarrow> (bool, 'x ft_scheme) outcome" where
  "filewrite_loop f data s =
     (if data = [] then Ret True s
      else
        let n1 = min (length data) FWMAX in
        kbind (begin_op s) (\<lambda>_ s.
        kbind (ilock (f_ip (ftable s ! f)) s) (\<lambda>_ s.
        kbind (writei (the (f_ip (ftable s ! f))) (take n1 data) (f_off (ftable s ! f)) s) (\<lambda>r s.
        let s = (if r > 0 then upd_file f (\<lambda>x. x\<lparr>f_off := f_off x + word_of_int r\<rparr>) s else s)
        in kbind (iunlock (f_ip (ftable s ! f)) s) (\<lambda>_ s.
           kbind (end_op s) (\<lambda>_ s.
           if r < 0 then Ret False s
           else if r \<noteq> int n1 then Panic ''short filewrite''
           else filewrite_loop f (drop n1 data) s))))))"
  by pat_completeness auto
termination
  by (relation "measure (\<lambda>(_, data, _). length data)") auto

declare filewrite_loop.simps [simp del]

definition filewrite :: "nat \<Rightarrow> bytes \<Rightarrow> 'x ft_scheme \<Rightarrow> (int, 'x ft_scheme) outcome" where
  "filewrite f data s =
     (if \<not> f_writable (ftable s ! f) then Ret (-1) s
      else case f_type (ftable s ! f) of
        FD_PIPE \<Rightarrow> pipewrite (f_pipe (ftable s ! f)) data s
      | FD_INODE \<Rightarrow>
          kbind (filewrite_loop f data s) (\<lambda>ok s. Ret (if ok then int (length data) else -1) s)
      | FD_NONE \<Rightarrow> Panic ''filewrite'')"

section \<open>Making a pipe\<close>

text \<open>
  \<^verbatim>\<open>pipealloc\<close>: the two files, or \<^const>\<open>None\<close> for -1. The data of the new pipe is what is in the page, after the 52 bytes of
  the lock.
\<close>

definition pipealloc :: "'x ft_scheme \<Rightarrow> ((nat \<times> nat) option, 'x ft_scheme) outcome" where
  "pipealloc s =
     kbind (filealloc s) (\<lambda>r0 s.
     case r0 of None \<Rightarrow> Ret None s
     | Some f0 \<Rightarrow>
         kbind (filealloc s) (\<lambda>r1 s.
         case r1 of None \<Rightarrow> kbind (fileclose f0 s) (\<lambda>_ s. Ret None s)
         | Some f1 \<Rightarrow>
             kbind (kalloc s) (\<lambda>p s.
             if p = 0 then kbind (fileclose f0 s) (\<lambda>_ s. kbind (fileclose f1 s) (\<lambda>_ s. Ret None s))
             else
               let pp = \<lparr>pp_data = map (\<lambda>i. mem s (p + 52 + of_nat i)) [0..<PIPESIZE], pp_nread = 0, pp_nwrite = 0,
                         pp_readopen = True, pp_writeopen = True\<rparr>;
                   s = set_pipe p pp s;
                   s = upd_file f0 (\<lambda>x. x\<lparr>f_type := FD_PIPE, f_readable := True, f_writable := False, f_pipe := p\<rparr>) s;
                   s = upd_file f1 (\<lambda>x. x\<lparr>f_type := FD_PIPE, f_readable := False, f_writable := True, f_pipe := p\<rparr>) s
               in Ret (Some (f0, f1)) s)))"

section \<open>A state to start from\<close>

definition file_zero :: file_t where
  "file_zero = \<lparr>f_type = FD_NONE, f_ref = 0, f_readable = False, f_writable = False, f_pipe = 0, f_ip = None, f_off = 0\<rparr>"

definition ft_on :: "(u32 \<Rightarrow> bytes) \<Rightarrow> ft" where
  "ft_on d = pst.extend (fs.extend (fs_on d) (pst.fields (\<lambda>_. None))) (ft.fields (replicate NFILE file_zero) (replicate NDEV (None, None)))"

lemma fs_extend [simp]:
  "bio_inv (fs.extend s m) H = bio_inv s H" "view (fs.extend s m) = view s" "dirtyset (fs.extend s m) = dirtyset s"
  "curproc (fs.extend s m) = curproc s" "inodes (fs.extend s m) = inodes s" "sb (fs.extend s m) = sb s"
  "cons (fs.extend s m) = cons s" "held (fs.extend s m) = held s" "idle (fs.extend s m) = idle s"
  by (simp_all add: bio_inv_def running_def curproc_def myproc_def view_def dirtyset_def idle_def log_ok_def fs.defs)

lemma pst_extend [simp]:
  "bio_inv (pst.extend s m) H = bio_inv s H" "view (pst.extend s m) = view s" "dirtyset (pst.extend s m) = dirtyset s"
  "curproc (pst.extend s m) = curproc s" "inodes (pst.extend s m) = inodes s" "sb (pst.extend s m) = sb s"
  "cons (pst.extend s m) = cons s" "held (pst.extend s m) = held s" "idle (pst.extend s m) = idle s"
  by (simp_all add: bio_inv_def running_def curproc_def myproc_def view_def dirtyset_def idle_def log_ok_def pst.defs)

lemma ft_on:
  assumes "\<And>k. length (d k) = BSIZE" "le32 0 (d 2) = 0"
  shows "idle (ft_on d)" "fs_inv (ft_on d) {}" "view (ft_on d) = d" "refs (inodes (ft_on d)) = (\<lambda>_. 0)" "sb (ft_on d) = sb_boot"
    "cons (ft_on d) = cons_boot"
proof -
  note on = fs_on [OF assms(1)] fs_inv_on [OF assms(1)]
  have "idle (fs_on d)" using on assms(2) by (simp add: idle_def log_ok_def)
  then show "idle (ft_on d)" "fs_inv (ft_on d) {}" "view (ft_on d) = d" "refs (inodes (ft_on d)) = (\<lambda>_. 0)" "sb (ft_on d) = sb_boot"
    "cons (ft_on d) = cons_boot"
    using on by (simp_all add: ft_on_def fs_inv_def readable_def)
qed


end
