(* ===== verification/Vm.thy ===== *)
theory Vm
  imports Kalloc CString Cprintf
begin

text \<open>
  Page tables and user memory, \<^verbatim>\<open>vm.c\<close>. The tables are words in the memory of the kernel, as in the code; a page-table
  entry is named by its kernel address, with 0 for the null pointer.
\<close>

section \<open>Entries\<close>

definition PDX :: "u32 \<Rightarrow> u32" where
  "PDX va = drop_bit 22 va AND 0x3FF"

definition PTX :: "u32 \<Rightarrow> u32" where
  "PTX va = drop_bit 12 va AND 0x3FF"

abbreviation (input) PTE_P :: u32 where "PTE_P \<equiv> 1"
abbreviation (input) PTE_W :: u32 where "PTE_W \<equiv> 2"
abbreviation (input) PTE_U :: u32 where "PTE_U \<equiv> 4"

definition PTE_ADDR :: "u32 \<Rightarrow> u32" where
  "PTE_ADDR pte = pte AND NOT 0xFFF"

definition PTE_FLAGS :: "u32 \<Rightarrow> u32" where
  "PTE_FLAGS pte = pte AND 0xFFF"

abbreviation (input) EXTMEM :: u32 where "EXTMEM \<equiv> 0x100000"
abbreviation (input) DEVSPACE :: u32 where "DEVSPACE \<equiv> 0xFE000000"
abbreviation (input) KERNLINK :: u32 where "KERNLINK \<equiv> 0x80100000"

definition walkpgdir :: "u32 \<Rightarrow> u32 \<Rightarrow> bool \<Rightarrow> 'x kmem_scheme \<Rightarrow> (u32, 'x kmem_scheme) outcome" where
  "walkpgdir pgdir va alloc s =
     (let pde = pgdir + 4 * PDX va; e = load32 (mem s) pde in
      if e AND PTE_P \<noteq> 0 then Ret (P2V (PTE_ADDR e) + 4 * PTX va) s
      else if \<not> alloc then Ret 0 s
      else
        kbind (kalloc s) (\<lambda>pgtab s.
        if pgtab = 0 then Ret 0 s
        else
          let s = s\<lparr>mem := memset pgtab 0 PGSIZE (mem s)\<rparr>;
              s = s\<lparr>mem := store32 pde (V2P pgtab OR PTE_P OR PTE_W OR PTE_U) (mem s)\<rparr>
          in Ret (pgtab + 4 * PTX va) s))"

text \<open>
  The loop of \<^verbatim>\<open>mappages\<close>, with the number of pages that follow the one at \<open>a\<close>. \<^verbatim>\<open>a\<close> and \<^verbatim>\<open>last\<close> are both rounded down, so
  \<^verbatim>\<open>a == last\<close> holds after \<open>(last - a) / PGSIZE\<close> steps, also when \<^verbatim>\<open>a\<close> wraps.
\<close>

fun mappages_loop :: "nat \<Rightarrow> u32 \<Rightarrow> u32 \<Rightarrow> u32 \<Rightarrow> u32 \<Rightarrow> 'x kmem_scheme \<Rightarrow> (int, 'x kmem_scheme) outcome" where
  "mappages_loop n pgdir a pa perm s =
     kbind (walkpgdir pgdir a True s) (\<lambda>pte s.
     if pte = 0 then Ret (-1) s
     else if load32 (mem s) pte AND PTE_P \<noteq> 0 then Panic ''remap''
     else
       let s = s\<lparr>mem := store32 pte (pa OR perm OR PTE_P) (mem s)\<rparr>
       in case n of 0 \<Rightarrow> Ret 0 s
          | Suc n \<Rightarrow> mappages_loop n pgdir (a + PGSIZE) (pa + PGSIZE) perm s)"

declare mappages_loop.simps [simp del]

definition mappages :: "u32 \<Rightarrow> u32 \<Rightarrow> u32 \<Rightarrow> u32 \<Rightarrow> u32 \<Rightarrow> 'x kmem_scheme \<Rightarrow> (int, 'x kmem_scheme) outcome" where
  "mappages pgdir va sz pa perm s =
     (let a = PGROUNDDOWN va; last = PGROUNDDOWN (va + sz - 1)
      in mappages_loop (unat (last - a) div 4096) pgdir a pa perm s)"

section \<open>Freeing\<close>

text \<open>
  \<^verbatim>\<open>deallocuvm\<close>: the address as a natural number. An \<^verbatim>\<open>oldsz\<close> in the last page of the address space would make the 32-bit
  counter wrap and the loop run for ever; no caller passes more than \<^verbatim>\<open>KERNBASE\<close>.
\<close>

function deallocuvm_loop :: "u32 \<Rightarrow> u32 \<Rightarrow> nat \<Rightarrow> 'x kmem_scheme \<Rightarrow> (unit, 'x kmem_scheme) outcome" where
  "deallocuvm_loop pgdir oldsz a s =
     (if a \<ge> 2 ^ 32 then Hang
      else if a < unat oldsz then
        kbind (walkpgdir pgdir (of_nat a) False s) (\<lambda>pte s.
        if pte = 0 then deallocuvm_loop pgdir oldsz ((a div 2 ^ 22 + 1) * 2 ^ 22) s
        else if load32 (mem s) pte AND PTE_P \<noteq> 0 then
          let pa = PTE_ADDR (load32 (mem s) pte) in
          if pa = 0 then Panic ''kfree''
          else
            kbind (kfree (P2V pa) s) (\<lambda>_ s.
            deallocuvm_loop pgdir oldsz (a + 4096) (s\<lparr>mem := store32 pte 0 (mem s)\<rparr>))
        else deallocuvm_loop pgdir oldsz (a + 4096) s)
      else Ret () s)"
  by pat_completeness auto
termination
proof (relation "measure (\<lambda>(_, _, a, _). 2 ^ 32 - a)", simp)
  fix pgdir oldsz :: u32 and a :: nat and s x t
  assume "\<not> 2 ^ 32 \<le> a"
  moreover have "a < (a div 2 ^ 22 + 1) * 2 ^ 22" using dividend_less_div_times [of "2 ^ 22" a] by simp
  ultimately show "((pgdir, oldsz, (a div 2 ^ 22 + 1) * 2 ^ 22, t), pgdir, oldsz, a, s) \<in> measure (\<lambda>(_, _, a, _). 2 ^ 32 - a)"
    by simp
qed auto

declare deallocuvm_loop.simps [simp del]

definition deallocuvm :: "u32 \<Rightarrow> u32 \<Rightarrow> u32 \<Rightarrow> 'x kmem_scheme \<Rightarrow> (u32, 'x kmem_scheme) outcome" where
  "deallocuvm pgdir oldsz newsz s =
     (if newsz \<ge> oldsz then Ret oldsz s
      else kbind (deallocuvm_loop pgdir oldsz (unat (PGROUNDUP newsz)) s) (\<lambda>_ s. Ret newsz s))"

definition freevm_entry :: "u32 \<Rightarrow> nat \<Rightarrow> 'x kmem_scheme \<Rightarrow> (unit, 'x kmem_scheme) outcome" where
  "freevm_entry pgdir i s =
     (let e = load32 (mem s) (pgdir + 4 * of_nat i) in
      if e AND PTE_P \<noteq> 0 then kfree (P2V (PTE_ADDR e)) s else Ret () s)"

definition freevm :: "u32 \<Rightarrow> 'x kmem_scheme \<Rightarrow> (unit, 'x kmem_scheme) outcome" where
  "freevm pgdir s =
     (if pgdir = 0 then Panic ''freevm: no pgdir''
      else
        kbind (deallocuvm pgdir KERNBASE 0 s) (\<lambda>_ s.
        kbind (kfor [0..<1024] (freevm_entry pgdir) s) (\<lambda>_ s.
        kfree pgdir s)))"

section \<open>The kernel's mappings\<close>

text \<open>The table \<^verbatim>\<open>kmap\<close>: virtual address, first and last physical address, permissions.\<close>

definition kmap :: "linkmap \<Rightarrow> (u32 \<times> u32 \<times> u32 \<times> u32) list" where
  "kmap l = [(KERNBASE, 0, EXTMEM, PTE_W), (KERNLINK, V2P KERNLINK, V2P (sym_data l), 0),
     (sym_data l, V2P (sym_data l), PHYSTOP, PTE_W), (DEVSPACE, DEVSPACE, 0, PTE_W)]"

fun setupkvm_loop :: "u32 \<Rightarrow> (u32 \<times> u32 \<times> u32 \<times> u32) list \<Rightarrow> 'x kmem_scheme \<Rightarrow> (u32, 'x kmem_scheme) outcome" where
  "setupkvm_loop pgdir [] s = Ret pgdir s"
| "setupkvm_loop pgdir ((virt, pstart, pend, perm) # ks) s =
     kbind (mappages pgdir virt (pend - pstart) pstart perm s) (\<lambda>r s.
     if r < 0 then kbind (freevm pgdir s) (\<lambda>_ s. Ret 0 s) else setupkvm_loop pgdir ks s)"

definition setupkvm :: "'x kmem_scheme \<Rightarrow> (u32, 'x kmem_scheme) outcome" where
  "setupkvm s =
     kbind (kalloc s) (\<lambda>pgdir s.
     if pgdir = 0 then Ret 0 s
     else
       let s = s\<lparr>mem := memset pgdir 0 PGSIZE (mem s)\<rparr> in
       if P2V PHYSTOP > DEVSPACE then Panic ''PHYSTOP too high''
       else setupkvm_loop pgdir (kmap (link s)) s)"

definition switchkvm :: "'x kbase_scheme \<Rightarrow> 'x kbase_scheme" where
  "switchkvm s = s\<lparr>cr3 := V2P (kpgdir s)\<rparr>"

definition kvmalloc :: "'x kmem_scheme \<Rightarrow> (unit, 'x kmem_scheme) outcome" where
  "kvmalloc s = kbind (setupkvm s) (\<lambda>pgdir s. Ret () (switchkvm (s\<lparr>kpgdir := pgdir\<rparr>)))"

section \<open>User memory\<close>

text \<open>Bytes stored one after the other, as \<^verbatim>\<open>memmove\<close> leaves them when the source is not in the destination.\<close>

fun store_bytes :: "u32 \<Rightarrow> bytes \<Rightarrow> mem \<Rightarrow> mem" where
  "store_bytes a [] m = m"
| "store_bytes a (b # bs) m = store_bytes (a + 1) bs (m(a := b))"

text \<open>
  \<^verbatim>\<open>inituvm\<close> does not check the result of \<^verbatim>\<open>kalloc\<close>; a null pointer is a fault, as the kernel's table maps no page at 0.
\<close>

definition inituvm :: "u32 \<Rightarrow> bytes \<Rightarrow> 'x kmem_scheme \<Rightarrow> (unit, 'x kmem_scheme) outcome" where
  "inituvm pgdir init s =
     (if length init \<ge> 4096 then Panic ''inituvm: more than a page''
      else
        kbind (kalloc s) (\<lambda>m s.
        if m = 0 then Panic ''trap''
        else
          kbind (mappages pgdir 0 PGSIZE (V2P m) (PTE_W OR PTE_U) (s\<lparr>mem := memset m 0 PGSIZE (mem s)\<rparr>)) (\<lambda>_ s.
          Ret () (s\<lparr>mem := store_bytes m init (mem s)\<rparr>))))"

function allocuvm_loop :: "u32 \<Rightarrow> u32 \<Rightarrow> u32 \<Rightarrow> nat \<Rightarrow> 'x kmem_scheme \<Rightarrow> (u32, 'x kmem_scheme) outcome" where
  "allocuvm_loop pgdir oldsz newsz a s =
     (if a < unat newsz then
        kbind (kalloc s) (\<lambda>m s.
        if m = 0 then
          kbind (cprintf (lit ''allocuvm out of memory'' @ [NEWLINE]) [] s) (\<lambda>_ s.
          kbind (deallocuvm pgdir newsz oldsz s) (\<lambda>_ s. Ret 0 s))
        else
          kbind (mappages pgdir (of_nat a) PGSIZE (V2P m) (PTE_W OR PTE_U) (s\<lparr>mem := memset m 0 PGSIZE (mem s)\<rparr>)) (\<lambda>r s.
          if r < 0 then
            kbind (cprintf (lit ''allocuvm out of memory (2)'' @ [NEWLINE]) [] s) (\<lambda>_ s.
            kbind (deallocuvm pgdir newsz oldsz s) (\<lambda>_ s.
            kbind (kfree m s) (\<lambda>_ s. Ret 0 s)))
          else allocuvm_loop pgdir oldsz newsz (a + 4096) s))
      else Ret newsz s)"
  by pat_completeness auto
termination
  by (relation "measure (\<lambda>(_, _, newsz, a, _). unat newsz - a)") auto

declare allocuvm_loop.simps [simp del]

definition allocuvm :: "u32 \<Rightarrow> u32 \<Rightarrow> u32 \<Rightarrow> 'x kmem_scheme \<Rightarrow> (u32, 'x kmem_scheme) outcome" where
  "allocuvm pgdir oldsz newsz s =
     (if newsz \<ge> KERNBASE then Ret 0 s
      else if newsz < oldsz then Ret oldsz s
      else allocuvm_loop pgdir oldsz newsz (unat (PGROUNDUP oldsz)) s)"

definition clearpteu :: "u32 \<Rightarrow> u32 \<Rightarrow> 'x kmem_scheme \<Rightarrow> (unit, 'x kmem_scheme) outcome" where
  "clearpteu pgdir uva s =
     kbind (walkpgdir pgdir uva False s) (\<lambda>pte s.
     if pte = 0 then Panic ''clearpteu''
     else Ret () (s\<lparr>mem := store32 pte (load32 (mem s) pte AND NOT PTE_U) (mem s)\<rparr>))"

text \<open>
  \<^verbatim>\<open>copyuvm\<close>. At \<^verbatim>\<open>KERNBASE\<close> the loop would panic in \<^verbatim>\<open>mappages\<close>, so \<^verbatim>\<open>i\<close> does not wrap.
\<close>

function copyuvm_loop :: "u32 \<Rightarrow> u32 \<Rightarrow> u32 \<Rightarrow> nat \<Rightarrow> 'x kmem_scheme \<Rightarrow> (u32, 'x kmem_scheme) outcome" where
  "copyuvm_loop pgdir d sz i s =
     (if i < unat sz then
        kbind (walkpgdir pgdir (of_nat i) False s) (\<lambda>pte s.
        if pte = 0 then Panic ''copyuvm: pte should exist''
        else if load32 (mem s) pte AND PTE_P = 0 then Panic ''copyuvm: page not present''
        else
          let pa = PTE_ADDR (load32 (mem s) pte); flags = PTE_FLAGS (load32 (mem s) pte) in
          kbind (kalloc s) (\<lambda>m s.
          if m = 0 then kbind (freevm d s) (\<lambda>_ s. Ret 0 s)
          else
            kbind (mappages d (of_nat i) PGSIZE (V2P m) flags (s\<lparr>mem := memmove m (P2V pa) PGSIZE (mem s)\<rparr>)) (\<lambda>r s.
            if r < 0 then kbind (kfree m s) (\<lambda>_ s. kbind (freevm d s) (\<lambda>_ s. Ret 0 s))
            else copyuvm_loop pgdir d sz (i + 4096) s)))
      else Ret d s)"
  by pat_completeness auto
termination
  by (relation "measure (\<lambda>(_, _, sz, i, _). unat sz - i)") auto

declare copyuvm_loop.simps [simp del]

definition copyuvm :: "u32 \<Rightarrow> u32 \<Rightarrow> 'x kmem_scheme \<Rightarrow> (u32, 'x kmem_scheme) outcome" where
  "copyuvm pgdir sz s =
     kbind (setupkvm s) (\<lambda>d s. if d = 0 then Ret 0 s else copyuvm_loop pgdir d sz 0 s)"

text \<open>
  \<^verbatim>\<open>uva2ka\<close> follows the pointer that \<^verbatim>\<open>walkpgdir\<close> returns without a check.
\<close>

definition uva2ka :: "u32 \<Rightarrow> u32 \<Rightarrow> 'x kmem_scheme \<Rightarrow> (u32, 'x kmem_scheme) outcome" where
  "uva2ka pgdir uva s =
     kbind (walkpgdir pgdir uva False s) (\<lambda>pte s.
     if pte = 0 then undef
     else if load32 (mem s) pte AND PTE_P = 0 then Ret 0 s
     else if load32 (mem s) pte AND PTE_U = 0 then Ret 0 s
     else Ret (P2V (PTE_ADDR (load32 (mem s) pte))) s)"

lemma split_and_not: "a - (a AND NOT m) = a AND (m :: u32)"
proof -
  have "(a AND NOT m) + (a AND m) = (a AND NOT m) OR (a AND m)"
    by (rule disjunctive_add) (simp add: bit_simps)
  also have "\<dots> = a" by (rule bit_word_eqI) (auto simp: bit_simps)
  finally show ?thesis by (simp add: algebra_simps)
qed

lemma page_offset: "va - PGROUNDDOWN va = va AND 0xFFF" "unat (va AND 0xFFF) < 4096"
proof -
  show "va - PGROUNDDOWN va = va AND 0xFFF" using split_and_not [of va "0xFFF"] by (simp add: PGROUNDDOWN_def)
  have "(0xFFF :: u32) = mask 12" by (simp add: mask_eq_exp_minus_1)
  then have "va AND 0xFFF = take_bit 12 va" by (simp only: take_bit_eq_mask)
  then show "unat (va AND 0xFFF) < 4096" using take_bit_nat_less_exp [of 12 "unat va"]
    by (simp add: unsigned_take_bit_eq)
qed

function copyout :: "u32 \<Rightarrow> u32 \<Rightarrow> bytes \<Rightarrow> 'x kmem_scheme \<Rightarrow> (int, 'x kmem_scheme) outcome" where
  "copyout pgdir va buf s =
     (if buf = [] then Ret 0 s
      else
        let va0 = PGROUNDDOWN va in
        kbind (uva2ka pgdir va0 s) (\<lambda>pa0 s.
        if pa0 = 0 then Ret (-1) s
        else
          let n = min (length buf) (4096 - unat (va - va0)) in
          copyout pgdir (va0 + PGSIZE) (drop n buf)
                 (s\<lparr>mem := store_bytes (pa0 + (va - va0)) (take n buf) (mem s)\<rparr>)))"
  by pat_completeness auto
termination
  by (relation "measure (\<lambda>(_, _, buf, _). length buf)") (auto simp: page_offset)

declare copyout.simps [simp del]

text \<open>
  What an access of the kernel to a user address reaches: the byte that the page table maps there, if the page is present
  and, for a store, writable; otherwise the access is a fault.
\<close>

definition umem_ka :: "bool \<Rightarrow> 'x kmem_scheme \<Rightarrow> u32 \<Rightarrow> u32 \<Rightarrow> u32 option" where
  "umem_ka wr s pgdir va =
     (let e = load32 (mem s) (pgdir + 4 * PDX va) in
      if e AND PTE_P = 0 \<or> wr \<and> e AND PTE_W = 0 then None
      else let t = load32 (mem s) (P2V (PTE_ADDR e) + 4 * PTX va) in
           if t AND PTE_P = 0 \<or> wr \<and> t AND PTE_W = 0 then None
           else Some (P2V (PTE_ADDR t) + (va AND 0xFFF)))"

section \<open>Loops end\<close>

text \<open>A path that ends here: it returns or panics, it does not wait and does not loop.\<close>

definition ends :: "('a, 's) outcome \<Rightarrow> bool" where
  "ends m \<longleftrightarrow> (case m of Ret _ _ \<Rightarrow> True | Panic _ \<Rightarrow> True | _ \<Rightarrow> False)"

lemma ends_simps [simp]: "ends (Ret x s)" "ends (Panic e)" "\<not> ends (Switch s)" "\<not> ends Hang"
  by (simp_all add: ends_def)

lemma kbind_ends: "ends m \<Longrightarrow> (\<And>x t. m = Ret x t \<Longrightarrow> ends (f x t)) \<Longrightarrow> ends (kbind m f)"
  by (cases m) auto

lemma kfree_ends: "ends (kfree v s)"
  by (auto simp: kfree_def acquire_def release_def Let_def split: if_splits intro!: kbind_ends)

lemma walkpgdir_no_alloc: "\<exists>pte. walkpgdir pgdir va False s = Ret pte s"
  by (simp add: walkpgdir_def Let_def)

lemma deallocuvm_loop_ends:
  assumes "unat oldsz + 4194304 \<le> 4294967296" "a < unat oldsz + 4194304"
  shows "ends (deallocuvm_loop pgdir oldsz a s)"
  using assms
proof (induction pgdir oldsz a s rule: deallocuvm_loop.induct)
  case (1 pgdir oldsz a s)
  have a: "\<not> a \<ge> 2 ^ 32" using "1.prems" by simp
  obtain pte where w: "walkpgdir pgdir (of_nat a) False s = Ret pte s" using walkpgdir_no_alloc by blast
  show ?case
  proof (cases "a < unat oldsz")
    case False
    then show ?thesis using a by (subst deallocuvm_loop.simps) simp
  next
    case True
    have b: "(a div 2 ^ 22 + 1) * 2 ^ 22 < unat oldsz + 4194304"
    proof -
      have "a div 4194304 * 4194304 \<le> a" by simp
      then show ?thesis using True by simp
    qed
    note IH = "1.IH" [OF a True w]
    have skip: "ends (deallocuvm_loop pgdir oldsz ((a div 2 ^ 22 + 1) * 2 ^ 22) s)" if "pte = 0"
      by (rule IH(1) [OF that "1.prems"(1) b])
    have step: "ends (deallocuvm_loop pgdir oldsz (a + 4096) s)" if "pte \<noteq> 0" "\<not> load32 (mem s) pte AND PTE_P \<noteq> 0"
      using IH(3) [OF that "1.prems"(1)] True by simp
    have free: "ends (kbind (kfree (P2V (PTE_ADDR (load32 (mem s) pte))) s)
        (\<lambda>_ s. deallocuvm_loop pgdir oldsz (a + 4096) (s\<lparr>mem := store32 pte 0 (mem s)\<rparr>)))"
      if "pte \<noteq> 0" "load32 (mem s) pte AND PTE_P \<noteq> 0" "PTE_ADDR (load32 (mem s) pte) \<noteq> 0"
      using IH(2) [OF that(1,2) refl that(3) _ "1.prems"(1)] True by (intro kbind_ends kfree_ends) simp
    show ?thesis
      unfolding deallocuvm_loop.simps [of pgdir oldsz a s] if_not_P [OF a] if_P [OF True] w kbind.simps
      using skip step free by (simp add: Let_def)
  qed
qed

section \<open>Properties\<close>



end
