(* ===== verification/Sysarg.thy ===== *)
theory Sysarg
  imports Vm
begin

text \<open>
  System-call arguments, the first part of \<^verbatim>\<open>syscall.c\<close>, and the accesses of the kernel to user memory. A pointer that the
  kernel follows to a page that is not mapped is a fault in the kernel, which \<^verbatim>\<open>trap\<close> answers with \<^verbatim>\<open>panic("trap")\<close>.
\<close>

section \<open>User memory\<close>

definition cur :: "'x kbase_scheme \<Rightarrow> (nat, 'x kbase_scheme) outcome" where
  "cur s = (case myproc s of None \<Rightarrow> Panic ''trap'' | Some p \<Rightarrow> Ret p s)"

definition uload8 :: "u32 \<Rightarrow> 'x kmem_scheme \<Rightarrow> (u8, 'x kmem_scheme) outcome" where
  "uload8 va s =
     kbind (cur s) (\<lambda>p s.
     case umem_ka False s (p_pgdir (procs s ! p)) va of None \<Rightarrow> Panic ''trap'' | Some a \<Rightarrow> Ret (mem s a) s)"

definition ustore8 :: "u32 \<Rightarrow> u8 \<Rightarrow> 'x kmem_scheme \<Rightarrow> (unit, 'x kmem_scheme) outcome" where
  "ustore8 va b s =
     kbind (cur s) (\<lambda>p s.
     case umem_ka True s (p_pgdir (procs s ! p)) va of None \<Rightarrow> Panic ''trap''
     | Some a \<Rightarrow> Ret () (s\<lparr>mem := (mem s)(a := b)\<rparr>))"

fun uload :: "nat \<Rightarrow> u32 \<Rightarrow> 'x kmem_scheme \<Rightarrow> (bytes, 'x kmem_scheme) outcome" where
  "uload 0 va s = Ret [] s"
| "uload (Suc n) va s = kbind (uload8 va s) (\<lambda>b s. kbind (uload n (va + 1) s) (\<lambda>bs s. Ret (b # bs) s))"

fun ustore :: "u32 \<Rightarrow> bytes \<Rightarrow> 'x kmem_scheme \<Rightarrow> (unit, 'x kmem_scheme) outcome" where
  "ustore va [] s = Ret () s"
| "ustore va (b # bs) s = kbind (ustore8 va b s) (\<lambda>_ s. ustore (va + 1) bs s)"

definition word_bytes :: "u32 \<Rightarrow> bytes" where
  "word_bytes v = [ucast v, ucast (drop_bit 8 v), ucast (drop_bit 16 v), ucast (drop_bit 24 v)]"

definition bytes_word :: "bytes \<Rightarrow> u32" where
  "bytes_word b = ucast (b ! 0) OR push_bit 8 (ucast (b ! 1)) OR push_bit 16 (ucast (b ! 2)) OR push_bit 24 (ucast (b ! 3))"

section \<open>Arguments\<close>

text \<open>The results are \<^const>\<open>None\<close> for -1. A string is given by its characters; the code passes its address.\<close>

definition fetchint :: "u32 \<Rightarrow> 'x kmem_scheme \<Rightarrow> (u32 option, 'x kmem_scheme) outcome" where
  "fetchint addr s =
     kbind (cur s) (\<lambda>p s.
     if addr \<ge> p_sz (procs s ! p) \<or> addr + 4 > p_sz (procs s ! p) then Ret None s
     else kbind (uload 4 addr s) (\<lambda>b s. Ret (Some (bytes_word b)) s))"

fun fetchstr_loop :: "nat \<Rightarrow> u32 \<Rightarrow> 'x kmem_scheme \<Rightarrow> (bytes option, 'x kmem_scheme) outcome" where
  "fetchstr_loop 0 a s = Ret None s"
| "fetchstr_loop (Suc n) a s =
     kbind (uload8 a s) (\<lambda>c s.
     if c = 0 then Ret (Some []) s
     else kbind (fetchstr_loop n (a + 1) s) (\<lambda>r s. Ret (map_option ((#) c) r) s))"

definition fetchstr :: "u32 \<Rightarrow> 'x kmem_scheme \<Rightarrow> (bytes option, 'x kmem_scheme) outcome" where
  "fetchstr addr s =
     kbind (cur s) (\<lambda>p s.
     if addr \<ge> p_sz (procs s ! p) then Ret None s
     else fetchstr_loop (unat (p_sz (procs s ! p)) - unat addr) addr s)"

definition argint :: "nat \<Rightarrow> 'x kmem_scheme \<Rightarrow> (u32 option, 'x kmem_scheme) outcome" where
  "argint n s = kbind (cur s) (\<lambda>p s. fetchint (tf_esp (p_tf (procs s ! p)) + 4 + 4 * of_nat n) s)"

definition argptr :: "nat \<Rightarrow> int \<Rightarrow> 'x kmem_scheme \<Rightarrow> (u32 option, 'x kmem_scheme) outcome" where
  "argptr n len s =
     kbind (cur s) (\<lambda>p s.
     kbind (argint n s) (\<lambda>r s.
     case r of None \<Rightarrow> Ret None s
     | Some i \<Rightarrow>
         if len < 0 \<or> i \<ge> p_sz (procs s ! p) \<or> i + word_of_int len > p_sz (procs s ! p) then Ret None s
         else Ret (Some i) s))"

definition argstr :: "nat \<Rightarrow> 'x kmem_scheme \<Rightarrow> (bytes option, 'x kmem_scheme) outcome" where
  "argstr n s =
     kbind (argint n s) (\<lambda>r s. case r of None \<Rightarrow> Ret None s | Some addr \<Rightarrow> fetchstr addr s)"

section \<open>Arguments stay in the memory of the process\<close>

text \<open>The running process, whose memory up to its size is mapped below the kernel.\<close>

definition user_ok :: "'x kmem_scheme \<Rightarrow> nat \<Rightarrow> bool" where
  "user_ok s p \<longleftrightarrow> myproc s = Some p \<and> p_sz (procs s ! p) \<le> 0x80000000 \<and>
     (\<forall>va < p_sz (procs s ! p). umem_ka False s (p_pgdir (procs s ! p)) va \<noteq> None)"

definition ubyte :: "'x kmem_scheme \<Rightarrow> nat \<Rightarrow> u32 \<Rightarrow> u8" where
  "ubyte s p va = mem s (the (umem_ka False s (p_pgdir (procs s ! p)) va))"

lemma unat_add_1_less:
  assumes "a < (b :: u32)"
  shows "unat (a + 1) = unat a + 1"
proof -
  have "unat a < unat b" using assms by (simp add: word_less_nat_alt)
  then have "unat a < 4294967295" using unat_lt_2p32 [of b] by linarith
  then show ?thesis by (subst unat_add_u32) simp_all
qed

lemma uload8_ok: "user_ok s p \<Longrightarrow> va < p_sz (procs s ! p) \<Longrightarrow> uload8 va s = Ret (ubyte s p va) s"
  by (auto simp: uload8_def cur_def user_ok_def ubyte_def split: option.split)

lemma uload_ok:
  assumes "user_ok s p" "unat va + n \<le> unat (p_sz (procs s ! p))"
  shows "uload n va s = Ret (map (\<lambda>i. ubyte s p (va + of_nat i)) [0..<n]) s"
  using assms(2)
proof (induction n arbitrary: va)
  case (Suc n)
  have lt: "va < p_sz (procs s ! p)" using Suc.prems by (simp add: word_less_nat_alt)
  have "unat (va + 1) = unat va + 1" by (rule unat_add_1_less [OF lt])
  then have "uload n (va + 1) s = Ret (map (\<lambda>i. ubyte s p (va + 1 + of_nat i)) [0..<n]) s" using Suc by simp
  moreover have "map (\<lambda>i. ubyte s p (va + of_nat i)) [0..<Suc n] = ubyte s p va # map (\<lambda>i. ubyte s p (va + 1 + of_nat i)) [0..<n]"
    by (simp add: upt_conv_Cons map_Suc_upt [symmetric] o_def add.assoc del: upt_Suc)
  ultimately show ?case using uload8_ok [OF assms(1) lt] by simp
qed simp

lemma fetchint_ok:
  assumes "user_ok s p"
  shows "\<exists>r. fetchint addr s = Ret r s \<and> (r = None \<longrightarrow> unat (p_sz (procs s ! p)) < unat addr + 4)"
proof -
  let ?z = "p_sz (procs s ! p)"
  have c: "cur s = Ret p s" using assms by (simp add: cur_def user_ok_def)
  have z: "unat ?z \<le> 2147483648" using assms by (simp add: user_ok_def word_le_nat_alt)
  show ?thesis
  proof (cases "addr \<ge> ?z \<or> addr + 4 > ?z")
    case True
    have "unat ?z < unat addr + 4"
    proof (cases "addr \<ge> ?z")
      case True
      then show ?thesis by (simp add: word_le_nat_alt)
    next
      case False
      then have "unat addr < unat ?z" by (simp add: word_le_nat_alt)
      then have "unat (addr + 4) = unat addr + 4" using z by (subst unat_add_u32) auto
      with True False show ?thesis by (simp add: word_less_nat_alt)
    qed
    then show ?thesis using True c by (auto simp: fetchint_def)
  next
    case False
    then have "unat addr < unat ?z" by (simp add: word_le_nat_alt)
    then have "unat (addr + 4) = unat addr + 4" using z by (subst unat_add_u32) auto
    with False have "unat addr + 4 \<le> unat ?z" by (simp add: word_le_nat_alt not_less)
    then show ?thesis using uload_ok [OF assms, of addr 4] False c by (auto simp: fetchint_def)
  qed
qed

text \<open>A process with a page of memory, of which it uses 16 bytes.\<close>

definition user_sample :: kmem where
  "user_sample = kbase.extend (kbase_run\<lparr>procs := (procs kbase_run)[0 := (procs kbase_run ! 0)\<lparr>p_sz := 16, p_pgdir := 0x80001000\<rparr>]\<rparr>)
     (kmem.fields (store32 0x80003004 0x6968 (store32 0x80002000 0x3007 (store32 0x80001000 0x2007 (\<lambda>_. 0)))) True 0)"

lemma small_addr: "va < 16 \<Longrightarrow> PDX va = 0 \<and> PTX va = 0"
proof -
  assume "va < (16 :: u32)"
  then have "unat va < 16" by (simp add: word_less_nat_alt)
  then have "drop_bit 12 va = 0" "drop_bit 22 va = 0"
    by (simp_all add: word_unat_eq_iff drop_bit_eq_div unat_div_distrib)
  then show ?thesis by (simp add: PDX_def PTX_def)
qed

lemma user_sample: "user_ok user_sample 0" "p_sz (procs user_sample ! 0) = 16"
proof -
  have s: "myproc user_sample = Some 0" "p_sz (procs user_sample ! 0) = 16" "p_pgdir (procs user_sample ! 0) = 0x80001000"
    by (simp_all add: user_sample_def myproc_def kbase_run_def kbase_boot_def kbase.defs)
  have "umem_ka False user_sample 0x80001000 va \<noteq> None" if "va < 16" for va
    using small_addr [OF that] by (simp add: umem_ka_def user_sample_def kbase.defs kmem.defs load32_def store32_def PTE_ADDR_def P2V_def)
  then show "user_ok user_sample 0" using s by (simp add: user_ok_def)
  show "p_sz (procs user_sample ! 0) = 16" by (rule s(2))
qed

section \<open>Properties\<close>



text \<open>
  C23. \<^verbatim>\<open>fetchstr\<close> returns the string at the address when it ends, with its NUL, in the memory of the process, and -1 when the
  address is beyond the memory or no NUL follows; it reads nothing beyond the size of the process and never faults.
\<close>

theorem fetchstr_in_bounds:
  assumes "user_ok s p"
  shows "\<exists>r. fetchstr addr s = Ret r s \<and> (case r of
      None \<Rightarrow> (\<forall>va. addr \<le> va \<and> va < p_sz (procs s ! p) \<longrightarrow> ubyte s p va \<noteq> 0)
    | Some str \<Rightarrow> unat addr + length str < unat (p_sz (procs s ! p)) \<and> 0 \<notin> set str \<and>
        ubyte s p (addr + of_nat (length str)) = 0 \<and> (\<forall>i < length str. str ! i = ubyte s p (addr + of_nat i)))"
proof -
  let ?z = "p_sz (procs s ! p)"
  have c: "cur s = Ret p s" using assms by (simp add: cur_def user_ok_def)
  have loop: "\<exists>r. fetchstr_loop n a s = Ret r s \<and> (case r of
      None \<Rightarrow> (\<forall>va. a \<le> va \<and> va < ?z \<longrightarrow> ubyte s p va \<noteq> 0)
    | Some str \<Rightarrow> length str < n \<and> 0 \<notin> set str \<and>
        ubyte s p (a + of_nat (length str)) = 0 \<and> (\<forall>i < length str. str ! i = ubyte s p (a + of_nat i)))"
    if "unat a + n = unat ?z" for n a
    using that
  proof (induction n arbitrary: a)
    case 0
    then have "\<not> (a \<le> va \<and> va < ?z)" for va by (simp add: word_le_nat_alt word_less_nat_alt)
    then show ?case by auto
  next
    case (Suc n)
    have lt: "a < ?z" using Suc.prems by (simp add: word_less_nat_alt)
    have a1: "unat (a + 1) = unat a + 1" by (rule unat_add_1_less [OF lt])
    then have "unat (a + 1) + n = unat ?z" using Suc.prems by simp
    from Suc.IH [OF this] obtain r where r: "fetchstr_loop n (a + 1) s = Ret r s"
      "case r of None \<Rightarrow> (\<forall>va. a + 1 \<le> va \<and> va < ?z \<longrightarrow> ubyte s p va \<noteq> 0)
       | Some str \<Rightarrow> length str < n \<and> 0 \<notin> set str \<and> ubyte s p (a + 1 + of_nat (length str)) = 0 \<and>
           (\<forall>i < length str. str ! i = ubyte s p (a + 1 + of_nat i))" by blast
    show ?case
    proof (cases "ubyte s p a = 0")
      case True
      then show ?thesis using uload8_ok [OF assms lt] by simp
    next
      case False
      have ne: "a \<le> va \<and> va < ?z \<Longrightarrow> va = a \<or> a + 1 \<le> va" for va
        using a1 by (auto simp: word_le_nat_alt word_unat_eq_iff)
      show ?thesis
      proof (cases r)
        case None
        then show ?thesis using r False uload8_ok [OF assms lt] ne by fastforce
      next
        case (Some str)
        then show ?thesis using r False uload8_ok [OF assms lt] Some
          by (auto simp: add.assoc nth_Cons split: nat.split)
      qed
    qed
  qed
  show ?thesis
  proof (cases "addr \<ge> ?z")
    case True
    then have "\<not> (addr \<le> va \<and> va < ?z)" for va by auto
    then show ?thesis using True c by (auto simp: fetchstr_def)
  next
    case False
    then have "unat addr + (unat ?z - unat addr) = unat ?z" by (simp add: word_le_nat_alt)
    from loop [OF this] False show ?thesis by (fastforce simp: fetchstr_def c split: option.splits)
  qed
qed

theorem fetchstr_in_bounds_witness: "fetchstr 4 user_sample = Ret (Some (lit ''hi'')) user_sample"
proof -
  have b: "ubyte user_sample 0 4 = 104" "ubyte user_sample 0 5 = 105" "ubyte user_sample 0 6 = 0"
    by (simp_all add: ubyte_def umem_ka_def small_addr user_sample_def kbase.defs kmem.defs kbase_run_def kbase_boot_def
        load32_def store32_def PTE_ADDR_def P2V_def)
  obtain r where r: "fetchstr 4 user_sample = Ret r user_sample" "case r of
      None \<Rightarrow> (\<forall>va. 4 \<le> va \<and> va < p_sz (procs user_sample ! 0) \<longrightarrow> ubyte user_sample 0 va \<noteq> 0)
    | Some str \<Rightarrow> unat (4 :: u32) + length str < unat (p_sz (procs user_sample ! 0)) \<and> 0 \<notin> set str \<and>
        ubyte user_sample 0 (4 + of_nat (length str)) = 0 \<and> (\<forall>i < length str. str ! i = ubyte user_sample 0 (4 + of_nat i))"
    using fetchstr_in_bounds [OF user_sample(1), of 4] by blast
  have nn: "r \<noteq> None"
  proof
    assume "r = None"
    then have "\<forall>va. 4 \<le> va \<and> va < 16 \<longrightarrow> ubyte user_sample 0 va \<noteq> 0" using r(2) by (simp add: user_sample(2))
    from spec [OF this, of 6] show False using b by simp
  qed
  then obtain str where str: "r = Some str" by blast
  have f: "0 \<notin> set str" "ubyte user_sample 0 (4 + of_nat (length str)) = 0"
    "\<And>i. i < length str \<Longrightarrow> str ! i = ubyte user_sample 0 (4 + of_nat i)"
    using r(2) str by auto
  have "length str \<noteq> 0" "length str \<noteq> 1" using f(2) b by auto
  moreover have "\<not> 2 < length str"
  proof
    assume l: "2 < length str"
    then have "str ! 2 = 0" using f(3) [of 2] b by simp
    then show False using f(1) l by (metis nth_mem)
  qed
  ultimately have l: "length str = 2" by linarith
  have "str = [104, 105]" by (rule nth_equalityI) (use l f(3) b in \<open>auto simp: less_Suc_eq numeral_2_eq_2\<close>)
  then show ?thesis using r(1) str by (simp add: of_char_def)
qed

end
