(* ===== verification/Proc.thy ===== *)
theory Proc
  imports File Sysarg
begin

text \<open>
  Processes, \<^verbatim>\<open>proc.c\<close>: creation, growth, \<^verbatim>\<open>fork\<close>, \<^verbatim>\<open>exit\<close>, \<^verbatim>\<open>wait\<close>, \<^verbatim>\<open>new_wait\<close> and the scheduler. A process
  pointer is an index into \<^verbatim>\<open>ptable.proc\<close>.
\<close>

section \<open>Creation\<close>

text \<open>
  \<^verbatim>\<open>allocproc\<close>. The trap frame takes 76 bytes at the top of the stack, below it is the return address of \<^verbatim>\<open>forkret\<close>. The frame
  itself is left as it is: both callers overwrite it.
\<close>

definition allocproc :: "'x kmem_scheme \<Rightarrow> (nat option, 'x kmem_scheme) outcome" where
  "allocproc s =
     kbind (acquire LPtable s) (\<lambda>_ s.
     case find_idx (\<lambda>p. p_state p = UNUSED) (procs s) of
       None \<Rightarrow> kbind (release LPtable s) (\<lambda>_ s. Ret None s)
     | Some i \<Rightarrow>
         let s = upd_proc i (\<lambda>p. p\<lparr>p_state := EMBRYO, p_pid := nextpid s, p_ctime := ticks s\<rparr>) s;
             s = s\<lparr>nextpid := nextpid s + 1\<rparr>
         in kbind (release LPtable s) (\<lambda>_ s.
            kbind (kalloc s) (\<lambda>k s.
            let s = upd_proc i (\<lambda>p. p\<lparr>p_kstack := k\<rparr>) s in
            if k = 0 then Ret None (upd_proc i (\<lambda>p. p\<lparr>p_state := UNUSED\<rparr>) s)
            else
              let s = s\<lparr>mem := store32 (k + KSTACKSIZE - 76 - 4) (sym_trapret (link s)) (mem s)\<rparr>
              in Ret (Some i) (upd_proc i (\<lambda>p. p\<lparr>p_context := cx_zero\<lparr>cx_eip := sym_forkret (link s)\<rparr>\<rparr>) s))))"

abbreviation (input) SEG_UCODE :: u16 where "SEG_UCODE \<equiv> 3"
abbreviation (input) SEG_UDATA :: u16 where "SEG_UDATA \<equiv> 4"
abbreviation (input) DPL_USER :: u16 where "DPL_USER \<equiv> 3"
abbreviation (input) FL_IF :: u32 where "FL_IF \<equiv> 0x200"

text \<open>
  \<^verbatim>\<open>userinit\<close> with the program \<^verbatim>\<open>initcode\<close>, which the build assembles, as an argument.
\<close>

definition userinit :: "bytes \<Rightarrow> 'x fs_scheme \<Rightarrow> (unit, 'x fs_scheme) outcome" where
  "userinit initcode s =
     kbind (allocproc s) (\<lambda>po s.
     let s = s\<lparr>initproc := po\<rparr> in
     case po of None \<Rightarrow> Panic ''trap''
     | Some p \<Rightarrow>
         kbind (setupkvm s) (\<lambda>pgdir s.
         let s = upd_proc p (\<lambda>q. q\<lparr>p_pgdir := pgdir\<rparr>) s in
         if pgdir = 0 then Panic ''userinit: out of memory?''
         else
           kbind (inituvm pgdir initcode s) (\<lambda>_ s.
           let ds = push_bit 3 SEG_UDATA OR DPL_USER;
               s = upd_proc p (\<lambda>q. q\<lparr>p_sz := PGSIZE,
                     p_tf := tf_zero\<lparr>tf_cs := push_bit 3 SEG_UCODE OR DPL_USER, tf_ds := ds, tf_es := ds, tf_ss := ds,
                       tf_eflags := FL_IF, tf_esp := PGSIZE, tf_eip := 0\<rparr>\<rparr>) s
           in case safestrcpy (lit ''initcode'' @ [0]) 16 of None \<Rightarrow> undef
              | Some w \<Rightarrow>
                  kbind (namei (lit ''/'') (upd_proc p (\<lambda>q. q\<lparr>p_name := blit 0 w (p_name q)\<rparr>) s)) (\<lambda>cwd s.
                  kbind (acquire LPtable (upd_proc p (\<lambda>q. q\<lparr>p_cwd := cwd\<rparr>) s)) (\<lambda>_ s.
                  release LPtable (upd_proc p (\<lambda>q. q\<lparr>p_state := RUNNABLE\<rparr>) s))))))"

definition growproc :: "int \<Rightarrow> 'x kmem_scheme \<Rightarrow> (int, 'x kmem_scheme) outcome" where
  "growproc n s =
     kbind (cur s) (\<lambda>c s.
     let pgdir = p_pgdir (procs s ! c); sz = p_sz (procs s ! c) in
     kbind (if n > 0 then
              kbind (allocuvm pgdir sz (sz + word_of_int n) s) (\<lambda>z s. Ret (if z = 0 then None else Some z) s)
            else if n < 0 then
              kbind (deallocuvm pgdir sz (sz + word_of_int n) s) (\<lambda>z s. Ret (if z = 0 then None else Some z) s)
            else Ret (Some sz) s) (\<lambda>r s.
     case r of None \<Rightarrow> Ret (-1) s
     | Some z \<Rightarrow>
         kbind (switchuvm (Some c) (upd_proc c (\<lambda>p. p\<lparr>p_sz := z\<rparr>) s)) (\<lambda>_ s. Ret 0 s)))"

section \<open>Fork\<close>

definition dup_ofile :: "nat \<Rightarrow> nat \<Rightarrow> nat \<Rightarrow> 'x ft_scheme \<Rightarrow> (unit, 'x ft_scheme) outcome" where
  "dup_ofile c np i s =
     (case p_ofile (procs s ! c) ! i of None \<Rightarrow> Ret () s
      | Some f \<Rightarrow>
          kbind (filedup f s) (\<lambda>f s. Ret () (upd_proc np (\<lambda>p. p\<lparr>p_ofile := (p_ofile p)[i := Some f]\<rparr>) s)))"

definition fork :: "'x ft_scheme \<Rightarrow> (int, 'x ft_scheme) outcome" where
  "fork s =
     kbind (cur s) (\<lambda>c s.
     kbind (allocproc s) (\<lambda>npo s.
     case npo of None \<Rightarrow> Ret (-1) s
     | Some np \<Rightarrow>
         kbind (copyuvm (p_pgdir (procs s ! c)) (p_sz (procs s ! c)) s) (\<lambda>pgdir s.
         let s = upd_proc np (\<lambda>p. p\<lparr>p_pgdir := pgdir\<rparr>) s in
         if pgdir = 0 then
           kbind (kfree (p_kstack (procs s ! np)) s) (\<lambda>_ s.
           Ret (-1) (upd_proc np (\<lambda>p. p\<lparr>p_kstack := 0, p_state := UNUSED\<rparr>) s))
         else
           let cp = procs s ! c;
               s = upd_proc np (\<lambda>p. p\<lparr>p_sz := p_sz cp, p_parent := Some c, p_tf := (p_tf cp)\<lparr>tf_eax := 0\<rparr>\<rparr>) s
           in kbind (kfor [0..<NOFILE] (dup_ofile c np) s) (\<lambda>_ s.
              kbind (case p_cwd (procs s ! c) of None \<Rightarrow> Panic ''trap'' | Some ip \<Rightarrow> idup ip s) (\<lambda>ip s.
              let s = upd_proc np (\<lambda>p. p\<lparr>p_cwd := Some ip\<rparr>) s in
              case safestrcpy (p_name (procs s ! c)) 16 of None \<Rightarrow> undef
              | Some w \<Rightarrow>
                  let s = upd_proc np (\<lambda>p. p\<lparr>p_name := blit 0 w (p_name p)\<rparr>) s;
                      s = upd_proc c (\<lambda>p. p\<lparr>p_ctime := ticks s\<rparr>) s;
                      pid = p_pid (procs s ! np)
                  in kbind (acquire LPtable s) (\<lambda>_ s.
                     kbind (release LPtable (upd_proc np (\<lambda>p. p\<lparr>p_state := RUNNABLE\<rparr>) s)) (\<lambda>_ s.
                     Ret pid s)))))))"

section \<open>Exit\<close>

definition close_ofile :: "nat \<Rightarrow> nat \<Rightarrow> 'x ft_scheme \<Rightarrow> (unit, 'x ft_scheme) outcome" where
  "close_ofile c fd s =
     (case p_ofile (procs s ! c) ! fd of None \<Rightarrow> Ret () s
      | Some f \<Rightarrow>
          kbind (fileclose f s) (\<lambda>_ s. Ret () (upd_proc c (\<lambda>p. p\<lparr>p_ofile := (p_ofile p)[fd := None]\<rparr>) s)))"

text \<open>\<^verbatim>\<open>wakeup1\<close> of a process pointer that may be null; nobody sleeps on a null channel.\<close>

definition wakeup1_proc :: "nat option \<Rightarrow> 'x kbase_scheme \<Rightarrow> 'x kbase_scheme" where
  "wakeup1_proc po s = (case po of None \<Rightarrow> s | Some p \<Rightarrow> wakeup1 (ChProc p) s)"

fun reparent :: "nat list \<Rightarrow> nat \<Rightarrow> 'x kbase_scheme \<Rightarrow> 'x kbase_scheme" where
  "reparent [] c s = s"
| "reparent (i # is) c s =
     (if p_parent (procs s ! i) = Some c then
        let s = upd_proc i (\<lambda>p. p\<lparr>p_parent := initproc s\<rparr>) s
        in reparent is c (if p_state (procs s ! i) = ZOMBIE then wakeup1_proc (initproc s) s else s)
      else reparent is c s)"

definition exit :: "'x ft_scheme \<Rightarrow> ('a, 'x ft_scheme) outcome" where
  "exit s =
     kbind (cur s) (\<lambda>c s.
     if initproc s = Some c then Panic ''init exiting''
     else
       kbind (kfor [0..<NOFILE] (close_ofile c) s) (\<lambda>_ s.
       kbind (begin_op s) (\<lambda>_ s.
       kbind (case p_cwd (procs s ! c) of None \<Rightarrow> Panic ''trap'' | Some ip \<Rightarrow> iput ip s) (\<lambda>_ s.
       kbind (end_op s) (\<lambda>_ s.
       kbind (acquire LPtable (upd_proc c (\<lambda>p. p\<lparr>p_cwd := None\<rparr>) s)) (\<lambda>_ s.
       let s = wakeup1_proc (p_parent (procs s ! c)) s;
           s = reparent [0..<length (procs s)] c s;
           s = upd_proc c (\<lambda>p. p\<lparr>p_etime := ticks s, p_state := ZOMBIE\<rparr>) s
       in kbind (sched s) (\<lambda>(_ :: unit) _. Panic ''zombie exit'')))))))"

section \<open>Wait\<close>

text \<open>Freeing an exited child; the fields \<^verbatim>\<open>sz\<close>, \<^verbatim>\<open>pgdir\<close>, \<^verbatim>\<open>tf\<close> and the times keep their values.\<close>

definition reap :: "nat \<Rightarrow> 'x kmem_scheme \<Rightarrow> (int, 'x kmem_scheme) outcome" where
  "reap i s =
     (let pid = p_pid (procs s ! i) in
      kbind (kfree (p_kstack (procs s ! i)) s) (\<lambda>_ s.
      kbind (freevm (p_pgdir (procs s ! i)) (upd_proc i (\<lambda>p. p\<lparr>p_kstack := 0\<rparr>) s)) (\<lambda>_ s.
      Ret pid (upd_proc i (\<lambda>p. p\<lparr>p_pid := 0, p_parent := None, p_name := (p_name p)[0 := 0],
                                 p_killed := False, p_state := UNUSED\<rparr>) s))))"

text \<open>
  One round of the loop of \<^verbatim>\<open>wait\<close>; a process that sleeps goes on with another round.
\<close>

definition wait_rest :: "'x kmem_scheme \<Rightarrow> (int, 'x kmem_scheme) outcome" where
  "wait_rest s =
     kbind (cur s) (\<lambda>c s.
     case find_idx (\<lambda>p. p_parent p = Some c \<and> p_state p = ZOMBIE) (procs s) of
       Some i \<Rightarrow> kbind (reap i s) (\<lambda>pid s. kbind (release LPtable s) (\<lambda>_ s. Ret pid s))
     | None \<Rightarrow>
         if \<not> (\<exists>p \<in> set (procs s). p_parent p = Some c) \<or> p_killed (procs s ! c) then
           kbind (release LPtable s) (\<lambda>_ s. Ret (-1) s)
         else sleep (ChProc c) LPtable s)"

definition wait :: "'x kmem_scheme \<Rightarrow> (int, 'x kmem_scheme) outcome" where
  "wait s = kbind (acquire LPtable s) (\<lambda>_ s. wait_rest s)"

text \<open>
  \<^verbatim>\<open>new_wait\<close> stores the times of the child at the three addresses and prints the times and the addresses.
\<close>

definition times_fmt :: bytes where
  "times_fmt = lit ''create = %d'' @ [NEWLINE] @ lit ''running = %d'' @ [NEWLINE] @ lit ''stop = %d'' @ [NEWLINE]"

definition new_wait_rest :: "u32 \<Rightarrow> u32 \<Rightarrow> u32 \<Rightarrow> 'x kmem_scheme \<Rightarrow> (int, 'x kmem_scheme) outcome" where
  "new_wait_rest create_time run_time stop_time s =
     kbind (cur s) (\<lambda>c s.
     case find_idx (\<lambda>p. p_parent p = Some c \<and> p_state p = ZOMBIE) (procs s) of
       Some i \<Rightarrow>
         kbind (reap i s) (\<lambda>pid s.
         let p = procs s ! i in
         kbind (ustore create_time (word_bytes (p_ctime p)) s) (\<lambda>_ s.
         kbind (ustore run_time (word_bytes (p_ttime p)) s) (\<lambda>_ s.
         kbind (ustore stop_time (word_bytes (p_etime p)) s) (\<lambda>_ s.
         kbind (cprintf times_fmt [ANum (p_ctime p), ANum (p_ttime p), ANum (p_etime p)] s) (\<lambda>_ s.
         kbind (cprintf times_fmt [ANum create_time, ANum run_time, ANum stop_time] s) (\<lambda>_ s.
         kbind (release LPtable s) (\<lambda>_ s. Ret pid s)))))))
     | None \<Rightarrow>
         if \<not> (\<exists>p \<in> set (procs s). p_parent p = Some c) \<or> p_killed (procs s ! c) then
           kbind (release LPtable s) (\<lambda>_ s. Ret (-1) s)
         else sleep (ChProc c) LPtable s)"

definition new_wait :: "u32 \<Rightarrow> u32 \<Rightarrow> u32 \<Rightarrow> 'x kmem_scheme \<Rightarrow> (int, 'x kmem_scheme) outcome" where
  "new_wait create_time run_time stop_time s =
     kbind (acquire LPtable s) (\<lambda>_ s. new_wait_rest create_time run_time stop_time s)"

section \<open>The scheduler\<close>

text \<open>
  The body of the scheduler's inner loop for one slot of the table, in the two parts before and after \<^verbatim>\<open>swtch\<close>: whether the process
  is switched to, and what happens when it comes back. The lock on the table goes with the processor to the process and
  back.
\<close>

definition scheduler_pick :: "nat \<Rightarrow> 'x kbase_scheme \<Rightarrow> (bool, 'x kbase_scheme) outcome" where
  "scheduler_pick i s =
     (if p_state (procs s ! i) \<noteq> RUNNABLE then Ret False s
      else
        kbind (switchuvm (Some i) (s\<lparr>cpus := (cpus s)[me s := Some i]\<rparr>)) (\<lambda>_ s.
        Ret True (upd_proc i (\<lambda>p. p\<lparr>p_state := RUNNING\<rparr>) s)))"

definition scheduler_back :: "'x kbase_scheme \<Rightarrow> 'x kbase_scheme" where
  "scheduler_back s = (switchkvm s)\<lparr>cpus := (cpus s)[me s := None]\<rparr>"

text \<open>
  \<^verbatim>\<open>forkret\<close>: its static variable \<^verbatim>\<open>first\<close> is a field of the state.
\<close>

record ker = ft +
  forkret_first :: bool

definition forkret :: "'x ker_scheme \<Rightarrow> (unit, 'x ker_scheme) outcome" where
  "forkret s =
     kbind (release LPtable s) (\<lambda>_ s.
     if forkret_first s then
       kbind (iinit ROOTDEV (s\<lparr>forkret_first := False\<rparr>)) (\<lambda>_ s. initlog ROOTDEV s)
     else Ret () s)"

end
