(* ===== verification/Exec.thy ===== *)
theory Exec
  imports Proc
begin

text \<open>
  Running a program: \<^verbatim>\<open>exec.c\<close> and \<^verbatim>\<open>loaduvm\<close> of \<^verbatim>\<open>vm.c\<close>. The headers of the ELF file are read as bytes and taken apart at the
  offsets of \<^verbatim>\<open>elf.h\<close>.
\<close>

section \<open>Headers\<close>

record elfhdr =
  elf_magic :: u32
  elf_entry :: u32
  elf_phoff :: u32
  elf_phnum :: u16

record proghdr =
  ph_type :: u32
  ph_off :: u32
  ph_vaddr :: u32
  ph_filesz :: u32
  ph_memsz :: u32

abbreviation (input) ELF_MAGIC :: u32 where "ELF_MAGIC \<equiv> 0x464C457F"
abbreviation (input) ELF_PROG_LOAD :: u32 where "ELF_PROG_LOAD \<equiv> 1"

definition get_elfhdr :: "bytes \<Rightarrow> elfhdr" where
  "get_elfhdr b = \<lparr>elf_magic = le32 0 b, elf_entry = le32 24 b, elf_phoff = le32 28 b, elf_phnum = le16 44 b\<rparr>"

definition get_proghdr :: "bytes \<Rightarrow> proghdr" where
  "get_proghdr b = \<lparr>ph_type = le32 0 b, ph_off = le32 4 b, ph_vaddr = le32 8 b, ph_filesz = le32 16 b, ph_memsz = le32 20 b\<rparr>"

section \<open>Loading\<close>

function loaduvm_loop :: "u32 \<Rightarrow> u32 \<Rightarrow> nat \<Rightarrow> u32 \<Rightarrow> u32 \<Rightarrow> nat \<Rightarrow> 'x ft_scheme \<Rightarrow> (int, 'x ft_scheme) outcome" where
  "loaduvm_loop pgdir addr ip off sz i s =
     (if i < unat sz then
        kbind (walkpgdir pgdir (addr + of_nat i) False s) (\<lambda>pte s.
        if pte = 0 then Panic ''loaduvm: address should exist''
        else
          let pa = PTE_ADDR (load32 (mem s) pte);
              n = (if unat sz - i < 4096 then unat sz - i else 4096)
          in kbind (readi ip (off + of_nat i) (of_nat n) s) (\<lambda>(r, d) s.
             let s = s\<lparr>mem := store_bytes (P2V pa) d (mem s)\<rparr>
             in if r \<noteq> int n then Ret (-1) s else loaduvm_loop pgdir addr ip off sz (i + 4096) s))
      else Ret 0 s)"
  by pat_completeness auto
termination
  by (relation "measure (\<lambda>(_, _, _, _, sz, i, _). unat sz - i)") auto

declare loaduvm_loop.simps [simp del]

definition loaduvm :: "u32 \<Rightarrow> u32 \<Rightarrow> nat \<Rightarrow> u32 \<Rightarrow> u32 \<Rightarrow> 'x ft_scheme \<Rightarrow> (int, 'x ft_scheme) outcome" where
  "loaduvm pgdir addr ip off sz s =
     (if addr mod PGSIZE \<noteq> 0 then Panic ''loaduvm: addr must be page aligned''
      else loaduvm_loop pgdir addr ip off sz 0 s)"

text \<open>
  The loop over the program headers, with \<open>n\<close> of them to go; \<^const>\<open>None\<close> is \<^verbatim>\<open>goto bad\<close>.
\<close>

fun exec_load :: "nat \<Rightarrow> u32 \<Rightarrow> nat \<Rightarrow> u32 \<Rightarrow> u32 \<Rightarrow> 'x ft_scheme \<Rightarrow> (u32 option, 'x ft_scheme) outcome" where
  "exec_load 0 off ip pgdir sz s = Ret (Some sz) s"
| "exec_load (Suc n) off ip pgdir sz s =
     kbind (readi ip off 32 s) (\<lambda>(r, d) s.
     let ph = get_proghdr d in
     if r \<noteq> 32 then Ret None s
     else if ph_type ph \<noteq> ELF_PROG_LOAD then exec_load n (off + 32) ip pgdir sz s
     else if ph_memsz ph < ph_filesz ph then Ret None s
     else if ph_vaddr ph + ph_memsz ph < ph_vaddr ph then Ret None s
     else
       kbind (allocuvm pgdir sz (ph_vaddr ph + ph_memsz ph) s) (\<lambda>sz s.
       if sz = 0 then Ret None s
       else if ph_vaddr ph mod PGSIZE \<noteq> 0 then Ret None s
       else
         kbind (loaduvm pgdir (ph_vaddr ph) ip (ph_off ph) (ph_filesz ph) s) (\<lambda>r s.
         if r < 0 then Ret None s else exec_load n (off + 32) ip pgdir sz s)))"

section \<open>The stack\<close>

text \<open>
  Pushing the argument strings: the stack pointer and the addresses of the strings, or \<^const>\<open>None\<close> for \<^verbatim>\<open>goto bad\<close>.
\<close>

fun exec_args :: "nat \<Rightarrow> bytes list \<Rightarrow> u32 \<Rightarrow> u32 \<Rightarrow> 'x kmem_scheme \<Rightarrow> ((u32 \<times> u32 list) option, 'x kmem_scheme) outcome"
where
  "exec_args argc [] pgdir sp s = Ret (Some (sp, [])) s"
| "exec_args argc (arg # argv) pgdir sp s =
     (if argc \<ge> MAXARG then Ret None s
      else
        let sp = (sp - (of_nat (length arg) + 1)) AND NOT 3 in
        kbind (copyout pgdir sp (arg @ [0]) s) (\<lambda>r s.
        if r < 0 then Ret None s
        else kbind (exec_args (Suc argc) argv pgdir sp s) (\<lambda>r s.
             Ret (map_option (\<lambda>(sp', as). (sp', sp # as)) r) s)))"

definition exec_stack :: "u32 \<Rightarrow> bytes list \<Rightarrow> u32 \<Rightarrow> 'x kmem_scheme \<Rightarrow> (u32 option, 'x kmem_scheme) outcome" where
  "exec_stack pgdir argv sp s =
     kbind (exec_args 0 argv pgdir sp s) (\<lambda>r s.
     case r of None \<Rightarrow> Ret None s
     | Some (sp, as) \<Rightarrow>
         let argc = of_nat (length as);
             ustack = [0xFFFFFFFF, argc, sp - (argc + 1) * 4] @ as @ [0];
             sp = sp - (3 + argc + 1) * 4
         in kbind (copyout pgdir sp (concat (map word_bytes ustack)) s) (\<lambda>r s.
            Ret (if r < 0 then None else Some sp) s))"

section \<open>Exec\<close>

definition last_elem :: "bytes \<Rightarrow> bytes" where
  "last_elem path = rev (takeWhile (\<lambda>c. c \<noteq> SLASH) (rev path))"

text \<open>The label \<^verbatim>\<open>bad\<close>.\<close>

definition exec_bad :: "u32 \<Rightarrow> nat option \<Rightarrow> 'x fs_scheme \<Rightarrow> (int, 'x fs_scheme) outcome" where
  "exec_bad pgdir ip s =
     kbind (if pgdir \<noteq> 0 then freevm pgdir s else Ret () s) (\<lambda>_ s.
     kbind (case ip of None \<Rightarrow> Ret () s
            | Some ip \<Rightarrow> kbind (iunlockput ip s) (\<lambda>_ s. end_op s)) (\<lambda>_ s.
     Ret (-1) s))"

text \<open>Committing to the new image.\<close>

definition exec_commit :: "nat \<Rightarrow> bytes \<Rightarrow> u32 \<Rightarrow> u32 \<Rightarrow> u32 \<Rightarrow> u32 \<Rightarrow> 'x kmem_scheme \<Rightarrow> (int, 'x kmem_scheme) outcome" where
  "exec_commit c path pgdir sz entry sp s =
     (case safestrcpy (last_elem path @ [0]) 16 of None \<Rightarrow> undef
      | Some w \<Rightarrow>
          let oldpgdir = p_pgdir (procs s ! c);
              s = upd_proc c (\<lambda>p. p\<lparr>p_name := blit 0 w (p_name p), p_pgdir := pgdir, p_sz := sz,
                                    p_tf := (p_tf p)\<lparr>tf_eip := entry, tf_esp := sp\<rparr>\<rparr>) s
          in kbind (switchuvm (Some c) s) (\<lambda>_ s.
             kbind (freevm oldpgdir s) (\<lambda>_ s. Ret 0 s)))"

definition exec :: "bytes \<Rightarrow> bytes list \<Rightarrow> 'x ft_scheme \<Rightarrow> (int, 'x ft_scheme) outcome" where
  "exec path argv s =
     kbind (cur s) (\<lambda>c s.
     kbind (begin_op s) (\<lambda>_ s.
     kbind (namei path s) (\<lambda>ipo s.
     case ipo of
       None \<Rightarrow>
         kbind (end_op s) (\<lambda>_ s.
         kbind (cprintf (lit ''exec: fail'' @ [NEWLINE]) [] s) (\<lambda>_ s. Ret (-1) s))
     | Some ip \<Rightarrow>
         kbind (ilock (Some ip) s) (\<lambda>_ s.
         kbind (readi ip 0 52 s) (\<lambda>(r, d) s.
         let elf = get_elfhdr d in
         if r \<noteq> 52 then exec_bad 0 (Some ip) s
         else if elf_magic elf \<noteq> ELF_MAGIC then exec_bad 0 (Some ip) s
         else
           kbind (setupkvm s) (\<lambda>pgdir s.
           if pgdir = 0 then exec_bad 0 (Some ip) s
           else
             kbind (exec_load (unat (elf_phnum elf)) (elf_phoff elf) ip pgdir 0 s) (\<lambda>r s.
             case r of None \<Rightarrow> exec_bad pgdir (Some ip) s
             | Some sz \<Rightarrow>
                 kbind (iunlockput ip s) (\<lambda>_ s.
                 kbind (end_op s) (\<lambda>_ s.
                 let sz = PGROUNDUP sz in
                 kbind (allocuvm pgdir sz (sz + 2 * PGSIZE) s) (\<lambda>sz s.
                 if sz = 0 then exec_bad pgdir None s
                 else
                   kbind (clearpteu pgdir (sz - 2 * PGSIZE) s) (\<lambda>_ s.
                   kbind (exec_stack pgdir argv sz s) (\<lambda>r s.
                   case r of None \<Rightarrow> exec_bad pgdir None s
                   | Some sp \<Rightarrow> exec_commit c path pgdir sz (elf_entry elf) sp s))))))))))))"

end
