(* ===== verification/Sysfile.thy ===== *)
theory Sysfile
  imports Exec
begin

text \<open>
  The system calls on files, \<^verbatim>\<open>sysfile.c\<close>. The result is what the call returns; -1 is an error.
\<close>

section \<open>Descriptors\<close>

abbreviation (input) O_RDONLY :: u32 where "O_RDONLY \<equiv> 0"
abbreviation (input) O_WRONLY :: u32 where "O_WRONLY \<equiv> 1"
abbreviation (input) O_RDWR :: u32 where "O_RDWR \<equiv> 2"
abbreviation (input) O_CREATE :: u32 where "O_CREATE \<equiv> 0x200"

definition argfd :: "nat \<Rightarrow> 'x kmem_scheme \<Rightarrow> ((nat \<times> nat) option, 'x kmem_scheme) outcome" where
  "argfd n s =
     kbind (argint n s) (\<lambda>r s.
     case r of None \<Rightarrow> Ret None s
     | Some v \<Rightarrow>
         let fd = sint v in
         if fd < 0 \<or> fd \<ge> int NOFILE then Ret None s
         else kbind (cur s) (\<lambda>p s.
              case p_ofile (procs s ! p) ! nat fd of None \<Rightarrow> Ret None s | Some f \<Rightarrow> Ret (Some (nat fd, f)) s))"

definition fdalloc :: "nat \<Rightarrow> 'x kbase_scheme \<Rightarrow> (nat option, 'x kbase_scheme) outcome" where
  "fdalloc f s =
     kbind (cur s) (\<lambda>p s.
     case find_idx (\<lambda>x. x = None) (p_ofile (procs s ! p)) of
       Some fd \<Rightarrow> Ret (Some fd) (upd_proc p (\<lambda>q. q\<lparr>p_ofile := (p_ofile q)[fd := Some f]\<rparr>) s)
     | None \<Rightarrow> Ret None s)"

definition set_ofile :: "nat \<Rightarrow> nat option \<Rightarrow> 'x kbase_scheme \<Rightarrow> (unit, 'x kbase_scheme) outcome" where
  "set_ofile fd fo s = kbind (cur s) (\<lambda>p s. Ret () (upd_proc p (\<lambda>q. q\<lparr>p_ofile := (p_ofile q)[fd := fo]\<rparr>) s))"

definition sys_dup :: "'x ft_scheme \<Rightarrow> (int, 'x ft_scheme) outcome" where
  "sys_dup s =
     kbind (argfd 0 s) (\<lambda>r s.
     case r of None \<Rightarrow> Ret (-1) s
     | Some (_, f) \<Rightarrow>
         kbind (fdalloc f s) (\<lambda>r s.
         case r of None \<Rightarrow> Ret (-1) s
         | Some fd \<Rightarrow> kbind (filedup f s) (\<lambda>_ s. Ret (int fd) s)))"

text \<open>The bytes that \<^verbatim>\<open>fileread\<close> delivers are stored at the user's pointer.\<close>

definition sys_read :: "'x ft_scheme \<Rightarrow> (int, 'x ft_scheme) outcome" where
  "sys_read s =
     kbind (argfd 0 s) (\<lambda>r s.
     case r of None \<Rightarrow> Ret (-1) s
     | Some (_, f) \<Rightarrow>
         kbind (argint 2 s) (\<lambda>r s.
         case r of None \<Rightarrow> Ret (-1) s
         | Some n \<Rightarrow>
             kbind (argptr 1 (sint n) s) (\<lambda>r s.
             case r of None \<Rightarrow> Ret (-1) s
             | Some p \<Rightarrow>
                 kbind (fileread f (sint n) s) (\<lambda>(r, d) s.
                 kbind (ustore p d s) (\<lambda>_ s. Ret r s)))))"

definition sys_write :: "'x ft_scheme \<Rightarrow> (int, 'x ft_scheme) outcome" where
  "sys_write s =
     kbind (argfd 0 s) (\<lambda>r s.
     case r of None \<Rightarrow> Ret (-1) s
     | Some (_, f) \<Rightarrow>
         kbind (argint 2 s) (\<lambda>r s.
         case r of None \<Rightarrow> Ret (-1) s
         | Some n \<Rightarrow>
             kbind (argptr 1 (sint n) s) (\<lambda>r s.
             case r of None \<Rightarrow> Ret (-1) s
             | Some p \<Rightarrow> kbind (uload (nat (sint n)) p s) (\<lambda>d s. filewrite f d s))))"

definition sys_close :: "'x ft_scheme \<Rightarrow> (int, 'x ft_scheme) outcome" where
  "sys_close s =
     kbind (argfd 0 s) (\<lambda>r s.
     case r of None \<Rightarrow> Ret (-1) s
     | Some (fd, f) \<Rightarrow>
         kbind (set_ofile fd None s) (\<lambda>_ s. kbind (fileclose f s) (\<lambda>_ s. Ret 0 s)))"

text \<open>\<^verbatim>\<open>struct stat\<close> in memory: 20 bytes, with two bytes of padding after \<^verbatim>\<open>type\<close> and after \<^verbatim>\<open>nlink\<close>.\<close>

definition half_bytes :: "u16 \<Rightarrow> bytes" where
  "half_bytes v = [ucast v, ucast (drop_bit 8 v)]"

definition store_stat :: "u32 \<Rightarrow> stat \<Rightarrow> 'x kmem_scheme \<Rightarrow> (unit, 'x kmem_scheme) outcome" where
  "store_stat p st s =
     kbind (ustore (p + 4) (word_bytes (st_dev st)) s) (\<lambda>_ s.
     kbind (ustore (p + 8) (word_bytes (st_ino st)) s) (\<lambda>_ s.
     kbind (ustore p (half_bytes (st_type st)) s) (\<lambda>_ s.
     kbind (ustore (p + 12) (half_bytes (st_nlink st)) s) (\<lambda>_ s.
     ustore (p + 16) (word_bytes (st_size st)) s))))"

definition sys_fstat :: "'x ft_scheme \<Rightarrow> (int, 'x ft_scheme) outcome" where
  "sys_fstat s =
     kbind (argfd 0 s) (\<lambda>r s.
     case r of None \<Rightarrow> Ret (-1) s
     | Some (_, f) \<Rightarrow>
         kbind (argptr 1 20 s) (\<lambda>r s.
         case r of None \<Rightarrow> Ret (-1) s
         | Some p \<Rightarrow>
             kbind (filestat f s) (\<lambda>r s.
             case r of None \<Rightarrow> Ret (-1) s
             | Some st \<Rightarrow> kbind (store_stat p st s) (\<lambda>_ s. Ret 0 s))))"

section \<open>Links\<close>

text \<open>The label \<^verbatim>\<open>bad\<close> of \<^verbatim>\<open>sys_link\<close>.\<close>

definition link_bad :: "nat \<Rightarrow> 'x fs_scheme \<Rightarrow> (int, 'x fs_scheme) outcome" where
  "link_bad ip s =
     kbind (ilock (Some ip) s) (\<lambda>_ s.
     kbind (iupdate ip (upd_inode ip (\<lambda>x. x\<lparr>i_nlink := i_nlink x - 1\<rparr>) s)) (\<lambda>_ s.
     kbind (iunlockput ip s) (\<lambda>_ s.
     kbind (end_op s) (\<lambda>_ s. Ret (-1) s))))"

definition link_to :: "bytes \<Rightarrow> bytes \<Rightarrow> 'x fs_scheme \<Rightarrow> (int, 'x fs_scheme) outcome" where
  "link_to old new s =
     kbind (begin_op s) (\<lambda>_ s.
     kbind (namei old s) (\<lambda>r s.
     case r of None \<Rightarrow> kbind (end_op s) (\<lambda>_ s. Ret (-1) s)
     | Some ip \<Rightarrow>
         kbind (ilock (Some ip) s) (\<lambda>_ s.
         if i_type (inodes s ! ip) = T_DIR then
           kbind (iunlockput ip s) (\<lambda>_ s. kbind (end_op s) (\<lambda>_ s. Ret (-1) s))
         else
           kbind (iupdate ip (upd_inode ip (\<lambda>x. x\<lparr>i_nlink := i_nlink x + 1\<rparr>) s)) (\<lambda>_ s.
           kbind (iunlock (Some ip) s) (\<lambda>_ s.
           kbind (nameiparent new s) (\<lambda>r s.
           case r of None \<Rightarrow> link_bad ip s
           | Some (dp, name) \<Rightarrow>
               kbind (ilock (Some dp) s) (\<lambda>_ s.
               kbind (if i_dev (inodes s ! dp) \<noteq> i_dev (inodes s ! ip) then Ret (-1) s
                      else dirlink dp name (i_inum (inodes s ! ip)) s) (\<lambda>r s.
               if r < 0 then kbind (iunlockput dp s) (\<lambda>_ s. link_bad ip s)
               else
                 kbind (iunlockput dp s) (\<lambda>_ s.
                 kbind (iput ip s) (\<lambda>_ s.
                 kbind (end_op s) (\<lambda>_ s. Ret 0 s)))))))))))"

definition sys_link :: "'x fs_scheme \<Rightarrow> (int, 'x fs_scheme) outcome" where
  "sys_link s =
     kbind (argstr 0 s) (\<lambda>r s.
     case r of None \<Rightarrow> Ret (-1) s
     | Some old \<Rightarrow>
         kbind (argstr 1 s) (\<lambda>r s.
         case r of None \<Rightarrow> Ret (-1) s
         | Some new \<Rightarrow> link_to old new s))"

text \<open>The loop of \<^verbatim>\<open>isdirempty\<close> starts at the third entry; the result is an entry in use.\<close>

definition isdirempty_try :: "nat \<Rightarrow> nat \<Rightarrow> 'x fs_scheme \<Rightarrow> (unit option, 'x fs_scheme) outcome" where
  "isdirempty_try dp off s =
     kbind (readi_ino dp (of_nat off) 16 s) (\<lambda>(r, de) s.
     if r \<noteq> 16 then Panic ''isdirempty: readi''
     else Ret (if de_inum de \<noteq> 0 then Some () else None) s)"

definition isdirempty :: "nat \<Rightarrow> 'x fs_scheme \<Rightarrow> (bool, 'x fs_scheme) outcome" where
  "isdirempty dp s =
     kbind (kfind (drop 2 (dirents (i_size (inodes s ! dp)))) (isdirempty_try dp) s) (\<lambda>r s. Ret (r = None) s)"

definition unlink_bad :: "nat \<Rightarrow> 'x fs_scheme \<Rightarrow> (int, 'x fs_scheme) outcome" where
  "unlink_bad dp s = kbind (iunlockput dp s) (\<lambda>_ s. kbind (end_op s) (\<lambda>_ s. Ret (-1) s))"

definition unlink_path :: "bytes \<Rightarrow> 'x fs_scheme \<Rightarrow> (int, 'x fs_scheme) outcome" where
  "unlink_path path s =
     kbind (begin_op s) (\<lambda>_ s.
     kbind (nameiparent path s) (\<lambda>r s.
     case r of None \<Rightarrow> kbind (end_op s) (\<lambda>_ s. Ret (-1) s)
     | Some (dp, name) \<Rightarrow>
         kbind (ilock (Some dp) s) (\<lambda>_ s.
         case (namecmp name (lit ''.'' @ [0]), namecmp name (lit ''..'' @ [0])) of
           (Some d1, Some d2) \<Rightarrow>
             if d1 = 0 \<or> d2 = 0 then unlink_bad dp s
             else
               kbind (dirlookup dp name s) (\<lambda>r s.
               case r of None \<Rightarrow> unlink_bad dp s
               | Some (ip, off) \<Rightarrow>
                   kbind (ilock (Some ip) s) (\<lambda>_ s.
                   if sint (i_nlink (inodes s ! ip)) < 1 then Panic ''unlink: nlink < 1''
                   else
                     kbind (if i_type (inodes s ! ip) = T_DIR then isdirempty ip s else Ret True s) (\<lambda>empty s.
                     if \<not> empty then kbind (iunlockput ip s) (\<lambda>_ s. unlink_bad dp s)
                     else
                       kbind (writei_ino dp (replicate 16 0) off s) (\<lambda>w s.
                       if w \<noteq> 16 then Panic ''unlink: writei''
                       else
                         kbind (if i_type (inodes s ! ip) = T_DIR
                                then iupdate dp (upd_inode dp (\<lambda>x. x\<lparr>i_nlink := i_nlink x - 1\<rparr>) s)
                                else Ret () s) (\<lambda>_ s.
                         kbind (iunlockput dp s) (\<lambda>_ s.
                         kbind (iupdate ip (upd_inode ip (\<lambda>x. x\<lparr>i_nlink := i_nlink x - 1\<rparr>) s)) (\<lambda>_ s.
                         kbind (iunlockput ip s) (\<lambda>_ s.
                         kbind (end_op s) (\<lambda>_ s. Ret 0 s)))))))))
         | _ \<Rightarrow> undef)))"

definition sys_unlink :: "'x fs_scheme \<Rightarrow> (int, 'x fs_scheme) outcome" where
  "sys_unlink s =
     kbind (argstr 0 s) (\<lambda>r s. case r of None \<Rightarrow> Ret (-1) s | Some path \<Rightarrow> unlink_path path s)"

section \<open>Creating and opening\<close>

text \<open>\<^verbatim>\<open>create\<close> returns a locked inode.\<close>

definition create :: "bytes \<Rightarrow> u16 \<Rightarrow> u16 \<Rightarrow> u16 \<Rightarrow> 'x fs_scheme \<Rightarrow> (nat option, 'x fs_scheme) outcome" where
  "create path type major minor s =
     kbind (nameiparent path s) (\<lambda>r s.
     case r of None \<Rightarrow> Ret None s
     | Some (dp, name) \<Rightarrow>
         kbind (ilock (Some dp) s) (\<lambda>_ s.
         kbind (dirlookup dp name s) (\<lambda>r s.
         case r of
           Some (ip, _) \<Rightarrow>
             kbind (iunlockput dp s) (\<lambda>_ s.
             kbind (ilock (Some ip) s) (\<lambda>_ s.
             if type = T_FILE \<and> i_type (inodes s ! ip) = T_FILE then Ret (Some ip) s
             else kbind (iunlockput ip s) (\<lambda>_ s. Ret None s)))
         | None \<Rightarrow>
             kbind (ialloc (i_dev (inodes s ! dp)) type s) (\<lambda>ip s.
             kbind (ilock (Some ip) s) (\<lambda>_ s.
             kbind (iupdate ip (upd_inode ip (\<lambda>x. x\<lparr>i_major := major, i_minor := minor, i_nlink := 1\<rparr>) s)) (\<lambda>_ s.
             kbind (if type = T_DIR then
                      kbind (iupdate dp (upd_inode dp (\<lambda>x. x\<lparr>i_nlink := i_nlink x + 1\<rparr>) s)) (\<lambda>_ s.
                      kbind (dirlink ip (lit ''.'' @ [0]) (i_inum (inodes s ! ip)) s) (\<lambda>r s.
                      if r < 0 then Panic ''create dots''
                      else
                        kbind (dirlink ip (lit ''..'' @ [0]) (i_inum (inodes s ! dp)) s) (\<lambda>r s.
                        if r < 0 then Panic ''create dots'' else Ret () s)))
                    else Ret () s) (\<lambda>_ s.
             kbind (dirlink dp name (i_inum (inodes s ! ip)) s) (\<lambda>r s.
             if r < 0 then Panic ''create: dirlink''
             else kbind (iunlockput dp s) (\<lambda>_ s. Ret (Some ip) s)))))))))"

text \<open>The part of \<^verbatim>\<open>sys_open\<close> after the inode is found and locked.\<close>

definition open_inode :: "nat \<Rightarrow> u32 \<Rightarrow> 'x ft_scheme \<Rightarrow> (int, 'x ft_scheme) outcome" where
  "open_inode ip omode s =
     kbind (filealloc s) (\<lambda>fo s.
     case fo of
       None \<Rightarrow> kbind (iunlockput ip s) (\<lambda>_ s. kbind (end_op s) (\<lambda>_ s. Ret (-1) s))
     | Some f \<Rightarrow>
         kbind (fdalloc f s) (\<lambda>r s.
         case r of
           None \<Rightarrow>
             kbind (fileclose f s) (\<lambda>_ s.
             kbind (iunlockput ip s) (\<lambda>_ s. kbind (end_op s) (\<lambda>_ s. Ret (-1) s)))
         | Some fd \<Rightarrow>
             kbind (iunlock (Some ip) s) (\<lambda>_ s.
             kbind (end_op s) (\<lambda>_ s.
             Ret (int fd) (upd_file f (\<lambda>x. x\<lparr>f_type := FD_INODE, f_ip := Some ip, f_off := 0,
               f_readable := (omode AND O_WRONLY = 0),
               f_writable := (omode AND O_WRONLY \<noteq> 0 \<or> omode AND O_RDWR \<noteq> 0)\<rparr>) s)))))"

definition open_path :: "bytes \<Rightarrow> u32 \<Rightarrow> 'x ft_scheme \<Rightarrow> (int, 'x ft_scheme) outcome" where
  "open_path path omode s =
     kbind (begin_op s) (\<lambda>_ s.
     if omode AND O_CREATE \<noteq> 0 then
       kbind (create path T_FILE 0 0 s) (\<lambda>r s.
       case r of None \<Rightarrow> kbind (end_op s) (\<lambda>_ s. Ret (-1) s) | Some ip \<Rightarrow> open_inode ip omode s)
     else
       kbind (namei path s) (\<lambda>r s.
       case r of None \<Rightarrow> kbind (end_op s) (\<lambda>_ s. Ret (-1) s)
       | Some ip \<Rightarrow>
           kbind (ilock (Some ip) s) (\<lambda>_ s.
           if i_type (inodes s ! ip) = T_DIR \<and> omode \<noteq> O_RDONLY then
             kbind (iunlockput ip s) (\<lambda>_ s. kbind (end_op s) (\<lambda>_ s. Ret (-1) s))
           else open_inode ip omode s)))"

definition sys_open :: "'x ft_scheme \<Rightarrow> (int, 'x ft_scheme) outcome" where
  "sys_open s =
     kbind (argstr 0 s) (\<lambda>r s.
     case r of None \<Rightarrow> Ret (-1) s
     | Some path \<Rightarrow>
         kbind (argint 1 s) (\<lambda>r s.
         case r of None \<Rightarrow> Ret (-1) s | Some omode \<Rightarrow> open_path path omode s))"

text \<open>The common end of \<^verbatim>\<open>sys_mkdir\<close> and \<^verbatim>\<open>sys_mknod\<close>, with the result of \<^verbatim>\<open>create\<close>.\<close>

definition made :: "nat option \<Rightarrow> 'x fs_scheme \<Rightarrow> (int, 'x fs_scheme) outcome" where
  "made r s =
     (case r of None \<Rightarrow> kbind (end_op s) (\<lambda>_ s. Ret (-1) s)
      | Some ip \<Rightarrow> kbind (iunlockput ip s) (\<lambda>_ s. kbind (end_op s) (\<lambda>_ s. Ret 0 s)))"

definition sys_mkdir :: "'x fs_scheme \<Rightarrow> (int, 'x fs_scheme) outcome" where
  "sys_mkdir s =
     kbind (begin_op s) (\<lambda>_ s.
     kbind (argstr 0 s) (\<lambda>r s.
     kbind (case r of None \<Rightarrow> Ret None s | Some path \<Rightarrow> create path T_DIR 0 0 s) (\<lambda>r s.
     made r s)))"

definition sys_mknod :: "'x fs_scheme \<Rightarrow> (int, 'x fs_scheme) outcome" where
  "sys_mknod s =
     kbind (begin_op s) (\<lambda>_ s.
     kbind (argstr 0 s) (\<lambda>r s.
     case r of None \<Rightarrow> made None s
     | Some path \<Rightarrow>
         kbind (argint 1 s) (\<lambda>r s.
         case r of None \<Rightarrow> made None s
         | Some major \<Rightarrow>
             kbind (argint 2 s) (\<lambda>r s.
             case r of None \<Rightarrow> made None s
             | Some minor \<Rightarrow>
                 kbind (create path T_DEV (ucast major) (ucast minor) s) (\<lambda>r s. made r s)))))"

definition chdir_path :: "bytes option \<Rightarrow> 'x fs_scheme \<Rightarrow> (int, 'x fs_scheme) outcome" where
  "chdir_path po s =
     kbind (cur s) (\<lambda>c s.
     kbind (case po of None \<Rightarrow> Ret None s | Some path \<Rightarrow> namei path s) (\<lambda>r s.
     case r of None \<Rightarrow> kbind (end_op s) (\<lambda>_ s. Ret (-1) s)
     | Some ip \<Rightarrow>
         kbind (ilock (Some ip) s) (\<lambda>_ s.
         if i_type (inodes s ! ip) \<noteq> T_DIR then
           kbind (iunlockput ip s) (\<lambda>_ s. kbind (end_op s) (\<lambda>_ s. Ret (-1) s))
         else
           kbind (iunlock (Some ip) s) (\<lambda>_ s.
           kbind (case p_cwd (procs s ! c) of None \<Rightarrow> Panic ''trap'' | Some old \<Rightarrow> iput old s) (\<lambda>_ s.
           kbind (end_op s) (\<lambda>_ s.
           Ret 0 (upd_proc c (\<lambda>p. p\<lparr>p_cwd := Some ip\<rparr>) s)))))))"

definition sys_chdir :: "'x fs_scheme \<Rightarrow> (int, 'x fs_scheme) outcome" where
  "sys_chdir s = kbind (begin_op s) (\<lambda>_ s. kbind (argstr 0 s) (\<lambda>r s. chdir_path r s))"

section \<open>Running a program and making a pipe\<close>

text \<open>
  The loop of \<^verbatim>\<open>sys_exec\<close>, with \<open>n\<close> entries of \<^verbatim>\<open>argv\<close> left; \<^const>\<open>None\<close> is -1.
\<close>

fun fetch_argv :: "nat \<Rightarrow> u32 \<Rightarrow> 'x kmem_scheme \<Rightarrow> (bytes list option, 'x kmem_scheme) outcome" where
  "fetch_argv 0 uargv s = Ret None s"
| "fetch_argv (Suc n) uargv s =
     kbind (fetchint uargv s) (\<lambda>r s.
     case r of None \<Rightarrow> Ret None s
     | Some uarg \<Rightarrow>
         if uarg = 0 then Ret (Some []) s
         else
           kbind (fetchstr uarg s) (\<lambda>r s.
           case r of None \<Rightarrow> Ret None s
           | Some arg \<Rightarrow> kbind (fetch_argv n (uargv + 4) s) (\<lambda>r s. Ret (map_option ((#) arg) r) s)))"

definition sys_exec :: "'x ft_scheme \<Rightarrow> (int, 'x ft_scheme) outcome" where
  "sys_exec s =
     kbind (argstr 0 s) (\<lambda>r s.
     case r of None \<Rightarrow> Ret (-1) s
     | Some path \<Rightarrow>
         kbind (argint 1 s) (\<lambda>r s.
         case r of None \<Rightarrow> Ret (-1) s
         | Some uargv \<Rightarrow>
             kbind (fetch_argv MAXARG uargv s) (\<lambda>r s.
             case r of None \<Rightarrow> Ret (-1) s | Some argv \<Rightarrow> exec path argv s)))"

definition sys_pipe :: "'x ft_scheme \<Rightarrow> (int, 'x ft_scheme) outcome" where
  "sys_pipe s =
     kbind (argptr 0 8 s) (\<lambda>r s.
     case r of None \<Rightarrow> Ret (-1) s
     | Some fd \<Rightarrow>
         kbind (pipealloc s) (\<lambda>r s.
         case r of None \<Rightarrow> Ret (-1) s
         | Some (rfile, wfile) \<Rightarrow>
             kbind (fdalloc rfile s) (\<lambda>r0 s.
             kbind (case r0 of None \<Rightarrow> Ret None s | Some _ \<Rightarrow> fdalloc wfile s) (\<lambda>r1 s.
             case (r0, r1) of
               (Some fd0, Some fd1) \<Rightarrow>
                 kbind (ustore fd (word_bytes (of_nat fd0)) s) (\<lambda>_ s.
                 kbind (ustore (fd + 4) (word_bytes (of_nat fd1)) s) (\<lambda>_ s. Ret 0 s))
             | _ \<Rightarrow>
                 kbind (case r0 of Some fd0 \<Rightarrow> set_ofile fd0 None s | None \<Rightarrow> Ret () s) (\<lambda>_ s.
                 kbind (fileclose rfile s) (\<lambda>_ s.
                 kbind (fileclose wfile s) (\<lambda>_ s. Ret (-1) s)))))))"

end
