(* ===== verification/Uniq.thy ===== *)
theory Uniq
  imports CString Layout Cprintf
begin

text \<open>
  The command \<^verbatim>\<open>uniq\<close>, which the repository has twice with the same body: in the kernel (\<^verbatim>\<open>sys_uniq_kernel\<close> of \<^verbatim>\<open>sysproc.c\<close>)
  and for users (\<^verbatim>\<open>uniq_user\<close> of \<^verbatim>\<open>ulib.c\<close>). The body is a definition with the printing operations as arguments, and the
  proof that it computes the reference is done once, in a locale for such operations.
\<close>

section \<open>Lines of a text\<close>

text \<open>The lines of a text, without their newlines; the last one need not end in a newline.\<close>

function lines_of :: "bytes \<Rightarrow> bytes list" where
  "lines_of c = (if c = [] then [] else
     takeWhile (\<lambda>x. x \<noteq> NEWLINE) c # lines_of (drop (Suc (length (takeWhile (\<lambda>x. x \<noteq> NEWLINE) c))) c))"
  by auto
termination by (relation "measure length") auto

declare lines_of.simps [simp del]

lemma lines_of_Nil [simp]: "lines_of [] = []"
  by (simp add: lines_of.simps)

lemma lines_of_drop:
  assumes "i < length c" "l = takeWhile (\<lambda>x. x \<noteq> NEWLINE) (drop i c)"
  shows "lines_of (drop i c) = l # lines_of (drop (i + length l + 1) c)"
  using assms by (subst lines_of.simps) (simp add: add.commute)

section \<open>The variables and the body of the loop\<close>

abbreviation (input) BUF_SIZE :: nat where "BUF_SIZE \<equiv> 256"

text \<open>\<^verbatim>\<open>strcpy\<close> into an array.\<close>

definition strcpy_to :: "bytes \<Rightarrow> bytes \<Rightarrow> bytes option" where
  "strcpy_to dst src =
     (case strcpy src of None \<Rightarrow> None
      | Some w \<Rightarrow> if length w \<le> length dst then Some (blit 0 w dst) else None)"

text \<open>The comparison of two strings for equality.\<close>

definition str_eq :: "bytes \<Rightarrow> bytes \<Rightarrow> bool option" where
  "str_eq p q = map_option (\<lambda>r. r = 0) (strcmp p q)"

text \<open>The local variables of \<^verbatim>\<open>sys_uniq_kernel\<close> and \<^verbatim>\<open>uniq_user\<close> that the loops change, and the flags.\<close>

record uniq_vars =
  current_line :: bytes
  previous_line :: bytes
  repeated_line :: bytes
  lineCount :: int
  isRepeated :: bool

record uniq_flags =
  isCountFlag :: bool
  isCaseInsensitive :: bool
  isDelete :: bool
  isNoFlag :: bool
  isStdin :: bool

definition uniq_init :: uniq_vars where
  "uniq_init = \<lparr>current_line = replicate BUF_SIZE 0, previous_line = replicate BUF_SIZE 0,
     repeated_line = replicate 256 0, lineCount = 1, isRepeated = False\<rparr>"

definition copy_prev :: "uniq_vars \<Rightarrow> 's \<Rightarrow> (uniq_vars, 's) outcome" where
  "copy_prev u s = (case strcpy_to (previous_line u) (current_line u) of None \<Rightarrow> undef
     | Some p \<Rightarrow> Ret (u\<lparr>previous_line := p\<rparr>) s)"

definition count_line :: "uniq_vars \<Rightarrow> 's \<Rightarrow> (uniq_vars, 's) outcome" where
  "count_line u s = (if lineCount u + 1 < 2 ^ 31 then Ret (u\<lparr>lineCount := lineCount u + 1\<rparr>) s else undef)"

text \<open>The comparison of the current line with the previous one, in lower case with \<^verbatim>\<open>-i\<close>.\<close>

definition uniq_same :: "bool \<Rightarrow> bytes \<Rightarrow> bytes \<Rightarrow> bool option" where
  "uniq_same ci cl pl =
     (if ci then
        (case (Option.bind (strcpy cl) convertToLowercase, Option.bind (strcpy pl) convertToLowercase) of
           (Some c, Some p) \<Rightarrow> str_eq c p
         | _ \<Rightarrow> None)
      else str_eq cl pl)"

text \<open>The body of the loop over the lines, with the operations that print a line and a line with its count.\<close>

definition uniq_line ::
    "(bytes \<Rightarrow> 's \<Rightarrow> (unit, 's) outcome) \<Rightarrow> (int \<Rightarrow> bytes \<Rightarrow> 's \<Rightarrow> (unit, 's) outcome) \<Rightarrow>
      uniq_flags \<Rightarrow> uniq_vars \<Rightarrow> 's \<Rightarrow> (uniq_vars, 's) outcome" where
  "uniq_line put putcount fl u s =
     (case uniq_same (isCaseInsensitive fl) (current_line u) (previous_line u) of None \<Rightarrow> undef
      | Some False \<Rightarrow>
          kbind (case str_eq (previous_line u) [0] of None \<Rightarrow> undef
             | Some True \<Rightarrow> Ret (u\<lparr>lineCount := 1\<rparr>) s
             | Some False \<Rightarrow>
                 if isCountFlag fl then
                   kbind (putcount (lineCount u) (previous_line u) s) (\<lambda>_ s. Ret u s)
                 else if isNoFlag fl \<and> lineCount u > 1 then
                   kbind (put (previous_line u) s) (\<lambda>_ s. Ret u s)
                 else if isDelete fl then Ret (u\<lparr>isRepeated := False\<rparr>) s
                 else kbind (put (previous_line u) s) (\<lambda>_ s. copy_prev u s)) (\<lambda>u s.
          kbind (copy_prev u s) (\<lambda>u s. Ret (u\<lparr>lineCount := 1\<rparr>) s))
      | Some True \<Rightarrow>
          kbind (if isDelete fl \<and> \<not> isRepeated u then
                   (case strcpy_to (repeated_line u) (current_line u) of None \<Rightarrow> undef
                    | Some r \<Rightarrow>
                        kbind (put (previous_line u) s) (\<lambda>_ s.
                        Ret (u\<lparr>repeated_line := r, isRepeated := True\<rparr>) s))
                 else Ret u s) (\<lambda>u s. count_line u s))"

text \<open>What is printed after the last line.\<close>

definition uniq_last ::
    "(bytes \<Rightarrow> 's \<Rightarrow> (unit, 's) outcome) \<Rightarrow> (int \<Rightarrow> bytes \<Rightarrow> 's \<Rightarrow> (unit, 's) outcome) \<Rightarrow> ('s \<Rightarrow> (unit, 's) outcome) \<Rightarrow>
      uniq_flags \<Rightarrow> uniq_vars \<Rightarrow> 's \<Rightarrow> (unit, 's) outcome" where
  "uniq_last put putcount putnl fl u s =
     (case str_eq (previous_line u) [0] of None \<Rightarrow> undef
      | Some False \<Rightarrow>
          if isCountFlag fl then putcount (lineCount u) (previous_line u) s
          else if isNoFlag fl \<or> isCaseInsensitive fl then put (previous_line u) s
          else Ret () s
      | Some True \<Rightarrow> putnl s)"

section \<open>The reference for uniq\<close>

text \<open>Runs of equal lines with their lengths, and the text each option prints for a file.\<close>

function runs :: "(bytes \<Rightarrow> bytes \<Rightarrow> bool) \<Rightarrow> bytes list \<Rightarrow> (bytes \<times> nat) list" where
  "runs eq [] = []"
| "runs eq (l # ls) = (l, Suc (length (takeWhile (eq l) ls))) # runs eq (dropWhile (eq l) ls)"
  by pat_completeness auto
termination by (relation "measure (\<lambda>(eq, ls). length ls)") (auto simp: le_imp_less_Suc length_dropWhile_le)

datatype uniq_mode = Plain | Count | Insensitive | Repeated

definition lower :: "u8 \<Rightarrow> u8" where
  "lower a = (if 65 \<le> a \<and> a \<le> 90 then a + 32 else a)"

definition mode_eq :: "uniq_mode \<Rightarrow> bytes \<Rightarrow> bytes \<Rightarrow> bool" where
  "mode_eq m p l = (if m = Insensitive then map lower l = map lower p else l = p)"

definition run_text :: "uniq_mode \<Rightarrow> bytes \<times> nat \<Rightarrow> bytes" where
  "run_text m = (\<lambda>(l, n). case m of
       Count \<Rightarrow> show_num 10 (int n) @ lit ''  '' @ l @ [NEWLINE]
     | Repeated \<Rightarrow> if n > 1 then l @ [NEWLINE] else []
     | _ \<Rightarrow> l @ [NEWLINE])"

definition uniq_text :: "uniq_mode \<Rightarrow> bytes list \<Rightarrow> bytes" where
  "uniq_text m ls = (if ls = [] then [NEWLINE] else concat (map (run_text m) (runs (mode_eq m) ls)))"

definition mode_flag :: "uniq_mode \<Rightarrow> bytes" where
  "mode_flag m = (case m of Plain \<Rightarrow> lit ''-n'' | Count \<Rightarrow> lit ''-c'' | Insensitive \<Rightarrow> lit ''-i'' | Repeated \<Rightarrow> lit ''-d'')"

definition mode_flags :: "uniq_mode \<Rightarrow> uniq_flags" where
  "mode_flags m = \<lparr>isCountFlag = (m = Count), isCaseInsensitive = (m = Insensitive), isDelete = (m = Repeated),
     isNoFlag = (m = Plain), isStdin = False\<rparr>"

text \<open>One line in the loop on the values the variables stand for, and the text it prints.\<close>

fun ustep :: "uniq_mode \<Rightarrow> bytes \<times> nat \<times> bool \<Rightarrow> bytes \<Rightarrow> (bytes \<times> nat \<times> bool) \<times> bytes" where
  "ustep m (p, n, r) l =
     (if mode_eq m p l then ((p, Suc n, r \<or> m = Repeated), if m = Repeated \<and> \<not> r then p @ [NEWLINE] else [])
      else ((l, 1, r \<and> \<not> (p \<noteq> [] \<and> m = Repeated)),
        if p = [] then [] else case m of Count \<Rightarrow> show_num 10 (int n) @ lit ''  '' @ p @ [NEWLINE]
          | Repeated \<Rightarrow> [] | _ \<Rightarrow> p @ [NEWLINE]))"

fun urun :: "uniq_mode \<Rightarrow> bytes \<times> nat \<times> bool \<Rightarrow> bytes list \<Rightarrow> bytes" where
  "urun m (p, n, r) [] =
     (if p = [] then [NEWLINE] else case m of Count \<Rightarrow> show_num 10 (int n) @ lit ''  '' @ p @ [NEWLINE]
        | Repeated \<Rightarrow> [] | _ \<Rightarrow> p @ [NEWLINE])"
| "urun m st (l # ls) = snd (ustep m st l) @ urun m (fst (ustep m st l)) ls"

lemma urun_runs:
  assumes "p \<noteq> []" "[] \<notin> set ls" "0 < n" "m = Repeated \<Longrightarrow> r = (n > 1)"
  shows "(if m = Repeated \<and> r then p @ [NEWLINE] else []) @ urun m (p, n, r) ls =
    run_text m (p, n + length (takeWhile (mode_eq m p) ls)) @
    concat (map (run_text m) (runs (mode_eq m) (dropWhile (mode_eq m p) ls)))"
  using assms
proof (induction ls arbitrary: p n r)
  case Nil
  then show ?case by (auto simp: run_text_def split: uniq_mode.split)
next
  case (Cons l ls)
  show ?case
  proof (cases "mode_eq m p l")
    case True
    then show ?thesis using Cons.IH [of p "Suc n" "r \<or> m = Repeated"] Cons.prems by (cases m) auto
  next
    case False
    then show ?thesis using Cons.IH [of l 1 "r \<and> m \<noteq> Repeated"] Cons.prems
      by (cases m) (auto simp: run_text_def)
  qed
qed

lemma urun_text:
  assumes "[] \<notin> set ls"
  shows "urun m ([], 1, False) ls = uniq_text m ls"
proof (cases ls)
  case Nil
  then show ?thesis by (simp add: uniq_text_def)
next
  case (Cons l ks)
  then have "\<not> mode_eq m [] l" using assms by (auto simp: mode_eq_def)
  then show ?thesis using urun_runs [of l ks 1 m False] assms Cons by (auto simp: uniq_text_def)
qed

section \<open>The loop computes the reference\<close>

lemma str_eq_cstr:
  assumes "terminated a" "terminated b"
  shows "str_eq a b = Some (cstr a = cstr b)"
  using strcmp_cstr [OF assms] by (auto simp: str_eq_def)

lemma convertToLowercase_cstr:
  "terminated s \<Longrightarrow> \<exists>r. convertToLowercase s = Some r \<and> cstr r = map lower (cstr s) \<and> terminated r"
proof (induction s)
  case (Cons a s)
  have "a \<noteq> 0 \<Longrightarrow> lower a \<noteq> 0" unfolding lower_def by (auto simp: word_le_nat_alt unat_word_ariths word_unat_eq_iff)
  with Cons show ?case by (auto simp: lower_def)
qed simp

lemma uniq_same_cstr:
  assumes "terminated a" "terminated b"
  shows "uniq_same (m = Insensitive) a b = Some (mode_eq m (cstr b) (cstr a))"
proof -
  obtain x y where x: "convertToLowercase (cstr a @ [0]) = Some x" "cstr x = map lower (cstr a)" "terminated x"
    and y: "convertToLowercase (cstr b @ [0]) = Some y" "cstr y = map lower (cstr b)" "terminated y"
    using convertToLowercase_cstr [of "cstr a @ [0]"] convertToLowercase_cstr [of "cstr b @ [0]"] cstr_nonzero
    by (auto simp: cstr_append0)
  then show ?thesis using assms
    by (auto simp: uniq_same_def mode_eq_def str_eq_cstr strcpy_cstr)
qed

definition line_array :: "bytes \<Rightarrow> bool" where
  "line_array a \<longleftrightarrow> length a = 256 \<and> last a = 0"

lemma line_array_terminated: "line_array a \<Longrightarrow> terminated a"
  unfolding line_array_def by (metis last_in_set length_0_conv zero_neq_numeral)

lemma strcpy_to_array:
  assumes "line_array d" "line_array a"
  shows "\<exists>e. strcpy_to d a = Some e \<and> cstr e = cstr a \<and> line_array e"
proof -
  have t: "terminated a" "length (cstr a) < 256"
    using line_array_terminated [OF assms(2)] length_cstr [of a] assms(2) by (auto simp: line_array_def)
  let ?e = "blit 0 (cstr a @ [0]) d"
  have "?e = cstr a @ 0 # drop (Suc (length (cstr a))) d" by (simp add: blit_def)
  then have "cstr ?e = cstr a" using cstr_nonzero [of a] by simp
  moreover have "length ?e = 256" using t assms(1) by (simp add: line_array_def)
  moreover have "last ?e = 0" using assms(1) t by (auto simp: blit_def line_array_def last_append last_drop)
  ultimately show ?thesis using t assms(1) by (simp add: strcpy_to_def strcpy_cstr line_array_def)
qed

text \<open>The variables of the loop and the values they stand for.\<close>

definition uniq_rel :: "uniq_vars \<Rightarrow> bytes \<times> nat \<times> bool \<Rightarrow> bool" where
  "uniq_rel u st \<longleftrightarrow> line_array (current_line u) \<and> line_array (previous_line u) \<and> line_array (repeated_line u) \<and>
     st = (cstr (previous_line u), nat (lineCount u), isRepeated u) \<and> 0 < lineCount u"

lemma wp_copy_prev:
  assumes "uniq_rel u (p, n, r)" "\<And>v. uniq_rel v (cstr (current_line u), n, r) \<Longrightarrow> current_line v = current_line u \<Longrightarrow> Q v s"
  shows "wp (copy_prev u s) Q"
  using assms strcpy_to_array [of "previous_line u" "current_line u"]
  by (auto simp: copy_prev_def uniq_rel_def)

lemma uniq_rel_count: "uniq_rel u (p, n, r) \<Longrightarrow> uniq_rel (u\<lparr>lineCount := 1\<rparr>) (p, 1, r)"
  by (simp add: uniq_rel_def)

text \<open>The end of the branch for a line that differs: \<^verbatim>\<open>previous_line\<close> and \<^verbatim>\<open>lineCount\<close> are set.\<close>

lemma wp_next_run:
  assumes "uniq_rel u (p, n, r)" "\<And>v. uniq_rel v (cstr (current_line u), 1, r) \<Longrightarrow> Q v s"
  shows "wp (copy_prev u s) (\<lambda>v s. Q (v\<lparr>lineCount := 1\<rparr>) s)"
  by (rule wp_copy_prev [OF assms(1)], rule assms(2), erule uniq_rel_count)

lemma uniq_rel_init: "uniq_rel uniq_init ([], 1, False)"
  by (simp add: uniq_rel_def uniq_init_def line_array_def cstr_def)

text \<open>What printing keeps, the body keeps.\<close>

lemma wlp_uniq_line:
  assumes "\<And>a s. wlp (put a s) (\<lambda>_ t. f t = f s)" "\<And>n a s. wlp (putcount n a s) (\<lambda>_ t. f t = f s)"
  shows "wlp (uniq_line put putcount fl u s) (\<lambda>_ t. f t = f s)"
  using assms unfolding wlp_iff
  by (auto simp: uniq_line_def copy_prev_def count_line_def kbind_eq_Ret_iff split: option.splits bool.splits if_splits)

section \<open>The interface for printing lines\<close>

text \<open>
  What the loop needs of the operations that print: in a state that is \<open>ready\<close> they return and append the line to what was
  written.
\<close>

locale line_printer =
  fixes put :: "bytes \<Rightarrow> 's \<Rightarrow> (unit, 's) outcome"
    and putcount :: "int \<Rightarrow> bytes \<Rightarrow> 's \<Rightarrow> (unit, 's) outcome"
    and putnl :: "'s \<Rightarrow> (unit, 's) outcome"
    and ready :: "'s \<Rightarrow> bool"
    and wrote :: "bytes \<Rightarrow> 's \<Rightarrow> 's \<Rightarrow> bool"
  assumes wrote_Nil: "ready s \<Longrightarrow> wrote [] s s"
    and wp_put: "ready s \<Longrightarrow> terminated a \<Longrightarrow> (\<And>t. wrote (cstr a @ [NEWLINE]) s t \<Longrightarrow> Q () t) \<Longrightarrow> wp (put a s) Q"
    and wp_putcount: "ready s \<Longrightarrow> terminated a \<Longrightarrow> n < 2 ^ 31 \<Longrightarrow>
      (\<And>t. wrote (show_num 10 (int n) @ lit ''  '' @ cstr a @ [NEWLINE]) s t \<Longrightarrow> Q () t) \<Longrightarrow> wp (putcount (int n) a s) Q"
    and wp_putnl: "ready s \<Longrightarrow> (\<And>t. wrote [NEWLINE] s t \<Longrightarrow> Q () t) \<Longrightarrow> wp (putnl s) Q"
begin

lemma wp_uniq_line:
  assumes pr: "ready s" and u: "uniq_rel u (p, n, r)" and n: "n + 1 < 2 ^ 31" and l: "cstr (current_line u) = l"
    and Q: "\<And>v t. wrote (snd (ustep m (p, n, r) l)) s t \<Longrightarrow> uniq_rel v (fst (ustep m (p, n, r) l)) \<Longrightarrow> Q v t"
  shows "wp (uniq_line put putcount (mode_flags m) u s) Q"
proof -
  have arr: "line_array (current_line u)" "line_array (previous_line u)" "line_array (repeated_line u)"
    and pu: "cstr (previous_line u) = p" "lineCount u = int n" "isRepeated u = r" "0 < n"
    using u by (auto simp: uniq_rel_def)
  note trm = line_array_terminated [OF arr(1)] line_array_terminated [OF arr(2)]
  have same: "uniq_same (isCaseInsensitive (mode_flags m)) (current_line u) (previous_line u) = Some (mode_eq m p l)"
    using uniq_same_cstr [OF trm, of m] pu(1) l by (simp add: mode_flags_def)
  have nil: "wrote [] s s" by (rule wrote_Nil [OF pr])
  show ?thesis
  proof (cases "mode_eq m p l")
    case True
    have fin: "wp (count_line v t) Q" if "uniq_rel v (p, n, r \<or> m = Repeated)" "wrote (snd (ustep m (p, n, r) l)) s t" for v t
      using that True n by (auto simp: count_line_def uniq_rel_def nat_add_distrib intro!: Q)
    show ?thesis
    proof (cases "m = Repeated \<and> \<not> r")
      case rep: True
      obtain e where e: "strcpy_to (repeated_line u) (current_line u) = Some e" "line_array e"
        using strcpy_to_array [OF arr(3,1)] by blast
      have "wp (put (previous_line u) s) (\<lambda>_ t. wp (count_line (u\<lparr>repeated_line := e, isRepeated := True\<rparr>) t) Q)"
      proof (rule wp_put [OF pr trm(2)])
        fix t assume "wrote (cstr (previous_line u) @ [NEWLINE]) s t"
        then show "wp (count_line (u\<lparr>repeated_line := e, isRepeated := True\<rparr>) t) Q"
          using rep True pu e u by (intro fin) (auto simp: uniq_rel_def)
      qed
      then show ?thesis using same True rep pu e by (simp add: uniq_line_def mode_flags_def)
    next
      case False
      have "wp (count_line u s) Q" using u False nil True by (intro fin) auto
      then show ?thesis using same True False pu by (auto simp: uniq_line_def mode_flags_def)
    qed
  next
    case False
    have emp: "str_eq (previous_line u) [0] = Some (p = [])" using str_eq_cstr [OF trm(2), of "[0]"] pu by simp
    have fin: "wp (copy_prev v t) (\<lambda>v t. Q (v\<lparr>lineCount := 1\<rparr>) t)"
      if "uniq_rel v (p', n', r \<and> \<not> (p \<noteq> [] \<and> m = Repeated))" "cstr (current_line v) = l"
        "wrote (snd (ustep m (p, n, r) l)) s t" for v t p' n'
      using that False by (intro wp_next_run [OF that(1)]) (auto intro!: Q)
    show ?thesis
    proof (cases "p = []")
      case True
      have "wp (copy_prev (u\<lparr>lineCount := 1\<rparr>) s) (\<lambda>v t. Q (v\<lparr>lineCount := 1\<rparr>) t)"
        using uniq_rel_count [OF u] True nil False l by (intro fin) auto
      then show ?thesis using same False emp True by (simp add: uniq_line_def)
    next
      case ne: False
      have line: "wp (put (previous_line u) s) R"
        if "\<And>t. wrote (p @ [NEWLINE]) s t \<Longrightarrow> R () t" for R
        using wp_put [OF pr trm(2)] pu(1) that by simp
      consider (count) "m = Count" | (rep) "m = Repeated" | (plain) "m = Plain" | (ins) "m = Insensitive" by (cases m)
      then show ?thesis
      proof cases
        case count
        have "wp (putcount (int n) (previous_line u) s) (\<lambda>_ t. wp (copy_prev u t) (\<lambda>v t. Q (v\<lparr>lineCount := 1\<rparr>) t))"
          using u l pu n count ne False by (intro wp_putcount [OF pr trm(2)] fin) auto
        then show ?thesis using same False emp ne pu count by (simp add: uniq_line_def mode_flags_def)
      next
        case rep
        have "uniq_rel (u\<lparr>isRepeated := False\<rparr>) (p, n, False)" using u by (simp add: uniq_rel_def)
        then have "wp (copy_prev (u\<lparr>isRepeated := False\<rparr>) s) (\<lambda>v t. Q (v\<lparr>lineCount := 1\<rparr>) t)"
          using ne rep l nil False by (intro fin) auto
        then show ?thesis using same False emp ne rep by (simp add: uniq_line_def mode_flags_def)
      next
        case plain
        have p2: "wp (copy_prev u t) (\<lambda>v t. Q (v\<lparr>lineCount := 1\<rparr>) t)" if "wrote (p @ [NEWLINE]) s t" for t
          using u l ne False plain that by (intro fin) auto
        have "wp (copy_prev u t) (\<lambda>v t. wp (copy_prev v t) (\<lambda>v t. Q (v\<lparr>lineCount := 1\<rparr>) t))" if "wrote (p @ [NEWLINE]) s t" for t
          using l ne False plain that by (intro wp_copy_prev [OF u] fin) auto
        with p2 show ?thesis using same False emp ne plain
          by (auto simp: uniq_line_def mode_flags_def intro!: line)
      next
        case ins
        have "wp (copy_prev u t) (\<lambda>v t. wp (copy_prev v t) (\<lambda>v t. Q (v\<lparr>lineCount := 1\<rparr>) t))" if "wrote (p @ [NEWLINE]) s t" for t
          using l ne False ins that by (intro wp_copy_prev [OF u] fin) auto
        then show ?thesis using same False emp ne ins
          by (auto simp: uniq_line_def mode_flags_def intro!: line)
      qed
    qed
  qed
qed

lemma wp_uniq_last:
  assumes pr: "ready s" and u: "uniq_rel u (p, n, r)" and n: "n < 2 ^ 31"
    and Q: "\<And>t. wrote (urun m (p, n, r) []) s t \<Longrightarrow> Q () t"
  shows "wp (uniq_last put putcount putnl (mode_flags m) u s) Q"
proof -
  have arr: "line_array (previous_line u)" and pu: "cstr (previous_line u) = p" "lineCount u = int n"
    using u by (auto simp: uniq_rel_def)
  note trm = line_array_terminated [OF arr]
  have emp: "str_eq (previous_line u) [0] = Some (p = [])" using str_eq_cstr [OF trm, of "[0]"] pu by simp
  show ?thesis
  proof (cases "p = []")
    case True
    have "wp (putnl s) Q" using True by (intro wp_putnl [OF pr] Q) simp
    then show ?thesis using True emp by (simp add: uniq_last_def)
  next
    case False
    have "m = Repeated \<Longrightarrow> Q () s" using False wrote_Nil [OF pr] by (intro Q) simp
    moreover have "wp (putcount (int n) (previous_line u) s) Q" if "m = Count"
      using that False pu by (intro wp_putcount [OF pr trm n] Q) simp
    moreover have "wp (put (previous_line u) s) Q" if "m = Plain \<or> m = Insensitive"
      using that False pu by (intro wp_put [OF pr trm] Q) auto
    ultimately show ?thesis using emp False pu by (cases m) (simp_all add: uniq_last_def mode_flags_def)
  qed
qed

end

end
