(* ===== verification/Sysproc.thy ===== *)
theory Sysproc
  imports Sysfile Uniq
begin

text \<open>
  The system calls of \<^verbatim>\<open>sysproc.c\<close>: the process calls, \<^verbatim>\<open>sleep\<close>, \<^verbatim>\<open>uptime\<close>, \<^verbatim>\<open>new_wait\<close>, and the commands
  \<^verbatim>\<open>uniq\<close> and \<^verbatim>\<open>head\<close> that run in the kernel. The character arrays on the stack are byte lists of their length; a store
  or a scan past the end of one is undefined.
\<close>

section \<open>Process calls\<close>

definition sys_fork :: "'x ft_scheme \<Rightarrow> (int, 'x ft_scheme) outcome" where
  "sys_fork s = fork s"

definition sys_exit :: "'x ft_scheme \<Rightarrow> (int, 'x ft_scheme) outcome" where
  "sys_exit s = exit s"

definition sys_wait :: "'x kmem_scheme \<Rightarrow> (int, 'x kmem_scheme) outcome" where
  "sys_wait s = wait s"

definition sys_kill :: "'x kmem_scheme \<Rightarrow> (int, 'x kmem_scheme) outcome" where
  "sys_kill s =
     kbind (argint 0 s) (\<lambda>r s. case r of None \<Rightarrow> Ret (-1) s | Some pid \<Rightarrow> kill (sint pid) s)"

definition sys_getpid :: "'x kbase_scheme \<Rightarrow> (int, 'x kbase_scheme) outcome" where
  "sys_getpid s = kbind (cur s) (\<lambda>p s. Ret (p_pid (procs s ! p)) s)"

definition sys_sbrk :: "'x kmem_scheme \<Rightarrow> (int, 'x kmem_scheme) outcome" where
  "sys_sbrk s =
     kbind (argint 0 s) (\<lambda>r s.
     case r of None \<Rightarrow> Ret (-1) s
     | Some n \<Rightarrow>
         kbind (cur s) (\<lambda>p s.
         let addr = sint (p_sz (procs s ! p)) in
         kbind (growproc (sint n) s) (\<lambda>e s. if e < 0 then Ret (-1) s else Ret addr s)))"

text \<open>One round of the loop of \<^verbatim>\<open>sys_sleep\<close>; a process that wakes up goes on with another round.\<close>

definition sys_sleep_rest :: "u32 \<Rightarrow> u32 \<Rightarrow> 'x kbase_scheme \<Rightarrow> (int, 'x kbase_scheme) outcome" where
  "sys_sleep_rest ticks0 n s =
     (if ticks s - ticks0 < n then
        kbind (cur s) (\<lambda>p s.
        if p_killed (procs s ! p) then kbind (release LTicks s) (\<lambda>_ s. Ret (-1) s)
        else sleep ChTicks LTicks s)
      else kbind (release LTicks s) (\<lambda>_ s. Ret 0 s))"

definition sys_sleep :: "'x kmem_scheme \<Rightarrow> (int, 'x kmem_scheme) outcome" where
  "sys_sleep s =
     kbind (argint 0 s) (\<lambda>r s.
     case r of None \<Rightarrow> Ret (-1) s
     | Some n \<Rightarrow> kbind (acquire LTicks s) (\<lambda>_ s. sys_sleep_rest (ticks s) n s))"

definition sys_uptime :: "'x kbase_scheme \<Rightarrow> (int, 'x kbase_scheme) outcome" where
  "sys_uptime s =
     kbind (acquire LTicks s) (\<lambda>_ s.
     let xticks = ticks s in kbind (release LTicks s) (\<lambda>_ s. Ret (sint xticks) s))"

definition sys_new_wait :: "'x kmem_scheme \<Rightarrow> (int, 'x kmem_scheme) outcome" where
  "sys_new_wait s =
     kbind (argptr 0 4 s) (\<lambda>r0 s.
     case r0 of None \<Rightarrow> Ret (-1) s
     | Some create_time \<Rightarrow>
         kbind (argptr 1 4 s) (\<lambda>r1 s.
         case r1 of None \<Rightarrow> Ret (-1) s
         | Some stop_time \<Rightarrow>
             kbind (argptr 2 4 s) (\<lambda>r2 s.
             case r2 of None \<Rightarrow> Ret (-1) s
             | Some run_time \<Rightarrow> new_wait create_time stop_time run_time s)))"

section \<open>Lines\<close>

text \<open>The loop of \<^verbatim>\<open>readline\<close> from index \<open>i\<close>: the index it ends with and the array.\<close>

function readline_scan :: "nat \<Rightarrow> nat \<Rightarrow> bytes \<Rightarrow> (nat \<times> bytes) option" where
  "readline_scan n i buf =
     (case strlen buf of None \<Rightarrow> None
      | Some l \<Rightarrow>
          if i < l then
            if buf ! i = NEWLINE \<or> i \<ge> n then Some (i, buf[i := 0]) else readline_scan n (Suc i) buf
          else Some (i, buf))"
  by auto
termination
  by (relation "measure (\<lambda>(n, i, buf). length buf - i)") (auto simp: strlen_cstr cstr_def split: if_splits
      dest!: order.strict_trans2 [OF _ length_takeWhile_le])

declare readline_scan.simps [simp del]

text \<open>
  \<^verbatim>\<open>readline\<close>. The test against \<^verbatim>\<open>sizeof(buf)\<close> compares with the size of a pointer, 4.
\<close>

definition readline :: "nat \<Rightarrow> bytes \<Rightarrow> int \<Rightarrow> 'x ft_scheme \<Rightarrow> (int \<times> bytes, 'x ft_scheme) outcome" where
  "readline ip buf start s =
     kbind (readi ip (word_of_int start) 256 s) (\<lambda>(bytes_read, d) s.
     let buf = blit 0 d buf in
     if bytes_read < 0 then Ret (-1, buf) s
     else
       let buf = (if bytes_read < 4 then buf[nat bytes_read := 0] else buf) in
       case readline_scan (nat bytes_read) 0 buf of None \<Rightarrow> undef
       | Some (i, buf) \<Rightarrow> Ret (int i, buf) s)"

text \<open>
  The copying loop of \<^verbatim>\<open>extract_line\<close> on the bytes from \<^verbatim>\<open>data[dataIndex]\<close>, with the free cells of \<^verbatim>\<open>line\<close>: the bytes copied.
\<close>

fun extract_loop :: "bytes \<Rightarrow> nat \<Rightarrow> bytes option" where
  "extract_loop [] n = None"
| "extract_loop (c # cs) n =
     (if c \<noteq> 0 \<and> c \<noteq> NEWLINE then
        (case n of 0 \<Rightarrow> None | Suc m \<Rightarrow> map_option ((#) c) (extract_loop cs m))
      else Some [])"

definition extract_line :: "nat \<Rightarrow> bytes \<Rightarrow> bytes \<Rightarrow> (int \<times> bytes) option" where
  "extract_line startPos data line =
     (case strlen data of None \<Rightarrow> None
      | Some l \<Rightarrow>
          if startPos \<ge> l then Some (-1, line)
          else case extract_loop (drop startPos data) (length line) of None \<Rightarrow> None
          | Some w \<Rightarrow>
              if length w \<ge> length line then None
              else
                let e = startPos + length w
                in Some (int (if data ! e = NEWLINE then e + 1 else e), blit 0 (w @ [0]) line))"

text \<open>Printing a line from an array.\<close>

definition put_line :: "bytes \<Rightarrow> 'x kbase_scheme \<Rightarrow> (unit, 'x kbase_scheme) outcome" where
  "put_line a s = (case strlen a of None \<Rightarrow> undef
     | Some n \<Rightarrow> cprintf (lit ''%s'' @ [NEWLINE]) [AStr (Some (take n a))] s)"

definition put_count_line :: "int \<Rightarrow> bytes \<Rightarrow> 'x kbase_scheme \<Rightarrow> (unit, 'x kbase_scheme) outcome" where
  "put_count_line n a s = (case strlen a of None \<Rightarrow> undef
     | Some l \<Rightarrow> cprintf (lit ''%d  %s'' @ [NEWLINE]) [ANum (word_of_int n), AStr (Some (take l a))] s)"

section \<open>The command uniq\<close>

definition uniq_flags_of :: "bytes \<Rightarrow> uniq_flags option" where
  "uniq_flags_of flag =
     (case (str_eq flag (lit ''-c'' @ [0]), str_eq flag (lit ''-i'' @ [0]), str_eq flag (lit ''-d'' @ [0]),
            str_eq flag (lit ''-n'' @ [0]), str_eq flag (lit ''-z'' @ [0])) of
        (Some c, Some i, Some d, Some n, Some z) \<Rightarrow>
          Some \<lparr>isCountFlag = c, isCaseInsensitive = i, isDelete = d, isNoFlag = n, isStdin = z\<rparr>
      | _ \<Rightarrow> None)"

text \<open>The input read into \<^verbatim>\<open>buffer\<close>: what the loop over \<^verbatim>\<open>fileread\<close> stores, before the terminating NUL.\<close>

function read_stdin :: "nat \<Rightarrow> nat \<Rightarrow> 'x ft_scheme \<Rightarrow> (bytes, 'x ft_scheme) outcome" where
  "read_stdin f i s =
     kbind (fileread f 1 s) (\<lambda>(inbytes, d) s.
     if inbytes > 0 then
       if i < 1024 then kbind (read_stdin f (i + 1) s) (\<lambda>b s. Ret (hd d # b) s) else undef
     else if i < 1024 then Ret [] s else undef)"
  by auto
termination
  by (relation "measure (\<lambda>(f, i, s). 1024 - i)") auto

declare read_stdin.simps [simp del]

lemma length_extract_loop: "extract_loop cs n = Some w \<Longrightarrow> length w < length cs"
  by (induction cs n arbitrary: w rule: extract_loop.induct) (auto split: if_splits nat.splits)

lemma extract_loop_Nil: "extract_loop cs n = Some [] \<Longrightarrow> hd cs = 0 \<or> hd cs = NEWLINE"
  by (cases cs) (auto split: if_splits nat.splits)

lemma extract_line_progress:
  assumes "extract_line startPos data line = Some (r, l)" "r > 0"
  shows "int startPos < r \<and> nat r \<le> length data"
proof -
  obtain n w where n: "strlen data = Some n" "startPos < n" and w: "extract_loop (drop startPos data) (length line) = Some w"
    and r: "r = int (if data ! (startPos + length w) = NEWLINE then startPos + length w + 1 else startPos + length w)"
    using assms by (auto simp: extract_line_def Let_def split: option.splits if_splits)
  have len: "startPos < length data" "length w < length data - startPos"
    using n length_extract_loop [OF w] by (auto simp: strlen_cstr cstr_def split: if_splits
        dest!: order.strict_trans2 [OF _ length_takeWhile_le])
  have "data ! startPos \<noteq> 0"
    using n nth_mem [of startPos "takeWhile (\<lambda>c. c \<noteq> 0) data"] takeWhile_nth [of startPos "\<lambda>c. c \<noteq> 0" data]
    by (auto simp: strlen_cstr cstr_def split: if_splits dest!: set_takeWhileD)
  then have "w = [] \<Longrightarrow> data ! startPos = NEWLINE"
    using extract_loop_Nil [of "drop startPos data" "length line"] w len by (auto simp: hd_drop_conv_nth)
  then show ?thesis
    using r len by (auto split: if_splits)
qed

function uniq_stdin_loop :: "bytes \<Rightarrow> nat \<Rightarrow> uniq_vars \<Rightarrow> 'x kbase_scheme \<Rightarrow> (uniq_vars, 'x kbase_scheme) outcome" where
  "uniq_stdin_loop buffer offset u s =
     (case extract_line offset buffer (current_line u) of None \<Rightarrow> undef
      | Some (r, l) \<Rightarrow>
          let u = u\<lparr>current_line := l\<rparr> in
          if r > 0 then
            kbind (case (str_eq (previous_line u) [0], str_eq (current_line u) (previous_line u)) of
                     (Some True, _) \<Rightarrow>
                       kbind (copy_prev u s) (\<lambda>u s. Ret (u\<lparr>lineCount := 1\<rparr>) s)
                   | (Some False, Some False) \<Rightarrow>
                       kbind (put_line (previous_line u) s) (\<lambda>_ s.
                       kbind (copy_prev u s) (\<lambda>u s. Ret (u\<lparr>lineCount := 1\<rparr>) s))
                   | (Some False, Some True) \<Rightarrow> count_line u s
                   | _ \<Rightarrow> undef) (\<lambda>u s.
            uniq_stdin_loop buffer (nat r + 1) u s)
          else Ret u s)"
  by auto
termination
  by (relation "measure (\<lambda>(buffer, offset, u, s). length buffer + 2 - offset)") (auto dest!: extract_line_progress)

declare uniq_stdin_loop.simps [simp del]

definition uniq_stdin :: "'x ft_scheme \<Rightarrow> (unit, 'x ft_scheme) outcome" where
  "uniq_stdin s =
     kbind (cur s) (\<lambda>p s.
     case p_ofile (procs s ! p) ! 0 of None \<Rightarrow> undef
     | Some f \<Rightarrow>
         kbind (read_stdin f 0 s) (\<lambda>b s.
         kbind (uniq_stdin_loop (b @ [0]) 0 uniq_init s) (\<lambda>u s.
         case str_eq (previous_line u) [0] of None \<Rightarrow> undef
         | Some True \<Rightarrow> cprintf [NEWLINE] [] s
         | Some False \<Rightarrow> put_line (previous_line u) s)))"

function uniq_file_loop :: "uniq_flags \<Rightarrow> nat \<Rightarrow> int \<Rightarrow> uniq_vars \<Rightarrow> 'x ft_scheme \<Rightarrow> (uniq_vars, 'x ft_scheme) outcome" where
  "uniq_file_loop fl ip indexCounter u s =
     kbind (readline ip (current_line u) indexCounter s) (\<lambda>(bytesRead, buf) s.
     let u = u\<lparr>current_line := buf\<rparr> in
     if bytesRead > 0 then
       if indexCounter + bytesRead + 1 < 2 ^ 31 then
         kbind (uniq_line put_line put_count_line fl u s) (\<lambda>u s. uniq_file_loop fl ip (indexCounter + bytesRead + 1) u s)
       else undef
     else Ret u s)"
  by auto
termination
  by (relation "measure (\<lambda>(fl, ip, i, u, s). nat (2 ^ 31 - i))") auto

declare uniq_file_loop.simps [simp del]

definition uniq_file :: "uniq_flags \<Rightarrow> bytes \<Rightarrow> 'x ft_scheme \<Rightarrow> (int, 'x ft_scheme) outcome" where
  "uniq_file fl filename s =
     kbind (begin_op s) (\<lambda>_ s.
     kbind (namei filename s) (\<lambda>r s.
     case r of
       None \<Rightarrow>
         kbind (end_op s) (\<lambda>_ s.
         kbind (cprintf (lit ''File Not Found ....'' @ [NEWLINE]) [] s) (\<lambda>_ s. Ret (-1) s))
     | Some ip \<Rightarrow>
         kbind (ilock (Some ip) s) (\<lambda>_ s.
         kbind (uniq_file_loop fl ip 0 uniq_init s) (\<lambda>u s.
         kbind (uniq_last put_line put_count_line (cprintf [NEWLINE] []) fl u s) (\<lambda>_ s.
         kbind (iunlock (Some ip) s) (\<lambda>_ s.
         kbind (end_op s) (\<lambda>_ s. Ret 0 s)))))))"

definition sys_uniq_kernel :: "'x ft_scheme \<Rightarrow> (int, 'x ft_scheme) outcome" where
  "sys_uniq_kernel s =
     kbind (argstr 0 s) (\<lambda>r s.
     case r of None \<Rightarrow> Ret (-1) s
     | Some filename \<Rightarrow>
         kbind (argstr 1 s) (\<lambda>r s.
         case r of None \<Rightarrow> Ret (-1) s
         | Some flag \<Rightarrow>
             (case uniq_flags_of (flag @ [0]) of None \<Rightarrow> undef
              | Some fl \<Rightarrow>
                  if isStdin fl then kbind (uniq_stdin s) (\<lambda>_ s. Ret 0 s)
                  else uniq_file fl filename s)))"

section \<open>The command head\<close>

text \<open>
  The loop over the standard input: the bytes stored in \<^verbatim>\<open>lineBuffer\<close> so far and the number of the line.
\<close>

function head_stdin_loop :: "nat \<Rightarrow> int \<Rightarrow> int \<Rightarrow> bytes \<Rightarrow> 'x ft_scheme \<Rightarrow> (unit, 'x ft_scheme) outcome" where
  "head_stdin_loop f numLinesToShow linesDisplayed line s =
     kbind (fileread f 1 s) (\<lambda>(bytesRead, d) s.
     if bytesRead > 0 then
       if length line \<ge> 1024 then undef
       else if hd d = NEWLINE then
         kbind (cprintf (lit ''%s'' @ [NEWLINE]) [AStr (Some (cstr line))] s) (\<lambda>_ s.
         if linesDisplayed + 1 \<ge> 2 ^ 31 then undef
         else if linesDisplayed + 1 > numLinesToShow then Ret () s
         else head_stdin_loop f numLinesToShow (linesDisplayed + 1) [] s)
       else head_stdin_loop f numLinesToShow linesDisplayed (line @ [hd d]) s
     else Ret () s)"
  by auto
termination
  by (relation "measures [\<lambda>(f, n, k, l, s). nat (n + 1 - k), \<lambda>(f, n, k, l, s). 1024 - length l]") auto

declare head_stdin_loop.simps [simp del]

function head_file_loop :: "nat \<Rightarrow> int \<Rightarrow> int \<Rightarrow> int \<Rightarrow> bytes \<Rightarrow> 'x ft_scheme \<Rightarrow> (unit, 'x ft_scheme) outcome" where
  "head_file_loop ip numLinesToShow linesRead fileIndex line s =
     (if linesRead \<le> numLinesToShow then
        kbind (readline ip line fileIndex s) (\<lambda>(bytesRead, line) s.
        if bytesRead > 0 then
          if fileIndex + bytesRead + 1 \<ge> 2 ^ 31 then undef
          else
            kbind (put_line line s) (\<lambda>_ s.
            head_file_loop ip numLinesToShow (linesRead + 1) (fileIndex + bytesRead + 1) line s)
        else Ret () s)
      else Ret () s)"
  by auto
termination
  by (relation "measure (\<lambda>(ip, n, k, i, l, s). nat (n + 1 - k))") auto

declare head_file_loop.simps [simp del]

definition head_file :: "bytes \<Rightarrow> int \<Rightarrow> 'x ft_scheme \<Rightarrow> (int, 'x ft_scheme) outcome" where
  "head_file targetFile numLinesToShow s =
     kbind (begin_op s) (\<lambda>_ s.
     kbind (namei targetFile s) (\<lambda>r s.
     case r of
       None \<Rightarrow>
         kbind (end_op s) (\<lambda>_ s.
         kbind (cprintf (lit ''Error: The specified file was not found.'' @ [NEWLINE]) [] s) (\<lambda>_ s. Ret (-1) s))
     | Some ip \<Rightarrow>
         kbind (ilock (Some ip) s) (\<lambda>_ s.
         kbind (head_file_loop ip numLinesToShow 1 0 (replicate 1024 0) s) (\<lambda>_ s.
         kbind (cprintf [NEWLINE] [] s) (\<lambda>_ s.
         kbind (iunlock (Some ip) s) (\<lambda>_ s.
         kbind (end_op s) (\<lambda>_ s. Ret numLinesToShow s)))))))"

definition sys_head_kernel :: "'x ft_scheme \<Rightarrow> (int, 'x ft_scheme) outcome" where
  "sys_head_kernel s =
     kbind (argstr 0 s) (\<lambda>r s.
     case r of None \<Rightarrow> Ret (-1) s
     | Some targetFile \<Rightarrow>
         kbind (argint 1 s) (\<lambda>r s.
         case r of None \<Rightarrow> Ret (-1) s
         | Some n \<Rightarrow>
             kbind (argint 2 s) (\<lambda>r s.
             case r of None \<Rightarrow> Ret (-1) s
             | Some inputSource \<Rightarrow>
                 if inputSource = 0 then
                   kbind (cur s) (\<lambda>p s.
                   case p_ofile (procs s ! p) ! 0 of None \<Rightarrow> undef
                   | Some f \<Rightarrow> kbind (head_stdin_loop f (sint n) 1 [] s) (\<lambda>_ s. Ret (sint n) s))
                 else head_file targetFile (sint n) s)))"

end
