(* ===== verification/Trap.thy ===== *)
theory Trap
  imports Sysproc
begin

text \<open>
  System-call dispatch, \<^verbatim>\<open>syscall.c\<close>, and the trap handler, \<^verbatim>\<open>trap.c\<close>. What the devices deliver to the handler is an argument:
  the bytes that the keyboard and the serial port hold and the address register \<^verbatim>\<open>cr2\<close>. The end-of-interrupt message of
  \<^verbatim>\<open>lapiceoi\<close> changes nothing in the state.
\<close>

section \<open>System calls\<close>

definition syscalls :: "('x ft_scheme \<Rightarrow> (int, 'x ft_scheme) outcome) option list" where
  "syscalls = [None, Some sys_fork, Some sys_exit, Some sys_wait, Some sys_pipe, Some sys_read, Some sys_kill,
     Some sys_exec, Some sys_fstat, Some sys_chdir, Some sys_dup, Some sys_getpid, Some sys_sbrk, Some sys_sleep,
     Some sys_uptime, Some sys_open, Some sys_write, Some sys_mknod, Some sys_unlink, Some sys_link, Some sys_mkdir,
     Some sys_close, Some sys_uniq_kernel, Some sys_head_kernel, Some sys_new_wait]"

definition set_eax :: "nat \<Rightarrow> u32 \<Rightarrow> 'x kbase_scheme \<Rightarrow> 'x kbase_scheme" where
  "set_eax p v s = upd_proc p (\<lambda>q. q\<lparr>p_tf := (p_tf q)\<lparr>tf_eax := v\<rparr>\<rparr>) s"

definition syscall :: "'x ft_scheme \<Rightarrow> (unit, 'x ft_scheme) outcome" where
  "syscall s =
     kbind (cur s) (\<lambda>p s.
     let num = sint (tf_eax (p_tf (procs s ! p)));
         unknown = (if \<not> terminated (p_name (procs s ! p)) then undef else kbind (cprintf (lit ''%d %s: unknown sys call %d'' @ [NEWLINE])
                       [ANum (word_of_int (p_pid (procs s ! p))), AStr (Some (cstr (p_name (procs s ! p)))),
                        ANum (word_of_int num)] s) (\<lambda>_ s. Ret () (set_eax p (-1) s)))
     in if num > 0 \<and> num < int (length (syscalls :: ('x ft_scheme \<Rightarrow> (int, 'x ft_scheme) outcome) option list))
        then (case syscalls ! nat num of
                Some f \<Rightarrow> kbind (f s) (\<lambda>r s. Ret () (set_eax p (word_of_int r) s))
              | None \<Rightarrow> unknown)
        else unknown)"

section \<open>Traps\<close>

abbreviation (input) T_SYSCALL :: u32 where "T_SYSCALL \<equiv> 64"
abbreviation (input) T_IRQ0 :: u32 where "T_IRQ0 \<equiv> 32"
abbreviation (input) IRQ_TIMER :: u32 where "IRQ_TIMER \<equiv> 0"
abbreviation (input) IRQ_KBD :: u32 where "IRQ_KBD \<equiv> 1"
abbreviation (input) IRQ_COM1 :: u32 where "IRQ_COM1 \<equiv> 4"
abbreviation (input) IRQ_IDE :: u32 where "IRQ_IDE \<equiv> 14"
abbreviation (input) IRQ_SPURIOUS :: u32 where "IRQ_SPURIOUS \<equiv> 31"

record devices =
  dev_kbd :: bytes
  dev_uart :: bytes
  dev_cr2 :: u32

text \<open>The exit of a killed process, here where it came from user space.\<close>

definition exit_if_killed :: "'x ft_scheme \<Rightarrow> (unit, 'x ft_scheme) outcome" where
  "exit_if_killed s =
     kbind (cur s) (\<lambda>p s. if p_killed (procs s ! p) then exit s else Ret () s)"

definition user_exit :: "trapframe \<Rightarrow> 'x ft_scheme \<Rightarrow> (unit, 'x ft_scheme) outcome" where
  "user_exit tf s =
     (case myproc s of None \<Rightarrow> Ret () s
      | Some p \<Rightarrow> if p_killed (procs s ! p) \<and> tf_cs tf AND 3 = DPL_USER then exit s else Ret () s)"

definition trap_timer :: "'x kbase_scheme \<Rightarrow> (unit, 'x kbase_scheme) outcome" where
  "trap_timer s =
     (if me s = 0 then
        kbind (acquire LTicks s) (\<lambda>_ s.
        kbind (wakeup ChTicks (s\<lparr>ticks := ticks s + 1\<rparr>)) (\<lambda>_ s.
        kbind (release LTicks s) (\<lambda>_ s.
        case myproc s of None \<Rightarrow> Ret () s
        | Some p \<Rightarrow>
            Ret () (if p_state (procs s ! p) = RUNNING then upd_proc p (\<lambda>q. q\<lparr>p_ctime := p_ctime q + 1\<rparr>) s else s))))
      else Ret () s)"

definition trap_default :: "devices \<Rightarrow> trapframe \<Rightarrow> 'x kbase_scheme \<Rightarrow> (unit, 'x kbase_scheme) outcome" where
  "trap_default d tf s =
     (let kernel_mistake =
        kbind (cprintf (lit ''unexpected trap %d from cpu %d eip %x (cr2=0x%x)'' @ [NEWLINE])
          [ANum (tf_trapno tf), ANum (of_nat (me s)), ANum (tf_eip tf), ANum (dev_cr2 d)] s) (\<lambda>_ s. Panic ''trap'')
      in case myproc s of None \<Rightarrow> kernel_mistake
         | Some p \<Rightarrow>
             if tf_cs tf AND 3 = 0 then kernel_mistake
             else if \<not> terminated (p_name (procs s ! p)) then undef
             else
               kbind (cprintf (lit ''pid %d %s: trap %d err %d on cpu %d eip 0x%x addr 0x%x--kill proc'' @ [NEWLINE])
                 [ANum (word_of_int (p_pid (procs s ! p))), AStr (Some (cstr (p_name (procs s ! p)))), ANum (tf_trapno tf),
                  ANum (tf_err tf), ANum (of_nat (me s)), ANum (tf_eip tf), ANum (dev_cr2 d)] s) (\<lambda>_ s.
               Ret () (upd_proc p (\<lambda>q. q\<lparr>p_killed := True\<rparr>) s)))"

definition trap_irq :: "devices \<Rightarrow> trapframe \<Rightarrow> 'x bio_scheme \<Rightarrow> (unit, 'x bio_scheme) outcome" where
  "trap_irq d tf s =
     (if tf_trapno tf = T_IRQ0 + IRQ_TIMER then trap_timer s
      else if tf_trapno tf = T_IRQ0 + IRQ_IDE then ideintr s
      else if tf_trapno tf = T_IRQ0 + IRQ_IDE + 1 then Ret () s
      else if tf_trapno tf = T_IRQ0 + IRQ_KBD then kbdintr (dev_kbd d) s
      else if tf_trapno tf = T_IRQ0 + IRQ_COM1 then uartintr (dev_uart d) s
      else if tf_trapno tf = T_IRQ0 + 7 \<or> tf_trapno tf = T_IRQ0 + IRQ_SPURIOUS then
        cprintf (lit ''cpu%d: spurious interrupt at %x:%x'' @ [NEWLINE])
          [ANum (of_nat (me s)), ANum (ucast (tf_cs tf)), ANum (tf_eip tf)] s
      else trap_default d tf s)"

text \<open>
  The end of \<^verbatim>\<open>trap\<close> on a clock tick gives the processor up; when the process runs again, \<open>trap_resume\<close> goes on after
  the call of \<^verbatim>\<open>yield\<close>, whose last action is to release the lock on the table.
\<close>

definition trap_tail :: "trapframe \<Rightarrow> 'x ft_scheme \<Rightarrow> (unit, 'x ft_scheme) outcome" where
  "trap_tail tf s =
     kbind (user_exit tf s) (\<lambda>_ s.
     kbind (case myproc s of None \<Rightarrow> Ret () s
            | Some p \<Rightarrow>
                if p_state (procs s ! p) = RUNNING \<and> tf_trapno tf = T_IRQ0 + IRQ_TIMER then yield s else Ret () s) (\<lambda>_ s.
     user_exit tf s))"

definition trap_resume :: "trapframe \<Rightarrow> 'x ft_scheme \<Rightarrow> (unit, 'x ft_scheme) outcome" where
  "trap_resume tf s = kbind (release LPtable s) (\<lambda>_ s. user_exit tf s)"

definition trap :: "devices \<Rightarrow> trapframe \<Rightarrow> 'x ft_scheme \<Rightarrow> (unit, 'x ft_scheme) outcome" where
  "trap d tf s =
     (if tf_trapno tf = T_SYSCALL then
        kbind (exit_if_killed s) (\<lambda>_ s.
        kbind (cur s) (\<lambda>p s.
        kbind (syscall (upd_proc p (\<lambda>q. q\<lparr>p_tf := tf\<rparr>) s)) (\<lambda>_ s.
        exit_if_killed s)))
      else kbind (trap_irq d tf s) (\<lambda>_ s. trap_tail tf s))"

end
