(* ===== verification/Lines.thy ===== *)
theory Lines
  imports Sysproc
begin

text \<open>
  The commands \<^verbatim>\<open>uniq\<close> and \<^verbatim>\<open>head\<close> of \<^verbatim>\<open>sysproc.c\<close> on a file, against references on lists of lines: what
  \<^verbatim>\<open>readline\<close> reads, and what the loops print.
\<close>

section \<open>Lines of a file\<close>

lemma takeWhile_take: "takeWhile P (take n xs) = take n (takeWhile P xs)"
  by (induction xs arbitrary: n) (auto simp: take_Cons split: nat.split)

lemma last_update_same: "last b = x \<Longrightarrow> last (b[k := x]) = x"
  by (cases "b = []") (auto simp: last_list_update)

lemma readline_scan_eq:
  assumes "terminated buf" "i \<le> j" "j \<le> length (cstr buf)" "\<And>k. i \<le> k \<Longrightarrow> k < j \<Longrightarrow> buf ! k \<noteq> NEWLINE \<and> k < n"
    "j = length (cstr buf) \<or> buf ! j = NEWLINE \<or> n \<le> j"
  shows "readline_scan n i buf = Some (j, buf[j := 0])"
  using assms(2,4)
proof (induction "j - i" arbitrary: i)
  case 0
  then have i: "i = j" by simp
  have z: "buf[length (cstr buf) := 0] = buf" using nth_length_cstr [OF assms(1)] by (metis list_update_id)
  show ?case using assms(1,3,5) i z
    by (subst readline_scan.simps) (auto simp: strlen_cstr)
next
  case (Suc d)
  then have i: "i < j" "i < length (cstr buf)" using assms(3) by auto
  have "readline_scan n i buf = readline_scan n (Suc i) buf"
    using assms(1) i Suc.prems(2) [of i] by (subst readline_scan.simps) (simp add: strlen_cstr)
  then show ?case using Suc.hyps(1) [of "Suc i"] Suc.hyps(2) Suc.prems i by simp
qed

lemma readi_file: "i_type (inodes s ! ip) \<noteq> T_DEV \<Longrightarrow> readi ip off n s = readi_ino ip off n s"
  by (simp add: readi_def)

text \<open>A file that a command can read: a plain one without NUL bytes.\<close>

definition text_file :: "'x fs_scheme \<Rightarrow> nat \<Rightarrow> bool" where
  "text_file s ip \<longleftrightarrow> file_ok (view s) (inodes s ! ip) \<and> i_type (inodes s ! ip) \<noteq> T_DEV \<and>
     0 \<notin> set (content (view s) (inodes s ! ip))"

lemma wp_readline:
  fixes s :: "'x ft_scheme"
  assumes r: "readable s" and f: "text_file s ip" and c: "c = content (view s) (inodes s ! ip)" and off: "off \<le> length c"
    and l: "l = takeWhile (\<lambda>x. x \<noteq> NEWLINE) (drop off c)" and len: "length l < 256"
    and buf: "min 256 (length c) < length buf" "last buf = 0"
    and Q: "\<And>b t. rd s t \<Longrightarrow> length b = length buf \<Longrightarrow> last b = 0 \<Longrightarrow> cstr b = l \<Longrightarrow> terminated b \<Longrightarrow> Q (int (length l), b) t"
  shows "wp (readline ip buf (int off) s) Q"
proof -
  define d where "d = take 256 (drop off c)"
  have z: "length c \<le> 71680" using f c by (simp add: text_file_def file_ok_def)
  have w: "(word_of_int (int off) :: u32) = of_nat off" by simp
  have res: "readi_result c (word_of_int (int off)) 256 = (int (length d), d)"
    using off z unfolding w by (simp add: readi_result_def Let_def d_def)
  define b0 where "b0 = blit 0 d buf"
  define b1 where "b1 = (if length d < 4 then b0[length d := 0] else b0)"
  have n: "length d < length buf" using buf(1) by (auto simp: d_def)
  have ne: "buf \<noteq> []" using n by auto
  have b0: "length b0 = length buf" "last b0 = 0" "\<And>k. k < length d \<Longrightarrow> b0 ! k = d ! k"
    using n buf(2) last_drop [of "length d" buf] by (auto simp: b0_def blit_def nth_append last_append)
  have b1: "length b1 = length buf" "last b1 = 0" "\<And>k. k < length d \<Longrightarrow> b1 ! k = d ! k"
    using b0 n by (auto simp: b1_def nth_list_update last_update_same)
  have t1: "terminated b1" using b1(1,2) ne by (metis last_in_set length_0_conv)
  have nul: "k < length d \<Longrightarrow> d ! k \<noteq> 0" for k
    using f c by (metis in_set_dropD in_set_takeD nth_mem text_file_def d_def)
  have cl: "length d \<le> length (cstr b1)"
  proof (rule ccontr)
    assume "\<not> length d \<le> length (cstr b1)"
    then have "length (cstr b1) < length d" by (simp only: not_le)
    then show False using nul b1(3) nth_length_cstr [OF t1] by metis
  qed
  have lt: "l = takeWhile (\<lambda>x. x \<noteq> NEWLINE) d"
    using len l by (simp add: takeWhile_take d_def)
  have jl: "length l \<le> length d" unfolding lt by (rule length_takeWhile_le)
  have scan: "readline_scan (length d) 0 b1 = Some (length l, b1[length l := 0])"
  proof (rule readline_scan_eq [OF t1])
    show "length l \<le> length (cstr b1)" using jl cl by simp
    fix k assume "k < length l"
    then show "b1 ! k \<noteq> NEWLINE \<and> k < length d"
      using b1(3) [of k] jl nth_mem [of k l] set_takeWhileD [of "l ! k" "\<lambda>x. x \<noteq> NEWLINE" d] takeWhile_nth [of k "\<lambda>x. x \<noteq> NEWLINE" d]
      by (auto simp: lt [symmetric])
  next
    show "length l = length (cstr b1) \<or> b1 ! length l = NEWLINE \<or> length d \<le> length l"
      using b1(3) [of "length l"] nth_length_takeWhile [of "\<lambda>x. x \<noteq> NEWLINE" d] lt by force
  qed simp
  let ?b = "b1[length l := 0]"
  have lb: "length l < length b1" using jl n b1(1) by simp
  have "l = take (length l) b1"
    using jl n b1 by (intro nth_equalityI) (auto simp: lt takeWhile_nth)
  then have e: "?b = l @ 0 # drop (Suc (length l)) b1" using lb by (metis upd_conv_take_nth_drop)
  have "0 \<notin> set l" using nul lt by (metis in_set_conv_nth set_takeWhileD)
  then have cb: "cstr ?b = l" unfolding e by simp
  have lastb: "last ?b = 0" using b1(2) lb by (simp add: last_update_same)
  have "wp (readi ip (word_of_int (int off)) 256 s) (\<lambda>x t. x = (int (length d), d) \<and> rd s t)"
    using f unfolding text_file_def
    by (subst readi_file) (auto intro!: wp_readi_ino [OF r] simp: res [unfolded w] simp flip: c)
  moreover have "rd s t \<Longrightarrow> Q (int (length l), ?b) t" for t
    using Q [of t ?b] cb lastb b1(1) lb by (simp add: set_update_memI)
  moreover have "(let buf = b0 in if int (length d) < 0 then Ret (-1, buf) t
      else let buf = (if int (length d) < 4 then buf[nat (int (length d)) := 0] else buf) in
        case readline_scan (nat (int (length d))) 0 buf of None \<Rightarrow> undef | Some (i, buf) \<Rightarrow> Ret (int i, buf) t)
     = Ret (int (length l), ?b) t" for t :: "'x ft_scheme"
    using scan by (cases "length d < 4") (simp_all add: Let_def b1_def)
  ultimately show ?thesis
    unfolding readline_def wp_kbind by (elim wp_mono) (auto simp flip: b0_def)
qed

lemma wp_readline_end:
  fixes s :: "'x ft_scheme"
  assumes r: "readable s" and f: "text_file s ip" and off: "off = length (content (view s) (inodes s ! ip)) + 1"
    and Q: "\<And>t. rd s t \<Longrightarrow> Q (-1, buf) t"
  shows "wp (readline ip buf (int off) s) Q"
proof -
  have z: "off \<le> 71681" using f off by (simp add: text_file_def file_ok_def)
  have w: "(word_of_int (int off) :: u32) = of_nat off" by simp
  have "unat (of_nat off :: u32) = off" using z by simp
  then have res: "readi_result (content (view s) (inodes s ! ip)) (of_nat off) 256 = (-1, [])"
    unfolding readi_result_def by (simp only:) (simp add: off)
  have "wp (readi ip (word_of_int (int off)) 256 s) (\<lambda>x t. x = (-1, []) \<and> rd s t)"
    using f unfolding text_file_def
    by (subst readi_file) (auto intro!: wp_readi_ino [OF r] simp: w res)
  then show ?thesis
    unfolding readline_def wp_kbind by (elim wp_mono) (auto simp: Let_def blit_def Q)
qed

section \<open>Printing lines\<close>

text \<open>
  What the loops over the lines keep: the file can be read, the console works, and the path may take the console
  lock.
\<close>

definition printing :: "'x fs_scheme \<Rightarrow> nat \<Rightarrow> bool" where
  "printing s ip \<longleftrightarrow> readable s \<and> text_file s ip \<and> cons_ok (cons s) \<and> LCons \<notin> set (held s)"

text \<open>What they change: the cache, and the text \<open>out\<close> goes to the console.\<close>

definition prints :: "bytes \<Rightarrow> 'x fs_scheme \<Rightarrow> 'x fs_scheme \<Rightarrow> bool" where
  "prints out s t \<longleftrightarrow> (\<exists>k. rd (s\<lparr>cons := k\<rparr>) t \<and> printed out (cons s) k)"

lemma readable_cons [simp]: "readable (s\<lparr>cons := k\<rparr>) = readable s" "view (s\<lparr>cons := k\<rparr>) = view s"
  by (simp_all add: readable_def bio_inv_def running_def curproc_def myproc_def view_def dirtyset_def)

lemma rd_cons: "rd s t \<Longrightarrow> rd (s\<lparr>cons := k\<rparr>) (t\<lparr>cons := k\<rparr>)"
proof -
  assume "rd s t"
  moreover have "bio_inv (t\<lparr>cons := k\<rparr>) {} = bio_inv t {}" "dirtyset (t\<lparr>cons := k\<rparr>) = dirtyset t" "dirtyset (s\<lparr>cons := k\<rparr>) = dirtyset s"
    by (simp_all add: bio_inv_def running_def curproc_def myproc_def dirtyset_def)
  moreover have "bframe (s\<lparr>cons := k\<rparr>) (t\<lparr>cons := k\<rparr>)"
  proof -
    obtain ps bs where "t = s\<lparr>procs := ps, bufs := bs\<rparr>" "woken (procs s) ps" using \<open>rd s t\<close> by (auto simp: rd_def bframe_def)
    then have "t\<lparr>cons := k\<rparr> = s\<lparr>cons := k, procs := ps, bufs := bs\<rparr>" "woken (procs (s\<lparr>cons := k\<rparr>)) ps" by simp_all
    then show ?thesis unfolding bframe_def by blast
  qed
  ultimately show ?thesis by (simp add: rd_def)
qed

lemma cons_cons [simp]: "s\<lparr>cons := cons s\<rparr> = s"
  by simp

lemma prints_rd: "rd s t \<Longrightarrow> cons_ok (cons s) \<Longrightarrow> prints [] s t"
  unfolding prints_def by (rule exI [of _ "cons s"]) (simp add: printed_def)

lemma prints_trans: "prints a s t \<Longrightarrow> prints b t u \<Longrightarrow> prints (a @ b) s u"
proof -
  assume "prints a s t" "prints b t u"
  then obtain k l where k: "rd (s\<lparr>cons := k\<rparr>) t" "printed a (cons s) k" and l: "rd (t\<lparr>cons := l\<rparr>) u" "printed b (cons t) l"
    by (auto simp: prints_def)
  have "rd (s\<lparr>cons := l\<rparr>) (t\<lparr>cons := l\<rparr>)" using rd_cons [OF k(1), of l] by simp
  then have "rd (s\<lparr>cons := l\<rparr>) u" using l(1) by (rule rd_trans)
  moreover have "cons t = k" using rd_fs(4) [OF k(1)] by simp
  ultimately show ?thesis using printed_trans [OF k(2)] l(2) by (auto simp: prints_def)
qed

lemma prints_fs:
  assumes "prints out s t"
  shows "inodes t = inodes s" "view t = view s" "held t = held s" "cons_ok (cons t)"
proof -
  obtain k where k: "rd (s\<lparr>cons := k\<rparr>) t" "printed out (cons s) k" using assms by (auto simp: prints_def)
  show "inodes t = inodes s" "view t = view s" "held t = held s" using rd_fs [OF k(1)] by simp_all
  show "cons_ok (cons t)" using rd_fs(4) [OF k(1)] k(2) by (simp add: printed_def)
qed

lemma prints_printing: "prints out s t \<Longrightarrow> printing s ip \<Longrightarrow> printing t ip"
  using prints_fs [of out s t]
  by (auto simp: printing_def text_file_def prints_def intro: rd_readable)

lemma wp_print:
  assumes "printing s ip" "rendered fmt args = Some out" "\<And>t. prints out s t \<Longrightarrow> Q () t"
  shows "wp (cprintf fmt args s) Q"
proof (rule wp_cprintf [OF _ _ assms(2)])
  fix k assume "printed out (cons s) k"
  then show "Q () (s\<lparr>cons := k\<rparr>)"
    using assms(1) by (intro assms(3)) (auto simp: prints_def printing_def intro!: exI [of _ k])
qed (use assms(1) in \<open>auto simp: printing_def\<close>)

lemma wp_put_line:
  assumes "printing s ip" "terminated a" "\<And>t. prints (cstr a @ [NEWLINE]) s t \<Longrightarrow> Q () t"
  shows "wp (put_line a s) Q"
  using assms by (auto simp: put_line_def strlen_cstr cstr_def takeWhile_eq_take [symmetric] of_char_def intro!: wp_print)

lemma wp_put_count_line:
  assumes "printing s ip" "terminated a" "n < 2 ^ 31"
    "\<And>t. prints (show_num 10 (int n) @ lit ''  '' @ cstr a @ [NEWLINE]) s t \<Longrightarrow> Q () t"
  shows "wp (put_count_line (int n) a s) Q"
  using assms sint_small [OF assms(3)]
  by (auto simp: put_count_line_def strlen_cstr cstr_def takeWhile_eq_take [symmetric] of_char_def intro!: wp_print)

lemma mode_flags: "uniq_flags_of (mode_flag m @ [0]) = Some (mode_flags m)"
  by (cases m) (simp_all add: uniq_flags_of_def mode_flag_def mode_flags_def str_eq_def of_char_def)

text \<open>The kernel prints lines on the console.\<close>

interpretation kp: line_printer put_line put_count_line "cprintf [NEWLINE] []" "\<lambda>s. printing s ip" prints for ip
  by unfold_locales (auto simp: printing_def intro: prints_rd wp_put_line wp_put_count_line wp_print)

lemma wp_uniq_file_loop:
  fixes s :: "'x ft_scheme"
  assumes "printing s ip" "uniq_rel u (p, n, r)" "c = content (view s) (inodes s ! ip)" "length c < 256"
    "i \<le> length c + 1" "[] \<notin> set (lines_of (drop i c))" "n + (length c + 1 - i) < 2 ^ 31"
    "\<And>t. prints (urun m (p, n, r) (lines_of (drop i c))) s t \<Longrightarrow> Q () t"
  shows "wp (uniq_file_loop (mode_flags m) ip (int i) u s) (\<lambda>v t. wp (uniq_last put_line put_count_line (cprintf [NEWLINE] []) (mode_flags m) v t) Q)"
  using assms
proof (induction "length c + 1 - i" arbitrary: i u p n r s Q rule: less_induct)
  case less
  note pr = less.prems(1) and u = less.prems(2) and c = less.prems(3) and Q = less.prems(8)
  have rf: "readable s" "text_file s ip" "cons_ok (cons s)" using pr by (auto simp: printing_def)
  have cur: "line_array (current_line u)" using u by (simp add: uniq_rel_def)
  let ?k = "\<lambda>(bytesRead, buf) t. wp (let u = u\<lparr>current_line := buf\<rparr> in if bytesRead > 0 then
       if int i + bytesRead + 1 < 2 ^ 31 then kbind (uniq_line put_line put_count_line (mode_flags m) u t)
         (\<lambda>u s. uniq_file_loop (mode_flags m) ip (int i + bytesRead + 1) u s) else undef else Ret u t)
       (\<lambda>v t. wp (uniq_last put_line put_count_line (cprintf [NEWLINE] []) (mode_flags m) v t) Q)"
  have fin: "wp (uniq_last put_line put_count_line (cprintf [NEWLINE] []) (mode_flags m) (u\<lparr>current_line := b\<rparr>) t) Q"
    if "rd s t" "line_array b" "lines_of (drop i c) = []" for b t
  proof (rule kp.wp_uniq_last)
    have p: "prints [] s t" by (rule prints_rd [OF that(1) rf(3)])
    show "printing t ip" by (rule prints_printing [OF p pr])
    show "uniq_rel (u\<lparr>current_line := b\<rparr>) (p, n, r)" using u that(2) by (simp add: uniq_rel_def)
    show "n < 2 ^ 31" using less.prems(7) by simp
    fix t' assume "prints (urun m (p, n, r) []) t t'"
    then show "Q () t'" using prints_trans [OF p] that(3) by (intro Q) auto
  qed
  have "wp (readline ip (current_line u) (int i) s) ?k"
  proof (cases "i \<le> length c")
    case False
    then have "i = length c + 1" using less.prems(5) by simp
    then show ?thesis using fin [OF _ cur] by (intro wp_readline_end [OF rf(1,2)]) (auto simp: c)
  next
    case True
    define l where "l = takeWhile (\<lambda>x. x \<noteq> NEWLINE) (drop i c)"
    have ll: "length l \<le> length c - i" unfolding l_def by (metis length_drop length_takeWhile_le)
    have buf: "min 256 (length c) < length (current_line u)" "last (current_line u) = 0"
      using cur less.prems(4) by (auto simp: line_array_def)
    show ?thesis
    proof (rule wp_readline [OF rf(1,2) c True l_def _ buf])
      show "length l < 256" using ll less.prems(4) by simp
      fix b t assume b: "rd s t" "length b = length (current_line u)" "last b = 0" "cstr b = l" "terminated b"
      have arr: "line_array b" using b cur by (simp add: line_array_def)
      have p: "prints [] s t" by (rule prints_rd [OF b(1) rf(3)])
      have prt: "printing t ip" by (rule prints_printing [OF p pr])
      show "?k (int (length l), b) t"
      proof (cases "i < length c")
        case False
        then have "l = []" "drop i c = []" by (auto simp: l_def)
        then show ?thesis using fin [OF b(1) arr] by simp
      next
        case lt: True
        have lo: "lines_of (drop i c) = l # lines_of (drop (i + length l + 1) c)" by (rule lines_of_drop [OF lt l_def])
        then have ne: "l \<noteq> []" using less.prems(6) by auto
        let ?u = "u\<lparr>current_line := b\<rparr>" and ?st = "ustep m (p, n, r) l"
        have "wp (uniq_line put_line put_count_line (mode_flags m) ?u t) (\<lambda>u s. wp (uniq_file_loop (mode_flags m) ip (int i + int (length l) + 1) u s)
            (\<lambda>v t. wp (uniq_last put_line put_count_line (cprintf [NEWLINE] []) (mode_flags m) v t) Q))"
        proof (rule kp.wp_uniq_line [OF prt])
          show "uniq_rel ?u (p, n, r)" using u arr by (simp add: uniq_rel_def)
          show "n + 1 < 2 ^ 31" using less.prems(7) lt by simp
          show "cstr (current_line ?u) = l" using b(4) by simp
          fix v t' assume v: "prints (snd ?st) t t'" "uniq_rel v (fst ?st)"
          obtain p' n' r' where st: "fst ?st = (p', n', r')" by (cases "fst ?st")
          have n': "n' \<le> n + 1" using st by (auto split: if_splits)
          have t': "prints (snd ?st) s t'" using prints_trans [OF p v(1)] by simp
          have "wp (uniq_file_loop (mode_flags m) ip (int (i + length l + 1)) v t') (\<lambda>v t. wp (uniq_last put_line put_count_line (cprintf [NEWLINE] []) (mode_flags m) v t) Q)"
          proof (rule less.hyps)
            show "length c + 1 - (i + length l + 1) < length c + 1 - i" using lt by simp
            show "printing t' ip" by (rule prints_printing [OF t' pr])
            show "uniq_rel v (p', n', r')" using v st by simp
            show "c = content (view t') (inodes t' ! ip)" using c prints_fs [OF t'] by simp
            show "length c < 256" by (rule less.prems(4))
            show "i + length l + 1 \<le> length c + 1" using ll lt by simp
            show "[] \<notin> set (lines_of (drop (i + length l + 1) c))" using less.prems(6) lo by simp
            show "n' + (length c + 1 - (i + length l + 1)) < 2 ^ 31" using n' less.prems(7) lt ne by (cases l) auto
            fix w assume "prints (urun m (p', n', r') (lines_of (drop (i + length l + 1) c))) t' w"
            then show "Q () w" using prints_trans [OF t'] lo st by (intro Q) simp
          qed
          then show "wp (uniq_file_loop (mode_flags m) ip (int i + int (length l) + 1) v t')
            (\<lambda>v t. wp (uniq_last put_line put_count_line (cprintf [NEWLINE] []) (mode_flags m) v t) Q)" by (simp add: algebra_simps)
        qed
        moreover have "int i + int (length l) + 1 < 2 ^ 31" using ll lt less.prems(4) by simp
        ultimately show ?thesis using ne by (simp add: Let_def)
      qed
    qed
  qed
  then show ?case
    by (subst uniq_file_loop.simps) (simp add: case_prod_unfold)
qed

section \<open>The loop of head\<close>

definition text_of :: "bytes list \<Rightarrow> bytes" where
  "text_of ls = concat (map (\<lambda>l. l @ [NEWLINE]) ls)"

lemma wp_head_file_loop:
  fixes s :: "'x ft_scheme"
  assumes "printing s ip" "c = content (view s) (inodes s ! ip)" "i \<le> length c + 1"
    "\<And>l. l \<in> set (lines_of (drop i c)) \<Longrightarrow> l \<noteq> [] \<and> length l < 256" "length buf = 1024" "last buf = 0"
    "\<And>t. prints (text_of (take (nat (N + 1 - k)) (lines_of (drop i c)))) s t \<Longrightarrow> Q () t"
  shows "wp (head_file_loop ip N k (int i) buf s) Q"
  using assms
proof (induction "nat (N + 1 - k)" arbitrary: k i buf s Q rule: less_induct)
  case less
  note pr = less.prems(1) and c = less.prems(2) and Q = less.prems(7)
  have rf: "readable s" "text_file s ip" "cons_ok (cons s)" using pr by (auto simp: printing_def)
  have z: "length c \<le> 71680" using rf c by (simp add: text_file_def file_ok_def)
  show ?case
  proof (cases "k \<le> N")
    case False
    have "prints [] s s" using rf by (auto intro: prints_rd)
    then show ?thesis using False Q by (subst head_file_loop.simps) (simp add: text_of_def)
  next
    case True
    let ?k = "\<lambda>(bytesRead, line) t. wp (if bytesRead > 0 then if int i + bytesRead + 1 \<ge> 2 ^ 31 then undef
        else kbind (put_line line t) (\<lambda>_ s. head_file_loop ip N (k + 1) (int i + bytesRead + 1) line s) else Ret () t) Q"
    have fin: "Q () t" if "rd s t" "lines_of (drop i c) = []" for t
      using prints_rd [OF that(1) rf(3)] that(2) by (intro Q) (simp add: text_of_def)
    have "wp (readline ip buf (int i) s) ?k"
    proof (cases "i \<le> length c")
      case False
      then have "i = length c + 1" using less.prems(3) by simp
      then show ?thesis using fin by (intro wp_readline_end [OF rf(1,2)]) (auto simp: c)
    next
      case le: True
      define l where "l = takeWhile (\<lambda>x. x \<noteq> NEWLINE) (drop i c)"
      have ll: "length l \<le> length c - i" unfolding l_def by (metis length_drop length_takeWhile_le)
      have lo: "i < length c \<Longrightarrow> lines_of (drop i c) = l # lines_of (drop (i + length l + 1) c)"
        by (rule lines_of_drop [OF _ l_def])
      have short: "length l < 256" using lo less.prems(4) le by (cases "i < length c") (auto simp: l_def)
      have buf: "min 256 (length c) < length buf" using less.prems(5) by simp
      show ?thesis
      proof (rule wp_readline [OF rf(1,2) c le l_def short buf less.prems(6)])
        fix b t assume b: "rd s t" "length b = length buf" "last b = 0" "cstr b = l" "terminated b"
        have p: "prints [] s t" by (rule prints_rd [OF b(1) rf(3)])
        have prt: "printing t ip" by (rule prints_printing [OF p pr])
        show "?k (int (length l), b) t"
        proof (cases "i < length c")
          case False
          then have "l = []" "drop i c = []" by (auto simp: l_def)
          then show ?thesis using fin [OF b(1)] by simp
        next
          case lt: True
          have ne: "l \<noteq> []" using less.prems(4) lo [OF lt] by auto
          have "wp (put_line b t) (\<lambda>_ s. wp (head_file_loop ip N (k + 1) (int i + int (length l) + 1) b s) Q)"
          proof (rule wp_put_line [OF prt b(5)])
            fix t' assume "prints (cstr b @ [NEWLINE]) t t'"
            then have t': "prints (l @ [NEWLINE]) s t'" using prints_trans [OF p] b(4) by auto
            have "wp (head_file_loop ip N (k + 1) (int (i + length l + 1)) b t') Q"
            proof (rule less.hyps)
              show "nat (N + 1 - (k + 1)) < nat (N + 1 - k)" using True by simp
              show "printing t' ip" by (rule prints_printing [OF t' pr])
              show "c = content (view t') (inodes t' ! ip)" using c prints_fs [OF t'] by simp
              show "i + length l + 1 \<le> length c + 1" using ll lt by simp
              show "length b = 1024" "last b = 0" using b less.prems(5) by auto
              fix l' assume "l' \<in> set (lines_of (drop (i + length l + 1) c))"
              then show "l' \<noteq> [] \<and> length l' < 256" using less.prems(4) lo [OF lt] by auto
            next
              fix w assume w: "prints (text_of (take (nat (N + 1 - (k + 1))) (lines_of (drop (i + length l + 1) c)))) t' w"
              have "nat (N + 1 - k) = Suc (nat (N + 1 - (k + 1)))" using True by simp
              then show "Q () w" using prints_trans [OF t' w] lo [OF lt] by (intro Q) (simp add: text_of_def)
            qed
            then show "wp (head_file_loop ip N (k + 1) (int i + int (length l) + 1) b t') Q" by (simp add: algebra_simps)
          qed
          moreover have "\<not> int i + int (length l) + 1 \<ge> 2 ^ 31" using ll lt z by simp
          ultimately show ?thesis using ne by simp
        qed
      qed
    qed
    then show ?thesis using True by (subst head_file_loop.simps) (simp add: case_prod_unfold)
  qed
qed

section \<open>A transaction that writes nothing\<close>

lemma end_op_clean:
  assumes "running s" "log_outstanding s = 1" "\<not> log_committing s" "lh_n s = 0"
  shows "end_op s = Ret () (s\<lparr>log_outstanding := 0, procs := wake ChLog (procs s)\<rparr>)"
  using assms running_held [OF assms(1)]
  by (auto simp: end_op_def commit_def Let_def intro!: log.equality)

text \<open>The state inside such a transaction, started from \<open>s\<close>: nothing is logged.\<close>

definition clean_tx :: "'x log_scheme \<Rightarrow> bool" where
  "clean_tx s \<longleftrightarrow> log_outstanding s = 1 \<and> \<not> log_committing s \<and> lh_n s = 0"

lemma log_keep [simp]:
  "readable (s\<lparr>log_outstanding := n\<rparr>) = readable s" "view (s\<lparr>log_outstanding := n\<rparr>) = view s"
  "curproc (s\<lparr>log_outstanding := n\<rparr>) = curproc s" "dirtyset (s\<lparr>log_outstanding := n\<rparr>) = dirtyset s"
  by (simp_all add: readable_def bio_inv_def running_def curproc_def myproc_def view_def dirtyset_def)

lemma clean_cached: "cached s t \<Longrightarrow> clean_tx s \<Longrightarrow> clean_tx t"
  by (auto simp: cached_def rd_def bframe_def clean_tx_def)

lemma clean_prints: "prints out s t \<Longrightarrow> clean_tx s \<Longrightarrow> clean_tx t"
  by (auto simp: prints_def rd_def bframe_def clean_tx_def)

lemma fs_inv_prints:
  assumes "prints out s t" "fs_inv s L"
  shows "fs_inv t L" "refs (inodes t) = refs (inodes s)"
proof -
  obtain k where k: "rd (s\<lparr>cons := k\<rparr>) t" using assms(1) by (auto simp: prints_def)
  have "fs_inv (s\<lparr>cons := k\<rparr>) L" using assms(2) by (simp add: fs_inv_def curproc_def myproc_def)
  then show "fs_inv t L" by (rule fs_inv_rd [OF k])
  show "refs (inodes t) = refs (inodes s)" using prints_fs(1) [OF assms(1)] by simp
qed

lemma wp_begin_read:
  fixes s :: "'x fs_scheme"
  assumes "idle s" "fs_inv s {}"
    and Q: "\<And>t. t = s\<lparr>log_outstanding := 1\<rparr> \<Longrightarrow> clean_tx t \<Longrightarrow> fs_inv t {} \<Longrightarrow> Q () t"
  shows "wp (begin_op s) Q"
  using assms by (intro wp_begin_op [OF assms(1)] Q) (auto simp: clean_tx_def idle_def fs_inv_def)

lemma wp_end_read:
  fixes s :: "'x fs_scheme"
  assumes "clean_tx s" "fs_inv s {}"
    and Q: "\<And>t. fs_inv t {} \<Longrightarrow> view t = view s \<Longrightarrow> cons t = cons s \<Longrightarrow> inodes t = inodes s \<Longrightarrow> held t = [] \<Longrightarrow> sb t = sb s \<Longrightarrow> Q () t"
  shows "wp (end_op s) Q"
proof -
  have r: "readable s" and run: "running s" using assms(2) by (auto simp: fs_inv_def dest: readable_running)
  let ?t = "s\<lparr>procs := wake ChLog (procs s)\<rparr>"
  have "fs_inv ?t {}" by (rule fs_inv_rd [OF rd_wake [OF r] assms(2)])
  then have "fs_inv (?t\<lparr>log_outstanding := 0\<rparr>) {}" by (simp add: fs_inv_def)
  moreover have "view ?t = view s" by (simp add: view_def)
  ultimately have "Q () (?t\<lparr>log_outstanding := 0\<rparr>)" using running_held [OF run] by (intro Q) simp_all
  moreover have "end_op s = Ret () (?t\<lparr>log_outstanding := 0\<rparr>)"
    using end_op_clean [OF run] assms(1) by (simp add: clean_tx_def)
  ultimately show ?thesis by simp
qed

section \<open>The commands on a path\<close>

text \<open>When a command can run: no transaction is open, the path can be resolved and the console works.\<close>

definition command_ok :: "'x fs_scheme \<Rightarrow> u32 set \<Rightarrow> bytes \<Rightarrow> bool" where
  "command_ok s S path \<longleftrightarrow> idle s \<and> fs_inv s {} \<and> tree_ok (view s) (sb s) S \<and> path_start s path \<in> S \<and> start_ok s path \<and>
     card {m. 0 < refs (inodes s) m} + 2 \<le> NINODE \<and> 0 \<notin> set path \<and> cons_ok (cons s)"

definition target :: "'x fs_scheme \<Rightarrow> bytes \<Rightarrow> u32 option" where
  "target s path = walk_path (view s) (sb s) (path_start s path) (path_elems path)"

lemma walk_in_tree:
  "tree_ok v sp S \<Longrightarrow> n \<in> S \<Longrightarrow> walk_path v sp n es = Some m \<Longrightarrow> m \<in> S"
  by (induction es arbitrary: n) (auto simp: tree_ok_def split: option.splits if_splits)

text \<open>The common frame of the two commands: look the path up, lock the inode, run \<open>body\<close>, unlock it.\<close>

lemma wp_command:
  fixes s :: "'x ft_scheme" and body :: "nat \<Rightarrow> 'x ft_scheme \<Rightarrow> (unit, 'x ft_scheme) outcome"
  assumes ok: "command_ok s S path"
    and none: "rendered msg [] = Some out0"
    and plain: "\<And>n. target s path = Some n \<Longrightarrow> file_ok (view s) (disk_inode (view s) (sb s) n) \<and>
      i_type (disk_inode (view s) (sb s) n) \<noteq> T_DEV \<and> 0 \<notin> set (content (view s) (disk_inode (view s) (sb s) n))"
    and body: "\<And>n ip t R. target s path = Some n \<Longrightarrow> printing t ip \<Longrightarrow>
      content (view t) (inodes t ! ip) = content (view s) (disk_inode (view s) (sb s) n) \<Longrightarrow>
      (\<And>u. prints (out n) t u \<Longrightarrow> R () u) \<Longrightarrow> wp (body ip t) R"
  shows "wp (kbind (begin_op s) (\<lambda>_ s. kbind (namei path s) (\<lambda>r s.
     case r of
       None \<Rightarrow> kbind (end_op s) (\<lambda>_ s. kbind (cprintf msg [] s) (\<lambda>_ s. Ret (-1) s))
     | Some ip \<Rightarrow>
         kbind (ilock (Some ip) s) (\<lambda>_ s. kbind (body ip s) (\<lambda>_ s.
         kbind (iunlock (Some ip) s) (\<lambda>_ s. kbind (end_op s) (\<lambda>_ s. Ret ret s)))))))
    (\<lambda>r t. fs_inv t {} \<and> view t = view s \<and> (case target s path of
       None \<Rightarrow> r = -1 \<and> printed out0 (cons s) (cons t) \<and> refs (inodes t) = refs (inodes s)
     | Some n \<Rightarrow> r = ret \<and> printed (out n) (cons s) (cons t) \<and> refs (inodes t) = (refs (inodes s))(n := refs (inodes s) n + 1)))"
    (is "wp _ ?P")
proof -
  have idl: "idle s" and inv: "fs_inv s {}" and tree: "tree_ok (view s) (sb s) S" and st: "path_start s path \<in> S" "start_ok s path"
    and room: "card {m. 0 < refs (inodes s) m} + 2 \<le> NINODE" and nul: "0 \<notin> set path" and co: "cons_ok (cons s)"
    using ok by (auto simp: command_ok_def)
  show ?thesis
    unfolding wp_kbind
  proof (rule wp_begin_read [OF idl inv])
    fix s1 assume s1: "s1 = s\<lparr>log_outstanding := 1\<rparr>" "clean_tx s1" "fs_inv s1 {}"
    have e: "view s1 = view s" "sb s1 = sb s" "inodes s1 = inodes s" "cons s1 = cons s" "path_start s1 path = path_start s path"
      "start_ok s1 path = start_ok s path" by (simp_all add: s1(1) path_start_def start_ok_def)
    show "wp (namei path s1) (\<lambda>r s. wp (case r of
       None \<Rightarrow> kbind (end_op s) (\<lambda>_ s. kbind (cprintf msg [] s) (\<lambda>_ s. Ret (-1) s))
     | Some ip \<Rightarrow>
         kbind (ilock (Some ip) s) (\<lambda>_ s. kbind (body ip s) (\<lambda>_ s.
         kbind (iunlock (Some ip) s) (\<lambda>_ s. kbind (end_op s) (\<lambda>_ s. Ret ret s))))) ?P)"
    proof (rule wp_namei [OF s1(3)])
      show "tree_ok (view s1) (sb s1) S" "path_start s1 path \<in> S" "start_ok s1 path" "0 \<notin> set path"
        "card {m. 0 < refs (inodes s1) m} + 2 \<le> NINODE" using tree st room nul e by simp_all
      fix r t assume t: "cached s1 t" "fs_inv t {}"
        and res: "case walk_path (view s1) (sb s1) (path_start s1 path) (path_elems path) of
          None \<Rightarrow> r = None \<and> refs (inodes t) = refs (inodes s1)
        | Some m \<Rightarrow> (\<exists>ip<NINODE. r = Some ip \<and> i_inum (inodes t ! ip) = m \<and> 0 < i_ref (inodes t ! ip) \<and>
            refs (inodes t) = (refs (inodes s1))(m := refs (inodes s1) m + 1))"
      note f = cached_fs [OF t(1)] and ct = clean_cached [OF t(1) s1(2)]
      have tg: "walk_path (view s1) (sb s1) (path_start s1 path) (path_elems path) = target s path" by (simp add: target_def e)
      show "wp (case r of
         None \<Rightarrow> kbind (end_op t) (\<lambda>_ s. kbind (cprintf msg [] s) (\<lambda>_ s. Ret (-1) s))
       | Some ip \<Rightarrow>
           kbind (ilock (Some ip) t) (\<lambda>_ s. kbind (body ip s) (\<lambda>_ s.
           kbind (iunlock (Some ip) s) (\<lambda>_ s. kbind (end_op s) (\<lambda>_ s. Ret ret s))))) ?P"
      proof (cases "target s path")
        case None
        have "wp (end_op t) (\<lambda>_ s. wp (cprintf msg [] s) (\<lambda>_ s. ?P (-1) s))"
        proof (rule wp_end_read [OF ct t(2)])
          fix u :: "'x ft_scheme" assume u: "fs_inv u {}" "view u = view t" "cons u = cons t" "inodes u = inodes t" "held u = []"
          show "wp (cprintf msg [] u) (\<lambda>_ s. ?P (-1) s)"
          proof (rule wp_cprintf [OF _ _ none])
            show "cons_ok (cons u)" "LCons \<notin> set (held u)" using co u f e by simp_all
            fix k assume "printed out0 (cons u) k"
            then show "?P (-1) (u\<lparr>cons := k\<rparr>)"
              using None res tg u f e by (simp add: fs_inv_def curproc_def myproc_def)
          qed
        qed
        then show ?thesis using None res tg by simp
      next
        case (Some n)
        then obtain ip where ip: "ip < NINODE" "r = Some ip" "i_inum (inodes t ! ip) = n" "0 < i_ref (inodes t ! ip)"
          "refs (inodes t) = (refs (inodes s))(n := refs (inodes s) n + 1)" using res tg e by auto
        have nS: "n \<in> S" using walk_in_tree [OF tree st(1)] Some by (simp add: target_def)
        then have ld: "loadable (view t) (sb t) (i_inum (inodes t ! ip))" using tree ip f e by (auto simp: tree_ok_def)
        have "wp (ilock (Some ip) t) (\<lambda>_ s. wp (body ip s) (\<lambda>_ s. wp (iunlock (Some ip) s) (\<lambda>_ s. wp (end_op s) (\<lambda>_ s. ?P ret s))))"
        proof (rule wp_fs_ilock [OF t(2) ip(1) _ ip(4) ld])
          fix u assume u: "cached t u" "fs_inv u (insert ip {})" "refs (inodes u) = refs (inodes t)"
            "\<And>j. j < NINODE \<Longrightarrow> i_inum (inodes u ! j) = i_inum (inodes t ! j) \<and> i_ref (inodes u ! j) = i_ref (inodes t ! j)"
          note fu = cached_fs [OF u(1)] and cu = clean_cached [OF u(1) ct]
          have core: "icore (inodes u ! ip) = icore (disk_inode (view s) (sb s) n)"
            using fs_inv_locked(1) [OF u(2) _ ip(1)] u(4) [OF ip(1)] ip(3) fu f e by simp
          have pr: "printing u ip"
            using plain [OF Some] icore_content [OF core] icore_fields(1) [OF core] u(2) fu f e co fs_inv_held [OF u(2)]
            by (simp add: printing_def text_file_def fs_inv_def)
          show "wp (body ip u) (\<lambda>_ s. wp (iunlock (Some ip) s) (\<lambda>_ s. wp (end_op s) (\<lambda>_ s. ?P ret s)))"
          proof (rule body [OF Some pr])
            show "content (view u) (inodes u ! ip) = content (view s) (disk_inode (view s) (sb s) n)"
              using icore_content(1) [OF core] fu f e by simp
            fix w assume w: "prints (out n) u w"
            note fw = prints_fs [OF w] and iw = fs_inv_prints [OF w u(2)] and cw = clean_prints [OF w cu]
            have pd: "printed (out n) (cons s) (cons w)"
            proof -
              obtain k where "rd (u\<lparr>cons := k\<rparr>) w" "printed (out n) (cons u) k" using w by (auto simp: prints_def)
              then show ?thesis using rd_fs(4) [of "u\<lparr>cons := k\<rparr>" w] fu f e by simp
            qed
            show "wp (iunlock (Some ip) w) (\<lambda>_ s. wp (end_op s) (\<lambda>_ s. ?P ret s))"
            proof (rule wp_fs_iunlock [OF iw(1) ip(1)])
              fix x assume x: "cached w x" "fs_inv x (insert ip {} - {ip})" "refs (inodes x) = refs (inodes w)"
              note fx = cached_fs [OF x(1)]
              have ix: "fs_inv x {}" using x(2) by simp
              show "wp (end_op x) (\<lambda>_ s. ?P ret s)"
                by (rule wp_end_read [OF clean_cached [OF x(1) cw] ix])
                  (use Some fx fw fu f e pd x(3) iw(2) u(3) ip(5) in simp)
            qed simp
          qed
        qed simp
        then show ?thesis using ip(2) by simp
      qed
    qed
  qed
qed

definition file_text :: "'x fs_scheme \<Rightarrow> u32 \<Rightarrow> bytes" where
  "file_text s n = content (view s) (disk_inode (view s) (sb s) n)"

text \<open>An inode that is a plain file without NUL bytes.\<close>

definition plain_text :: "'x fs_scheme \<Rightarrow> u32 \<Rightarrow> bool" where
  "plain_text s n \<longleftrightarrow> file_ok (view s) (disk_inode (view s) (sb s) n) \<and> i_type (disk_inode (view s) (sb s) n) \<noteq> T_DEV \<and>
     0 \<notin> set (file_text s n)"

text \<open>The sample disk again, in a state that can run the commands.\<close>

lemma sample_ft:
  "idle (ft_on sample_disk)" "fs_inv (ft_on sample_disk) {}" "view (ft_on sample_disk) = sample_disk"
  "refs (inodes (ft_on sample_disk)) = (\<lambda>_. 0)" "sb (ft_on sample_disk) = sb_boot" "cons (ft_on sample_disk) = cons_boot"
proof -
  have "le32 0 (sample_disk 2) = 0" by (simp add: sample_disk_def le32_def)
  note * = ft_on [of sample_disk, OF length_sample_disk this]
  show "idle (ft_on sample_disk)" "fs_inv (ft_on sample_disk) {}" "view (ft_on sample_disk) = sample_disk"
    "refs (inodes (ft_on sample_disk)) = (\<lambda>_. 0)" "sb (ft_on sample_disk) = sb_boot" "cons (ft_on sample_disk) = cons_boot"
    by (rule *)+
qed

lemma sample_command:
  "command_ok (ft_on sample_disk) {1, 2} (lit ''/a'')" "target (ft_on sample_disk) (lit ''/a'') = Some 2"
  "command_ok (ft_on sample_disk) {1, 2} (lit ''/b'')" "target (ft_on sample_disk) (lit ''/b'') = None"
proof -
  have st: "path_start (ft_on sample_disk) (lit ''/a'') = 1" "path_start (ft_on sample_disk) (lit ''/b'') = 1"
    by (simp_all add: path_start_def of_char_def)
  have pe: "path_elems (lit ''/a'') = [[97]]" "path_elems (lit ''/b'') = [[98]]" by (simp_all add: path_elems.simps of_char_def)
  have co: "cons_ok cons_boot" by (simp add: cons_ok_def cons_boot_def)
  show "command_ok (ft_on sample_disk) {1, 2} (lit ''/a'')" "command_ok (ft_on sample_disk) {1, 2} (lit ''/b'')"
    using sample_ft sample_tree co st by (simp_all add: command_ok_def start_ok_def of_char_def)
  show "target (ft_on sample_disk) (lit ''/a'') = Some 2" "target (ft_on sample_disk) (lit ''/b'') = None"
    unfolding target_def st pe by (simp_all add: sample_ft sample_root sample_lookup)
qed

lemma sample_plain: "plain_text (ft_on sample_disk) 2"
  by (simp add: plain_text_def file_text_def sample_ft sample_content sample_file_ok sample_a)

lemma uniq_file_prints:
  fixes s :: "'x ft_scheme"
  assumes "command_ok s S path" "target s path = Some n" "plain_text s n"
    "length (file_text s n) < 256" "[] \<notin> set (lines_of (file_text s n))"
  shows "\<exists>fl. uniq_flags_of (mode_flag m @ [0]) = Some fl \<and>
    wp (uniq_file fl path s) (\<lambda>r t. r = 0 \<and> printed (uniq_text m (lines_of (file_text s n))) (cons s) (cons t) \<and>
      fs_inv t {} \<and> view t = view s \<and> refs (inodes t) = (refs (inodes s))(n := refs (inodes s) n + 1))"
proof (intro exI conjI)
  show "uniq_flags_of (mode_flag m @ [0]) = Some (mode_flags m)" by (rule mode_flags)
  have msg: "rendered (lit ''File Not Found ....'' @ [NEWLINE]) [] = Some (lit ''File Not Found ....'' @ [NEWLINE])"
    by (simp add: of_char_def)
  have "wp (kbind (begin_op s) (\<lambda>_ s. kbind (namei path s) (\<lambda>r s.
     case r of
       None \<Rightarrow> kbind (end_op s) (\<lambda>_ s. kbind (cprintf (lit ''File Not Found ....'' @ [NEWLINE]) [] s) (\<lambda>_ s. Ret (-1) s))
     | Some ip \<Rightarrow>
         kbind (ilock (Some ip) s) (\<lambda>_ s.
         kbind (kbind (uniq_file_loop (mode_flags m) ip 0 uniq_init s) (\<lambda>u s. uniq_last put_line put_count_line (cprintf [NEWLINE] []) (mode_flags m) u s)) (\<lambda>_ s.
         kbind (iunlock (Some ip) s) (\<lambda>_ s. kbind (end_op s) (\<lambda>_ s. Ret 0 s)))))))
    (\<lambda>r t. fs_inv t {} \<and> view t = view s \<and> (case target s path of
       None \<Rightarrow> r = -1 \<and> printed (lit ''File Not Found ....'' @ [NEWLINE]) (cons s) (cons t) \<and> refs (inodes t) = refs (inodes s)
     | Some n \<Rightarrow> r = 0 \<and> printed (uniq_text m (lines_of (file_text s n))) (cons s) (cons t) \<and>
         refs (inodes t) = (refs (inodes s))(n := refs (inodes s) n + 1)))"
  proof (rule wp_command [OF assms(1) msg])
    show "file_ok (view s) (disk_inode (view s) (sb s) k) \<and> i_type (disk_inode (view s) (sb s) k) \<noteq> T_DEV \<and>
        0 \<notin> set (content (view s) (disk_inode (view s) (sb s) k))" if "target s path = Some k" for k
      using that assms(2,3) by (simp add: plain_text_def file_text_def)
    fix k ip and t :: "'x ft_scheme" and R
    assume k: "target s path = Some k" and pr: "printing t ip"
      and c: "content (view t) (inodes t ! ip) = content (view s) (disk_inode (view s) (sb s) k)"
      and R: "\<And>u. prints (uniq_text m (lines_of (file_text s k))) t u \<Longrightarrow> R () u"
    have "k = n" using k assms(2) by simp
    then have ft: "file_text s n = content (view t) (inodes t ! ip)" using c by (simp add: file_text_def)
    have "wp (uniq_file_loop (mode_flags m) ip (int 0) uniq_init t) (\<lambda>v t. wp (uniq_last put_line put_count_line (cprintf [NEWLINE] []) (mode_flags m) v t) R)"
      by (rule wp_uniq_file_loop [OF pr uniq_rel_init ft])
        (use assms(4,5) R \<open>k = n\<close> urun_text [OF assms(5)] in simp_all)
    then show "wp (kbind (uniq_file_loop (mode_flags m) ip 0 uniq_init t) (\<lambda>u s. uniq_last put_line put_count_line (cprintf [NEWLINE] []) (mode_flags m) u s)) R" by simp
  qed
  then show "wp (uniq_file (mode_flags m) path s) (\<lambda>r t. r = 0 \<and> printed (uniq_text m (lines_of (file_text s n))) (cons s) (cons t) \<and>
      fs_inv t {} \<and> view t = view s \<and> refs (inodes t) = (refs (inodes s))(n := refs (inodes s) n + 1))"
    unfolding uniq_file_def kbind_assoc by (rule wp_mono) (simp add: assms(2))
qed

section \<open>Properties\<close>





text \<open>
  C22. \<^verbatim>\<open>uniq\<close> on a path that does not exist prints the message, ends its transaction and returns -1; every reference taken on
  the way is given back.
\<close>

theorem uniq_kernel_missing:
  fixes s :: "'x ft_scheme"
  assumes "command_ok s S path" "target s path = None"
  shows "wp (uniq_file fl path s) (\<lambda>r t. r = -1 \<and> printed (lit ''File Not Found ....'' @ [NEWLINE]) (cons s) (cons t) \<and>
      fs_inv t {} \<and> view t = view s \<and> refs (inodes t) = refs (inodes s))"
proof -
  have msg: "rendered (lit ''File Not Found ....'' @ [NEWLINE]) [] = Some (lit ''File Not Found ....'' @ [NEWLINE])"
    by (simp add: of_char_def)
  note w = wp_command [OF assms(1) msg, where out = "\<lambda>_. []" and ret = 0 and
      body = "\<lambda>ip s. kbind (uniq_file_loop fl ip 0 uniq_init s) (\<lambda>u s. uniq_last put_line put_count_line (cprintf [NEWLINE] []) fl u s)"]
  show ?thesis
    unfolding uniq_file_def kbind_assoc
    by (rule wp_mono [OF w [unfolded kbind_assoc]]) (simp_all add: assms(2))
qed

theorem uniq_kernel_missing_witness:
  "wp (uniq_file (mode_flags Plain) (lit ''/b'') (ft_on sample_disk)) (\<lambda>r t. r = -1)"
  by (rule wp_mono [OF uniq_kernel_missing [OF sample_command(3,4)]]) simp

end
