(* ===== verification/Paging.thy ===== *)
theory Paging
  imports Vm
begin

text \<open>
  The meaning of the page tables of \<^verbatim>\<open>vm.c\<close>: the translation a directory defines, when a directory is well formed, and what
  \<^verbatim>\<open>walkpgdir\<close> and \<^verbatim>\<open>mappages\<close> do to both.
\<close>

section \<open>Entries of a table\<close>

lemma entry_addr:
  assumes "unat p mod 4096 = 0" "unat i < 1024"
  shows "unat (p + 4 * i :: u32) = unat p + 4 * unat i"
proof -
  have i: "unat (4 * i) = 4 * unat i" using assms(2) by (simp add: unat_word_ariths)
  obtain q where q: "unat p = 4096 * q" using assms(1) by (metis mod_0_imp_dvd dvd_def)
  have "unat p < 4294967296" by (rule unat_lt_2p32)
  then have "unat p + 4 * unat i < 2 ^ 32" using q assms(2) by simp
  then show ?thesis using i by (simp add: unat_add_u32)
qed

lemma entry_page:
  assumes "unat p mod 4096 = 0" "unat i < 1024"
  shows "same_page (p + 4 * i) p" "unat (p + 4 * i :: u32) mod 4 = 0"
proof -
  obtain q where q: "unat p = 4096 * q" using assms(1) by (metis mod_0_imp_dvd dvd_def)
  show "same_page (p + 4 * i) p" using entry_addr [OF assms] assms(2) q by simp
  have "(4096 * q + 4 * unat i) mod 4 = 0" by (simp add: mod_add_eq [symmetric])
  then show "unat (p + 4 * i :: u32) mod 4 = 0" using entry_addr [OF assms] q by simp
qed

lemma entry_inj:
  assumes "unat p mod 4096 = 0" "unat i < 1024" "unat j < 1024" "p + 4 * i = p + 4 * (j :: u32)"
  shows "i = j"
  using entry_addr [OF assms(1,2)] entry_addr [OF assms(1,3)] assms(4) by (simp add: word_unat_eq_iff)

lemma load32_cong:
  assumes "unat a mod 4 = 0" "\<And>x. unat x div 4 = unat a div 4 \<Longrightarrow> m x = m' x"
  shows "load32 m a = load32 m' a"
proof -
  have "unat (a + k) div 4 = unat a div 4" if "k \<in> {0, 1, 2, 3}" for k
  proof -
    have "unat k \<le> 3" using that by auto
    then show ?thesis using in_word_iff [OF assms(1), of "a + k"] by simp
  qed
  from this [of 0] this [of 1] this [of 2] this [of 3] assms(2) show ?thesis by (simp add: load32_def)
qed

lemma load32_store32_word:
  assumes "unat a mod 4 = 0" "unat b mod 4 = 0" "a \<noteq> b"
  shows "load32 (store32 a v m) b = load32 m b"
proof (rule load32_cong [OF assms(2)])
  fix x :: u32 assume x: "unat x div 4 = unat b div 4"
  have "unat b div 4 \<noteq> unat a div 4" using assms by (metis div_mult_mod_eq word_unat_eq_iff)
  then have "\<not> unat (x - a) < 4" using in_word_iff [OF assms(1), of x] x by simp
  then show "store32 a v m x = m x" by (simp add: store32_other)
qed

lemma page_of_word: "y div 4096 = y div 4 div (1024 :: nat)"
  by (simp only: div_mult2_eq [symmetric]) simp

lemma word_in_page: "unat x div 4 = unat a div 4 \<Longrightarrow> same_page x (a :: u32)"
  by (simp only: page_of_word)

lemma load32_page_word:
  assumes "unat a mod 4 = 0" "\<And>x. same_page x a \<Longrightarrow> m x = m' x"
  shows "load32 m a = load32 m' a"
  by (rule load32_cong [OF assms(1)]) (rule assms(2), erule word_in_page)

section \<open>Page tables\<close>

abbreviation tab :: "u32 \<Rightarrow> u32" where "tab e \<equiv> P2V (PTE_ADDR e)"

lemma PDX_take: "PDX va = take_bit 10 (drop_bit 22 va)" and PTX_take: "PTX va = take_bit 10 (drop_bit 12 va)"
  by (simp_all add: PDX_def PTX_def take_bit_eq_mask mask_eq_exp_minus_1)

lemma PDX_less: "unat (PDX va) < 1024" and PTX_less: "unat (PTX va) < 1024"
  using take_bit_nat_less_exp [of 10 "unat (drop_bit 22 va)"] take_bit_nat_less_exp [of 10 "unat (drop_bit 12 va)"]
  by (simp_all add: PDX_take PTX_take unsigned_take_bit_eq)

lemma same_page_PDX_PTX: "PDX va = PDX vb \<and> PTX va = PTX vb \<longleftrightarrow> drop_bit 12 va = drop_bit 12 vb"
proof
  assume a: "PDX va = PDX vb \<and> PTX va = PTX vb"
  show "drop_bit 12 va = drop_bit 12 vb"
  proof (rule bit_word_eqI)
    fix n assume n: "n < LENGTH(32)"
    have "bit (PTX va) n = bit (PTX vb) n" "bit (PDX va) (n - 10) = bit (PDX vb) (n - 10)" using a by simp_all
    then show "bit (drop_bit 12 va) n = bit (drop_bit 12 vb) n"
      by (cases "n < 10") (auto simp: PTX_take PDX_take bit_simps dest: bit_imp_le_length)
  qed
next
  assume a: "drop_bit 12 va = drop_bit 12 vb"
  have e: "drop_bit 22 x = drop_bit 10 (drop_bit 12 x)" for x :: u32 by (simp add: drop_bit_drop_bit)
  show "PDX va = PDX vb \<and> PTX va = PTX vb" unfolding PDX_take PTX_take e [of va] e [of vb] a by simp
qed

lemma mod_cancel: "(x mod 4294967296) mod 4096 = x mod (4096::nat)"
  by (rule mod_mod_cancel) (simp add: dvd_def exI [of _ 1048576])
lemma tab_aligned: "unat (tab e) mod 4096 = 0"
proof -
  have "PTE_ADDR e = e AND NOT (mask 12)" by (simp add: PTE_ADDR_def mask_eq_exp_minus_1)
  also have "\<dots> = push_bit 12 (drop_bit 12 e)" by (rule bit_word_eqI) (auto simp: bit_simps)
  finally have "unat (PTE_ADDR e) = unat (drop_bit 12 e) * 4096 mod 4294967296"
    by (simp add: push_bit_eq_mult unat_word_ariths mult.commute)
  then have "unat (PTE_ADDR e) mod 4096 = 0" by (simp only: mod_cancel mod_mult_self2_is_0)
  then obtain q where "unat (PTE_ADDR e) = q * 4096" by (metis mod_0_imp_dvd dvd_def mult.commute)
  then have "unat (P2V (PTE_ADDR e)) = ((q + 524288) * 4096) mod 4294967296" by (simp add: P2V_def unat_word_ariths)
  then show ?thesis by (simp only: mod_cancel mod_mult_self2_is_0)
qed

text \<open>The entry that translates an address, when it is present.\<close>

definition pte_of :: "mem \<Rightarrow> u32 \<Rightarrow> u32 \<Rightarrow> u32 option" where
  "pte_of m pgdir va =
     (let e = load32 m (pgdir + 4 * PDX va) in
      if e AND PTE_P = 0 then None
      else let t = load32 m (tab e + 4 * PTX va) in if t AND PTE_P = 0 then None else Some t)"

abbreviation pde :: "mem \<Rightarrow> u32 \<Rightarrow> u32 \<Rightarrow> u32" where "pde m pgdir i \<equiv> load32 m (pgdir + 4 * i)"

text \<open>A directory whose tables are different pages, none of them the directory and none of them free.\<close>

definition pt_inv :: "'x kmem_scheme \<Rightarrow> u32 \<Rightarrow> u32 list \<Rightarrow> bool" where
  "pt_inv s pgdir ps \<longleftrightarrow> kmem_inv s ps \<and> unat pgdir mod 4096 = 0 \<and> pgdir \<notin> set ps \<and>
     (\<forall>i. unat i < 1024 \<and> pde (mem s) pgdir i AND PTE_P \<noteq> 0 \<longrightarrow>
        tab (pde (mem s) pgdir i) \<noteq> pgdir \<and> tab (pde (mem s) pgdir i) \<notin> set ps \<and> tab (pde (mem s) pgdir i) \<noteq> 0 \<and>
        (\<forall>j. unat j < 1024 \<and> pde (mem s) pgdir j AND PTE_P \<noteq> 0 \<and> j \<noteq> i \<longrightarrow>
           tab (pde (mem s) pgdir j) \<noteq> tab (pde (mem s) pgdir i)))"

lemma aligned_pages: "unat p mod 4096 = 0 \<Longrightarrow> unat q mod 4096 = 0 \<Longrightarrow> p \<noteq> q \<Longrightarrow> \<not> same_page p (q :: u32)"
  by (metis div_mult_mod_eq word_unat_eq_iff)

text \<open>A change of memory outside the free pages keeps the free list.\<close>

lemma kmem_inv_mem:
  assumes "kmem_inv s ps" "\<And>q x. q \<in> set ps \<Longrightarrow> same_page x q \<Longrightarrow> m x = mem s x"
  shows "kmem_inv (s\<lparr>mem := m\<rparr>) ps"
proof -
  have "load32 m q = load32 (mem s) q" if "q \<in> set ps" for q
    using that assms kpage_facts [of s q] by (intro load32_page_cong) (auto simp: kmem_inv_def)
  then have "flist m (freelist s) ps" using assms(1) flist_frame unfolding kmem_inv_def by blast
  then show ?thesis using assms(1) by (simp add: kmem_inv_def)
qed

lemma store32_page: "unat a mod 4 = 0 \<Longrightarrow> \<not> same_page x a \<Longrightarrow> store32 a v m x = m x"
  using in_word_iff [of a x] word_in_page [of x a] by (intro store32_other) (metis not_less)

lemma pt_invD:
  assumes "pt_inv s pgdir ps" "unat i < 1024" "pde (mem s) pgdir i AND PTE_P \<noteq> 0"
  shows "tab (pde (mem s) pgdir i) \<noteq> pgdir" "tab (pde (mem s) pgdir i) \<notin> set ps" "tab (pde (mem s) pgdir i) \<noteq> 0"
    "\<And>j. unat j < 1024 \<Longrightarrow> pde (mem s) pgdir j AND PTE_P \<noteq> 0 \<Longrightarrow> j \<noteq> i \<Longrightarrow> tab (pde (mem s) pgdir j) \<noteq> tab (pde (mem s) pgdir i)"
  using assms unfolding pt_inv_def by blast+

lemma pt_inv_dir: "pt_inv s pgdir ps \<Longrightarrow> unat pgdir mod 4096 = 0" "pt_inv s pgdir ps \<Longrightarrow> kmem_inv s ps" "pt_inv s pgdir ps \<Longrightarrow> pgdir \<notin> set ps"
  by (simp_all add: pt_inv_def)

lemma pt_inv_cong:
  assumes "pt_inv s pgdir ps" "kmem_inv t ps" "\<And>i. unat i < 1024 \<Longrightarrow> pde (mem t) pgdir i = pde (mem s) pgdir i"
  shows "pt_inv t pgdir ps"
  using assms unfolding pt_inv_def by (simp cong: conj_cong)

text \<open>Writing an entry of a table.\<close>

lemma set_pte:
  fixes s :: "'x kmem_scheme"
  assumes inv: "pt_inv s pgdir ps" and p: "pde (mem s) pgdir (PDX va) AND PTE_P \<noteq> 0"
  defines "a \<equiv> tab (pde (mem s) pgdir (PDX va)) + 4 * PTX va"
  shows "pt_inv (s\<lparr>mem := store32 a v (mem s)\<rparr>) pgdir ps"
    and "pte_of (store32 a v (mem s)) pgdir vb =
      (if drop_bit 12 vb = drop_bit 12 va then (if v AND PTE_P = 0 then None else Some v) else pte_of (mem s) pgdir vb)"
    and "pde (store32 a v (mem s)) pgdir (PDX vb) = pde (mem s) pgdir (PDX vb)"
proof -
  let ?t = "tab (pde (mem s) pgdir (PDX va))" and ?m = "store32 a v (mem s)"
  note d = pt_inv_dir [OF inv] and t = pt_invD [OF inv PDX_less p]
  have ta: "unat ?t mod 4096 = 0" by (rule tab_aligned)
  have a: "same_page a ?t" "unat a mod 4 = 0" unfolding a_def by (rule entry_page [OF ta PTX_less])+
  have out: "?m x = mem s x" if "\<not> same_page x ?t" for x using that a by (intro store32_page) auto
  have pd: "pde ?m pgdir i = pde (mem s) pgdir i" if "unat i < 1024" for i
  proof (rule load32_page_word)
    show "unat (pgdir + 4 * i) mod 4 = 0" by (rule entry_page [OF d(1) that])
    fix x :: u32 assume "same_page x (pgdir + 4 * i)"
    then have "same_page x pgdir" using entry_page(1) [OF d(1) that] by simp
    then show "?m x = mem s x" using aligned_pages [OF d(1) ta] t(1) by (intro out) auto
  qed
  then show "pde ?m pgdir (PDX vb) = pde (mem s) pgdir (PDX vb)" using PDX_less by blast
  have "kmem_inv (s\<lparr>mem := ?m\<rparr>) ps"
  proof (rule kmem_inv_mem [OF d(2)])
    fix q x :: u32 assume q: "q \<in> set ps" "same_page x q"
    have "unat q mod 4096 = 0" using d(2) q(1) kpage_facts [of s q] by (auto simp: kmem_inv_def)
    then have "\<not> same_page q ?t" using aligned_pages [OF _ ta] t(2) q(1) by metis
    then show "?m x = mem s x" using q(2) by (intro out) auto
  qed
  then show "pt_inv (s\<lparr>mem := ?m\<rparr>) pgdir ps" using pd by (intro pt_inv_cong [OF inv]) simp_all
  show "pte_of ?m pgdir vb =
      (if drop_bit 12 vb = drop_bit 12 va then (if v AND PTE_P = 0 then None else Some v) else pte_of (mem s) pgdir vb)"
  proof (cases "drop_bit 12 vb = drop_bit 12 va")
    case True
    then have "PDX vb = PDX va" "PTX vb = PTX va" using same_page_PDX_PTX [of vb va] by auto
    then show ?thesis using True p pd [OF PDX_less [of va]] by (simp add: pte_of_def Let_def a_def)
  next
    case False
    have "load32 ?m (tab (pde (mem s) pgdir (PDX vb)) + 4 * PTX vb) = load32 (mem s) (tab (pde (mem s) pgdir (PDX vb)) + 4 * PTX vb)"
      if pb: "pde (mem s) pgdir (PDX vb) AND PTE_P \<noteq> 0"
    proof -
      let ?u = "tab (pde (mem s) pgdir (PDX vb))"
      note b = entry_page [OF tab_aligned [of "pde (mem s) pgdir (PDX vb)"] PTX_less [of vb]]
      have "a \<noteq> ?u + 4 * PTX vb"
      proof (cases "PDX vb = PDX va")
        case True
        then have "PTX vb \<noteq> PTX va" using False same_page_PDX_PTX [of vb va] by auto
        then show ?thesis using True entry_inj [OF ta PTX_less PTX_less, of va vb] unfolding a_def by auto
      next
        case ne: False
        then have "\<not> same_page ?u ?t" using t(4) [OF PDX_less pb] aligned_pages [OF tab_aligned ta] by auto
        then show ?thesis using a(1) b(1) by auto
      qed
      then show ?thesis using a(2) b(2) by (intro load32_store32_word) auto
    qed
    then show ?thesis using False pd [OF PDX_less [of vb]] by (simp add: pte_of_def Let_def)
  qed
qed

lemma aligned_bits: "unat p mod 4096 = 0 \<Longrightarrow> n < 12 \<Longrightarrow> \<not> bit (p :: u32) n"
proof -
  assume "unat p mod 4096 = 0" "n < 12"
  then have "take_bit 12 (unat p) = 0" by (simp add: take_bit_eq_mod)
  then have "\<not> bit (take_bit 12 (unat p)) n" by simp
  then show ?thesis using \<open>n < 12\<close> by (simp add: bit_take_bit_iff bit_unsigned_iff bit_imp_le_length)
qed

lemma V2P_aligned: "unat p mod 4096 = 0 \<Longrightarrow> unat (V2P p) mod 4096 = 0"
proof -
  assume "unat p mod 4096 = 0"
  then obtain q where "unat p = q * 4096" by (metis mod_0_imp_dvd dvd_def mult.commute)
  moreover have "unat (V2P p) = (unat p + 2147483648) mod 4294967296"
  proof -
    have "V2P p = p + 0x80000000" by (simp add: V2P_def)
    then show ?thesis by (simp add: unat_word_ariths)
  qed
  ultimately have "unat (V2P p) = (q + 524288) * 4096 mod 4294967296" by simp
  then show ?thesis by (simp only: mod_cancel mod_mult_self2_is_0)
qed

lemma tab_new:
  assumes "unat p mod 4096 = 0"
  shows "tab (V2P p OR PTE_P OR PTE_W OR PTE_U) = p" "(V2P p OR PTE_P OR PTE_W OR PTE_U) AND PTE_P \<noteq> 0"
proof -
  have z: "\<not> bit (V2P p) n" if "n < 12" for n using aligned_bits [OF V2P_aligned [OF assms] that] .
  have c: "V2P p OR PTE_P OR PTE_W OR PTE_U = V2P p OR 7" by (simp add: or.assoc)
  have n7: "bit (7 :: u32) n \<longleftrightarrow> n < 3" for n
    using bit_mask_iff [of 3 n, where ?'a = "32 word"] by (auto simp: mask_eq_exp_minus_1)
  have "PTE_ADDR (V2P p OR 7) = (V2P p OR mask 3) AND NOT (mask 12)" by (simp add: PTE_ADDR_def mask_eq_exp_minus_1)
  also have "\<dots> = V2P p" using z by (intro bit_word_eqI) (auto simp: bit_simps)
  finally show "tab (V2P p OR PTE_P OR PTE_W OR PTE_U) = p" unfolding c by (simp add: P2V_def V2P_def)
  have "bit ((V2P p OR 7) AND 1) 0" by (simp add: bit_simps)
  then show "(V2P p OR PTE_P OR PTE_W OR PTE_U) AND PTE_P \<noteq> 0" unfolding c by auto
qed

lemma tab_entry_nonzero: "tab e \<noteq> 0 \<Longrightarrow> tab e + 4 * PTX va \<noteq> 0"
  using entry_addr [OF tab_aligned PTX_less, of e va] by (auto simp: word_unat_eq_iff)

lemma wp_walkpgdir:
  fixes s :: "'x kmem_scheme"
  assumes inv: "pt_inv s pgdir ps" and Q0: "ps = [] \<Longrightarrow> Q 0 s"
    and Q1: "\<And>t qs. pt_inv t pgdir qs \<Longrightarrow> set qs \<subseteq> set ps \<and> length ps \<le> length qs + 1 \<Longrightarrow> pde (mem t) pgdir (PDX va) AND PTE_P \<noteq> 0 \<Longrightarrow>
      (\<And>vb. pte_of (mem t) pgdir vb = pte_of (mem s) pgdir vb) \<Longrightarrow> Q (tab (pde (mem t) pgdir (PDX va)) + 4 * PTX va) t"
  shows "wp (walkpgdir pgdir va True s) Q"
proof (cases "pde (mem s) pgdir (PDX va) AND PTE_P = 0")
  case False
  then show ?thesis using Q1 [OF inv] by (simp add: walkpgdir_def Let_def)
next
  case absent: True
  note d = pt_inv_dir [OF inv]
  let ?s2 = "\<lambda>p t. t\<lparr>mem := store32 (pgdir + 4 * PDX va) (V2P p OR PTE_P OR PTE_W OR PTE_U) (memset p 0 PGSIZE (mem t))\<rparr>"
  have "wp (kalloc s) (\<lambda>p t. if p = 0 then Q 0 t else Q (p + 4 * PTX va) (?s2 p t))"
  proof (cases ps)
    case Nil
    then show ?thesis using d(2) Q0 by (intro wp_kalloc_Nil) auto
  next
    case (Cons p qs)
    have kp: "kpage s p" and pq: "p \<notin> set qs" "distinct qs" using d(2) Cons by (auto simp: kmem_inv_def)
    have p: "unat p mod 4096 = 0" "p \<noteq> 0" "p \<noteq> pgdir" using kpage_facts [OF kp] d(3) Cons by auto
    show ?thesis
    proof (rule wp_kalloc_Cons [OF d(2) [unfolded Cons]])
      fix t :: "'x kmem_scheme" assume t: "kmem_inv t qs" "mem t = mem s" "link t = link s"
      let ?a = "pgdir + 4 * PDX va" and ?v = "V2P p OR PTE_P OR PTE_W OR PTE_U"
      let ?z = "memset p 0 PGSIZE (mem s)" let ?m = "store32 ?a ?v ?z"
      note a = entry_page [OF d(1) PDX_less [of va]]
      have z: "?z x = (if same_page x p then 0 else mem s x)" for x
        using in_page_iff [OF p(1), of x] by (simp add: memset_stosb stosb_apply)
      have m: "?m x = (if same_page x p then 0 else mem s x)" if "\<not> same_page x pgdir" for x
        using that a(1) by (subst store32_page [OF a(2)]) (auto simp: z)
      have pnd: "\<not> same_page p pgdir" by (rule aligned_pages [OF p(1) d(1) p(3)])
      have pd: "pde ?m pgdir i = (if i = PDX va then ?v else pde (mem s) pgdir i)" if "unat i < 1024" for i
      proof (cases "i = PDX va")
        case False
        note b = entry_page [OF d(1) that]
        have "?a \<noteq> pgdir + 4 * i" using entry_inj [OF d(1) PDX_less that] False by blast
        then have "pde ?m pgdir i = pde ?z pgdir i" by (rule load32_store32_word [OF a(2) b(2)])
        also have "\<dots> = pde (mem s) pgdir i"
          by (rule load32_page_word [OF b(2)]) (use b(1) pnd in \<open>simp add: z\<close>)
        finally show ?thesis using False by simp
      qed simp
      have inv': "pt_inv (?s2 p t) pgdir qs"
      proof -
        have "kmem_inv (?s2 p t) qs"
        proof (rule kmem_inv_mem [OF t(1)])
          fix q x :: u32 assume q: "q \<in> set qs" "same_page x q"
          have qa: "unat q mod 4096 = 0" using t(1) q(1) kpage_facts [of t q] by (auto simp: kmem_inv_def)
          have "q \<noteq> pgdir" "q \<noteq> p" using q(1) d(3) pq Cons by auto
          then have "\<not> same_page q pgdir" "\<not> same_page q p" using aligned_pages [OF qa d(1)] aligned_pages [OF qa p(1)] by auto
          then show "store32 ?a ?v (memset p 0 PGSIZE (mem t)) x = mem t x" using m [of x] q(2) t(2) by simp
        qed
        then show ?thesis
          using inv pd tab_new [OF p(1)] p pq Cons absent t(2) unfolding pt_inv_def by (auto simp: pd)
      qed
      have same: "pte_of ?m pgdir vb = pte_of (mem s) pgdir vb" for vb
      proof (cases "PDX vb = PDX va")
        case True
        have "load32 ?m (p + 4 * PTX vb) = load32 (\<lambda>_. 0) (p + 4 * PTX vb)"
        proof (rule load32_page_word)
          note c = entry_page [OF p(1) PTX_less [of vb]]
          show "unat (p + 4 * PTX vb) mod 4 = 0" by (rule c(2))
          fix x :: u32 assume "same_page x (p + 4 * PTX vb)"
          then have "same_page x p" using c(1) by simp
          then show "?m x = 0" using pnd m [of x] by simp
        qed
        then show ?thesis using True absent pd [OF PDX_less [of va]] tab_new [OF p(1)]
          by (simp add: pte_of_def Let_def load32_def)
      next
        case False
        have "load32 ?m (tab e + 4 * PTX vb) = load32 (mem s) (tab e + 4 * PTX vb)"
          if e: "e = pde (mem s) pgdir (PDX vb)" "e AND PTE_P \<noteq> 0" for e
        proof (rule load32_page_word)
          note c = entry_page [OF tab_aligned [of e] PTX_less [of vb]]
          note u = pt_invD [OF inv PDX_less e(2) [unfolded e(1)]]
          show "unat (tab e + 4 * PTX vb) mod 4 = 0" by (rule c(2))
          have ne: "tab e \<noteq> p" "tab e \<noteq> pgdir" using u(1,2) Cons e(1) by auto
          fix x :: u32 assume "same_page x (tab e + 4 * PTX vb)"
          then have "same_page x (tab e)" using c(1) by simp
          moreover have "\<not> same_page (tab e) p" by (rule aligned_pages [OF tab_aligned p(1) ne(1)])
          moreover have "\<not> same_page (tab e) pgdir" by (rule aligned_pages [OF tab_aligned d(1) ne(2)])
          ultimately show "?m x = mem s x" using m [of x] by simp
        qed
        then show ?thesis using False pd [OF PDX_less [of vb]] by (simp add: pte_of_def Let_def)
      qed
      have "Q (tab (pde (mem (?s2 p t)) pgdir (PDX va)) + 4 * PTX va) (?s2 p t)"
        using inv' same pd [OF PDX_less [of va]] tab_new [OF p(1)] t(2) Cons by (intro Q1) auto
      then show "if p = 0 then Q 0 t else Q (p + 4 * PTX va) (?s2 p t)"
        using p pd [OF PDX_less [of va]] tab_new [OF p(1)] t(2) by simp
    qed
  qed
  then show ?thesis using absent by (simp add: walkpgdir_def Let_def) (elim wp_mono, auto split: if_splits)
qed

text \<open>\<open>n\<close> pages from \<open>a\<close> on are mapped to consecutive frames from \<open>pa\<close> on; other addresses translate as before.\<close>

definition map_range :: "nat \<Rightarrow> u32 \<Rightarrow> u32 \<Rightarrow> u32 \<Rightarrow> (u32 \<Rightarrow> u32 option) \<Rightarrow> u32 \<Rightarrow> u32 option" where
  "map_range n a pa perm f vb =
     (let k = unat (vb - a) div 4096 in if k < n then Some ((pa + of_nat (4096 * k)) OR perm OR PTE_P) else f vb)"

lemma map_range_0 [simp]: "map_range 0 a pa perm f = f"
  by (rule ext) (simp add: map_range_def)

lemma unat_sub_wrap: "unat (x - y :: u32) = (if unat y \<le> unat x then unat x - unat y else 4294967296 + unat x - unat y)"
proof (cases "unat y \<le> unat x")
  case True
  then have "y \<le> x" by (simp add: word_le_nat_alt)
  then show ?thesis using True by (simp add: unat_sub)
next
  case False
  then show ?thesis using unat_sub_if' [of x y] by (simp add: word_le_nat_alt)
qed

lemma offset_0: "unat a mod 4096 = 0 \<Longrightarrow> unat (vb - a :: u32) div 4096 = 0 \<longleftrightarrow> drop_bit 12 vb = drop_bit 12 a"
proof -
  assume al: "unat a mod 4096 = 0"
  then obtain q where q: "unat a = 4096 * q" by (metis mod_0_imp_dvd dvd_def)
  have "drop_bit 12 vb = drop_bit 12 a \<longleftrightarrow> unat vb div 4096 = q"
    using q by (simp add: word_unat_eq_iff drop_bit_eq_div unat_div)
  moreover have "unat (vb - a) div 4096 = 0 \<longleftrightarrow> unat vb div 4096 = q"
  proof -
    have "unat a < 4294967296" "unat vb < 4294967296" using unat_lt_2p32 by auto
    then show ?thesis using q unfolding unat_sub_wrap by (auto split: if_splits simp: div_eq_0_iff)
  qed
  ultimately show ?thesis by simp
qed

lemma offset_step:
  "unat (vb - (a + 4096) :: u32) div 4096 = (if unat (vb - a) div 4096 = 0 then 1048575 else unat (vb - a) div 4096 - 1)"
proof -
  define d where "d = vb - a"
  have e: "vb - (a + 4096) = d - 4096" by (simp add: d_def)
  have "unat (d - 4096) = (if 4096 \<le> unat d then unat d - 4096 else 4294967296 + unat d - 4096)"
    by (subst unat_sub_wrap) simp
  moreover have "(unat d - 4096) div 4096 = unat d div 4096 - 1" if "4096 \<le> unat d" using that by (simp add: le_div_geq)
  moreover have "(4294967296 + unat d - 4096) div 4096 = 1048575 + unat d div 4096" by simp
  ultimately show ?thesis unfolding e d_def [symmetric] by (simp add: div_eq_0_iff)
qed

lemma map_range_Suc:
  assumes "unat a mod 4096 = 0" "n < 1048576"
  shows "map_range n (a + 4096) (pa + 4096) perm (map_range 1 a pa perm f) = map_range (Suc n) a pa perm f"
proof
  fix vb
  let ?k = "unat (vb - a) div 4096"
  show "map_range n (a + 4096) (pa + 4096) perm (map_range 1 a pa perm f) vb = map_range (Suc n) a pa perm f vb"
  proof (cases "?k = 0")
    case True
    then show ?thesis using assms by (simp add: map_range_def Let_def offset_step)
  next
    case False
    then obtain j where j: "?k = Suc j" by (cases ?k) auto
    have "unat (vb - (a + 4096)) div 4096 = j" by (simp add: offset_step j)
    then show ?thesis using j by (simp add: map_range_def Let_def algebra_simps del: of_nat_mult)
  qed
qed

lemma map_range_1:
  "unat a mod 4096 = 0 \<Longrightarrow> map_range 1 a pa perm f vb = (if drop_bit 12 vb = drop_bit 12 a then Some (pa OR perm OR PTE_P) else f vb)"
  using offset_0 [of a vb] by (cases "drop_bit 12 vb = drop_bit 12 a") (simp_all add: map_range_def Let_def)

lemma add_page_aligned: "unat (a :: u32) mod 4096 = 0 \<Longrightarrow> unat (a + 4096) mod 4096 = 0"
proof -
  assume "unat a mod 4096 = 0"
  then obtain q where "unat a = q * 4096" by (metis mod_0_imp_dvd dvd_def mult.commute)
  then have "unat (a + 4096) = (q * 4096 + 4096) mod 4294967296" by (simp add: unat_word_ariths)
  moreover have "q * 4096 + 4096 = (q + 1) * 4096" by simp
  ultimately show ?thesis by (simp only: mod_cancel mod_mult_self2_is_0)
qed

lemma wp_mappages_step:
  fixes s :: "'x kmem_scheme"
  assumes inv: "pt_inv s pgdir ps" and al: "unat a mod 4096 = 0" and free: "pte_of (mem s) pgdir a = None"
    and Q0: "ps = [] \<Longrightarrow> Q (-1) s"
    and Q1: "\<And>t qs. pt_inv t pgdir qs \<Longrightarrow> set qs \<subseteq> set ps \<and> length ps \<le> length qs + 1 \<Longrightarrow>
      pte_of (mem t) pgdir = map_range 1 a pa perm (pte_of (mem s) pgdir) \<Longrightarrow>
      wp (case n of 0 \<Rightarrow> Ret 0 t | Suc n \<Rightarrow> mappages_loop n pgdir (a + PGSIZE) (pa + PGSIZE) perm t) Q"
  shows "wp (mappages_loop n pgdir a pa perm s) Q"
  unfolding mappages_loop.simps [of n pgdir a pa perm s] wp_kbind
proof (rule wp_walkpgdir [OF inv], goal_cases)
  case 1
  then show ?case using Q0 by simp
next
  case (2 t qs)
  let ?a = "tab (pde (mem t) pgdir (PDX a)) + 4 * PTX a" let ?u = "t\<lparr>mem := store32 ?a (pa OR perm OR PTE_P) (mem t)\<rparr>"
  have nz: "?a \<noteq> 0" using pt_invD(3) [OF 2(1) PDX_less 2(3)] by (rule tab_entry_nonzero)
  have "pte_of (mem t) pgdir a = None" using 2(4) free by simp
  then have ab: "load32 (mem t) ?a AND PTE_P = 0" using 2(3) by (simp add: pte_of_def Let_def split: if_splits)
  have v: "(pa OR perm OR PTE_P) AND PTE_P \<noteq> 0"
  proof -
    have "bit ((pa OR perm OR PTE_P) AND PTE_P) 0" by (simp add: bit_simps)
    then show ?thesis by auto
  qed
  have "pte_of (mem ?u) pgdir = map_range 1 a pa perm (pte_of (mem s) pgdir)"
    using set_pte(2) [OF 2(1,3), of "pa OR perm OR PTE_P"] v 2(4) by (simp add: fun_eq_iff map_range_1 [OF al, simplified])
  from Q1 [OF set_pte(1) [OF 2(1,3)] 2(2) this] show ?case using nz ab by (simp only: if_False Let_def simp_thms)
qed

lemma wp_mappages_loop:
  fixes s :: "'x kmem_scheme"
  assumes "pt_inv s pgdir ps" "unat a mod 4096 = 0" "n < 1048576"
    "\<And>vb. unat (vb - a) div 4096 \<le> n \<Longrightarrow> pte_of (mem s) pgdir vb = None"
  shows "wp (mappages_loop n pgdir a pa perm s) (\<lambda>r t. \<exists>qs k. pt_inv t pgdir qs \<and> set qs \<subseteq> set ps \<and> length ps \<le> length qs + k \<and>
    pte_of (mem t) pgdir = map_range k a pa perm (pte_of (mem s) pgdir) \<and> (r = 0 \<and> k = n + 1 \<or> r = -1 \<and> k \<le> n \<and> qs = []))"
  using assms
proof (induction n arbitrary: s a pa ps)
  case 0
  have "pte_of (mem s) pgdir a = None" using "0.prems"(4) [of a] by simp
  then show ?case
  proof (rule wp_mappages_step [OF "0.prems"(1,2)], goal_cases)
    case 1
    then show ?case using "0.prems"(1) by (auto intro!: exI [of _ "0::nat"])
  next
    case (2 t qs)
    then show ?case by (auto intro!: exI [of _ qs])
  qed
next
  case (Suc n)
  have fa: "pte_of (mem s) pgdir a = None" using Suc.prems(4) [of a] by simp
  show ?case
  proof (rule wp_mappages_step [OF Suc.prems(1,2) fa], goal_cases)
    case 1
    then show ?case using Suc.prems(1) by (auto intro!: exI [of _ "0::nat"])
  next
    case (2 t qs)
    note qs = 2(2)
    have free: "pte_of (mem t) pgdir vb = None" if "unat (vb - (a + 4096)) div 4096 \<le> n" for vb
    proof -
      have k: "unat (vb - a) div 4096 \<noteq> 0" "unat (vb - a) div 4096 \<le> Suc n"
        using that Suc.prems(3) by (auto simp: offset_step split: if_splits)
      then show ?thesis using Suc.prems(4) [of vb] 2(3) by (simp add: map_range_def Let_def)
    qed
    have n: "n < 1048576" using Suc.prems(3) by simp
    have step: "map_range k (a + 4096) (pa + 4096) perm (pte_of (mem t) pgdir) = map_range (Suc k) a pa perm (pte_of (mem s) pgdir)"
      if "k \<le> n + 1" for k unfolding 2(3) by (rule map_range_Suc [OF Suc.prems(2)]) (use that Suc.prems(3) in simp)
    show ?case unfolding nat.case
    proof (rule wp_mono [OF Suc.IH [OF 2(1) add_page_aligned [OF Suc.prems(2)] n free]], goal_cases)
      case (1 vb)
      then show ?case .
    next
      case (2 r u)
      then obtain rs k where "pt_inv u pgdir rs" "set rs \<subseteq> set qs" "length qs \<le> length rs + k"
        "pte_of (mem u) pgdir = map_range k (a + 4096) (pa + 4096) perm (pte_of (mem t) pgdir)"
        "r = 0 \<and> k = n + 1 \<or> r = -1 \<and> k \<le> n \<and> rs = []" by blast
      then show ?case using step [of k] qs by (intro exI [of _ rs] exI [of _ "Suc k"]) auto
    qed
  qed
qed

lemma PGROUNDDOWN_unat: "unat (PGROUNDDOWN a) = unat a div 4096 * 4096"
proof -
  have "a AND 0xFFF = take_bit 12 a" using take_bit_eq_mask [of 12 a] by (simp add: mask_eq_exp_minus_1)
  then have m: "unat (a AND 0xFFF) = unat a mod 4096" by (simp add: take_bit_eq_mod unat_mod)
  have "PGROUNDDOWN a = a - (a AND 0xFFF)" using page_offset(1) [of a] by (simp add: algebra_simps)
  then show ?thesis using m by (simp add: unat_sub_wrap minus_mod_eq_div_mult)
qed

section \<open>Properties\<close>

text \<open>
  C5. \<^verbatim>\<open>mappages\<close> on a well-formed page directory. For a range of addresses that does not wrap and has no present entry it
  neither faults nor panics. Either it returns 0 and exactly the pages that meet the range are mapped, in order, to consecutive
  frames from \<^verbatim>\<open>pa\<close> on with the given permissions, or it returns -1 and the allocator has no page left and only a proper
  prefix of them is mapped. All other addresses translate as before, and the directory stays well formed: every new page table
  is a page of its own, no longer free. It takes at most one page of the allocator for each page it maps.
\<close>

theorem mappages_maps:
  assumes "pt_inv s pgdir ps" "0 < unat sz" "unat va + unat sz \<le> 2 ^ 32"
    and n: "n = (unat va + unat sz - 1) div 4096 - unat va div 4096 + 1"
    and free: "\<And>vb. unat (vb - PGROUNDDOWN va) div 4096 < n \<Longrightarrow> pte_of (mem s) pgdir vb = None"
  shows "wp (mappages pgdir va sz pa perm s) (\<lambda>r t. \<exists>qs k. pt_inv t pgdir qs \<and> set qs \<subseteq> set ps \<and> length ps \<le> length qs + k \<and>
    pte_of (mem t) pgdir = map_range k (PGROUNDDOWN va) pa perm (pte_of (mem s) pgdir) \<and>
    (r = 0 \<and> k = n \<or> r = -1 \<and> k < n \<and> qs = []))"
proof -
  have e: "unat (va + sz - 1) = unat va + unat sz - 1"
  proof -
    have r: "va + sz - 1 = va + (sz - 1)" by simp
    have "unat (sz - 1) = unat sz - 1" using assms(2) by (subst unat_sub_wrap) simp
    moreover have "unat (va + (sz - 1)) = unat va + unat (sz - 1)" using assms(2,3) calculation by (subst unat_add_lem [symmetric]) simp
    ultimately show ?thesis unfolding r using assms(2) by simp
  qed
  have le: "unat va div 4096 \<le> (unat va + unat sz - 1) div 4096" by (rule div_le_mono) (use assms(2) in simp)
  have m: "unat (PGROUNDDOWN (va + sz - 1) - PGROUNDDOWN va) div 4096 = n - 1"
    using le unat_sub_wrap [of "PGROUNDDOWN (va + sz - 1)" "PGROUNDDOWN va"] unfolding PGROUNDDOWN_unat e n
    by (simp flip: diff_mult_distrib)
  have lt: "n - 1 < 1048576"
  proof -
    have "(unat va + unat sz - 1) div 4096 < 1048576" using assms(3) by (simp add: less_mult_imp_div_less)
    then show ?thesis by (simp add: n)
  qed
  have "wp (mappages_loop (n - 1) pgdir (PGROUNDDOWN va) pa perm s) (\<lambda>r t. \<exists>qs k. pt_inv t pgdir qs \<and> set qs \<subseteq> set ps \<and>
      length ps \<le> length qs + k \<and> pte_of (mem t) pgdir = map_range k (PGROUNDDOWN va) pa perm (pte_of (mem s) pgdir) \<and>
      (r = 0 \<and> k = n - 1 + 1 \<or> r = -1 \<and> k \<le> n - 1 \<and> qs = []))"
    by (rule wp_mappages_loop [OF assms(1) _ lt]) (use free n in \<open>auto simp: PGROUNDDOWN_unat\<close>)
  moreover have "k = n - 1 + 1 \<longleftrightarrow> k = n" "k \<le> n - 1 \<longleftrightarrow> k < n" for k using n by auto
  ultimately show ?thesis unfolding mappages_def Let_def m by simp
qed

definition one_page :: kmem where
  "one_page = kbase.extend kbase_run (kmem.fields (\<lambda>_. 0) True 0x80400000)"

lemma one_page: "pt_inv one_page 0x80300000 [0x80400000]" "pte_of (mem one_page) 0x80300000 vb = None"
  by (simp_all add: one_page_def pt_inv_def pte_of_def kmem_inv_def kpage_def load32_def V2P_def kbase_run_def kbase_boot_def
      kbase.defs kmem.defs)

theorem mappages_maps_witness:
  "\<exists>t. mappages 0x80300000 0x2010 100 0x5000 6 one_page = Ret 0 t \<and> pte_of (mem t) 0x80300000 0x2FFF = Some 0x5007 \<and>
     pte_of (mem t) 0x80300000 0x3000 = None"
proof -
  have a: "unat (PGROUNDDOWN 0x2010) = 8192" by (simp add: PGROUNDDOWN_unat)
  have "wp (mappages 0x80300000 0x2010 100 0x5000 6 one_page) (\<lambda>r t. \<exists>qs k. pt_inv t 0x80300000 qs \<and> set qs \<subseteq> set [0x80400000] \<and>
      length [0x80400000 :: u32] \<le> length qs + k \<and>
      pte_of (mem t) 0x80300000 = map_range k (PGROUNDDOWN 0x2010) 0x5000 6 (pte_of (mem one_page) 0x80300000) \<and>
      (r = 0 \<and> k = 1 \<or> r = -1 \<and> k < 1 \<and> qs = []))"
    by (rule mappages_maps [OF one_page(1)]) (simp_all add: one_page(2))
  then obtain r t k and qs :: "u32 list" where w: "mappages 0x80300000 0x2010 100 0x5000 6 one_page = Ret r t" "length [0x80400000 :: u32] \<le> length qs + k"
      "pte_of (mem t) 0x80300000 = map_range k (PGROUNDDOWN 0x2010) 0x5000 6 (pte_of (mem one_page) 0x80300000)"
      "r = 0 \<and> k = 1 \<or> r = -1 \<and> k < 1 \<and> qs = []" unfolding wp_iff by blast
  have "r = 0 \<and> k = 1" using w(2,4) by auto
  then show ?thesis using w(1,3) by (simp add: map_range_def Let_def unat_sub_wrap a one_page(2))
qed

end
