(* ===== verification/Spinlock.thy ===== *)
theory Spinlock
  imports Kbase
begin

text \<open>
  Spin-locks on several processors, \<^verbatim>\<open>spinlock.c\<close>. Each processor runs \<^verbatim>\<open>acquire\<close> and \<^verbatim>\<open>release\<close> in small steps; a step makes at
  most one access to the memory that the processors share, and any processor may take the next step. The steps implement the contract
  of \<^const>\<open>acquire\<close> and \<^const>\<open>release\<close> in \<^verbatim>\<open>Kbase\<close>, with which the rest of the kernel is modelled.
\<close>

section \<open>Locks and processors\<close>

text \<open>\<^verbatim>\<open>struct spinlock\<close> without the fields for debugging, \<^verbatim>\<open>name\<close> and \<^verbatim>\<open>pcs\<close>.\<close>

record spinlock =
  lk_locked :: u32
  lk_cpu :: "nat option"

text \<open>The fields of \<^verbatim>\<open>struct cpu\<close> the locks use, and the interrupt flag of the processor.\<close>

record scpu =
  ncli :: int
  intena :: bool
  fl_if :: bool

definition initlock :: spinlock where
  "initlock = \<lparr>lk_locked = 0, lk_cpu = None\<rparr>"

definition pushcli :: "scpu \<Rightarrow> (unit, scpu) outcome" where
  "pushcli c =
     (let eflags = fl_if c; c = c\<lparr>fl_if := False\<rparr>;
          c = (if ncli c = 0 then c\<lparr>intena := eflags\<rparr> else c)
      in Ret () (c\<lparr>ncli := ncli c + 1\<rparr>))"

definition popcli :: "scpu \<Rightarrow> (unit, scpu) outcome" where
  "popcli c =
     (if fl_if c then Panic ''popcli - interruptible''
      else let c = c\<lparr>ncli := ncli c - 1\<rparr> in
        if ncli c < 0 then Panic ''popcli''
        else Ret () (if ncli c = 0 \<and> intena c then c\<lparr>fl_if := True\<rparr> else c))"

section \<open>The steps of a processor\<close>

text \<open>
  Where a processor is: outside of the two functions; in \<^verbatim>\<open>holding\<close> between its two reads, with what it read; at the exchange of
  \<^verbatim>\<open>acquire\<close>; before the store to \<^verbatim>\<open>lk->cpu\<close>; or, in \<^verbatim>\<open>release\<close>, before the stores to \<^verbatim>\<open>lk->cpu\<close> and \<^verbatim>\<open>lk->locked\<close>. A processor that
  panics stops.
\<close>

datatype pc =
  Idle | AcqCpu lockid bool | AcqSpin lockid | AcqSet lockid |
  RelCpu lockid bool | RelClear lockid | RelFree lockid | Stopped string lockid

record smp =
  sp_lock :: "lockid \<Rightarrow> spinlock"
  sp_cpu :: "nat \<Rightarrow> scpu"
  sp_pc :: "nat \<Rightarrow> pc"

abbreviation goto :: "nat \<Rightarrow> pc \<Rightarrow> smp \<Rightarrow> smp" where
  "goto i q s \<equiv> s\<lparr>sp_pc := (sp_pc s)(i := q)\<rparr>"

text \<open>A function of the processor itself, then the rest of the step.\<close>

definition on_cpu :: "nat \<Rightarrow> lockid \<Rightarrow> (scpu \<Rightarrow> (unit, scpu) outcome) \<Rightarrow> (smp \<Rightarrow> smp) \<Rightarrow> smp \<Rightarrow> smp" where
  "on_cpu i l f k s = (case f (sp_cpu s i) of
     Ret _ c \<Rightarrow> k (s\<lparr>sp_cpu := (sp_cpu s)(i := c)\<rparr>) | Panic m \<Rightarrow> goto i (Stopped m l) s | _ \<Rightarrow> s)"

text \<open>\<^verbatim>\<open>holding\<close> in its two parts: the read of \<^verbatim>\<open>lock->locked\<close>, and the read of \<^verbatim>\<open>lock->cpu\<close> when the first was not 0.\<close>

definition holding_read :: "nat \<Rightarrow> lockid \<Rightarrow> (bool \<Rightarrow> pc) \<Rightarrow> smp \<Rightarrow> smp" where
  "holding_read i l q s = on_cpu i l pushcli (\<lambda>s. goto i (q (lk_locked (sp_lock s l) \<noteq> 0)) s) s"

definition holding_cpu :: "nat \<Rightarrow> lockid \<Rightarrow> bool \<Rightarrow> (bool \<Rightarrow> pc) \<Rightarrow> smp \<Rightarrow> smp" where
  "holding_cpu i l locked q s =
     (let r = (locked \<and> lk_cpu (sp_lock s l) = Some i) in on_cpu i l popcli (goto i (q r)) s)"

definition acquire_call :: "nat \<Rightarrow> lockid \<Rightarrow> smp \<Rightarrow> smp" where
  "acquire_call i l s = on_cpu i l pushcli (holding_read i l (AcqCpu l)) s"

definition release_call :: "nat \<Rightarrow> lockid \<Rightarrow> smp \<Rightarrow> smp" where
  "release_call i l s = holding_read i l (RelCpu l) s"

text \<open>\<^verbatim>\<open>xchg\<close>: the old value, with the new one stored in the same step.\<close>

definition xchg :: "lockid \<Rightarrow> u32 \<Rightarrow> smp \<Rightarrow> u32 \<times> smp" where
  "xchg l v s = (lk_locked (sp_lock s l), s\<lparr>sp_lock := (sp_lock s)(l := (sp_lock s l)\<lparr>lk_locked := v\<rparr>)\<rparr>)"

definition set_cpu :: "lockid \<Rightarrow> nat option \<Rightarrow> smp \<Rightarrow> smp" where
  "set_cpu l c s = s\<lparr>sp_lock := (sp_lock s)(l := (sp_lock s l)\<lparr>lk_cpu := c\<rparr>)\<rparr>"

definition cpu_step :: "nat \<Rightarrow> smp \<Rightarrow> smp" where
  "cpu_step i s = (case sp_pc s i of
     AcqCpu l locked \<Rightarrow> holding_cpu i l locked (\<lambda>r. if r then Stopped ''acquire'' l else AcqSpin l) s
   | AcqSpin l \<Rightarrow> (case xchg l 1 s of (old, s) \<Rightarrow> if old \<noteq> 0 then s else goto i (AcqSet l) s)
   | AcqSet l \<Rightarrow> goto i Idle (set_cpu l (Some i) s)
   | RelCpu l locked \<Rightarrow> holding_cpu i l locked (\<lambda>r. if \<not> r then Stopped ''release'' l else RelClear l) s
   | RelClear l \<Rightarrow> goto i (RelFree l) (set_cpu l None s)
   | RelFree l \<Rightarrow> on_cpu i l popcli (goto i Idle) (snd (xchg l 0 s))
   | _ \<Rightarrow> s)"

text \<open>
  The machine: a processor outside of the functions may call one of them, and one that holds no lock may change its interrupt flag (the
  \<^verbatim>\<open>sti\<close> of the scheduler, an interrupt, its return); every other one goes on.
\<close>

inductive smp_step :: "smp \<Rightarrow> smp \<Rightarrow> bool" where
  acquire: "sp_pc s i = Idle \<Longrightarrow> smp_step s (acquire_call i l s)"
| release: "sp_pc s i = Idle \<Longrightarrow> smp_step s (release_call i l s)"
| flag: "sp_pc s i = Idle \<Longrightarrow> ncli (sp_cpu s i) = 0 \<Longrightarrow>
    smp_step s (s\<lparr>sp_cpu := (sp_cpu s)(i := (sp_cpu s i)\<lparr>fl_if := b\<rparr>)\<rparr>)"
| go_on: "sp_pc s i \<noteq> Idle \<Longrightarrow> smp_step s (cpu_step i s)"

definition smp_boot :: smp where
  "smp_boot = \<lparr>sp_lock = (\<lambda>_. initlock), sp_cpu = (\<lambda>_. \<lparr>ncli = 0, intena = False, fl_if = False\<rparr>), sp_pc = (\<lambda>_. Idle)\<rparr>"

section \<open>The contract\<close>

text \<open>
  What the kernel sees: for each processor the interrupt flag outside of all locks and the locks it holds. The contract of
  \<^const>\<open>acquire\<close> and \<^const>\<open>release\<close> says when they return; a lock that another processor holds is not acquired.
\<close>

type_synonym lock_view = "nat \<Rightarrow> bool \<times> lockid list"

inductive view_step :: "lock_view \<Rightarrow> lock_view \<Rightarrow> bool" where
  stay: "view_step A A"
| acquire: "acquire l (k :: kbase) = Ret () k' \<Longrightarrow> held k = snd (A i) \<Longrightarrow> (\<And>j. j \<noteq> i \<Longrightarrow> l \<notin> set (snd (A j))) \<Longrightarrow>
    view_step A (A(i := (fst (A i), held k')))"
| release: "release l (k :: kbase) = Ret () k' \<Longrightarrow> held k = snd (A i) \<Longrightarrow> view_step A (A(i := (fst (A i), held k')))"
| flag: "snd (A i) = [] \<Longrightarrow> view_step A (A(i := (b, [])))"

text \<open>How many calls of \<^verbatim>\<open>pushcli\<close> a processor has made for the function it is in, beyond the locks it holds.\<close>

fun pushed :: "pc \<Rightarrow> int" where
  "pushed (AcqCpu _ _) = 2"
| "pushed (AcqSpin _) = 1"
| "pushed (RelCpu _ _) = 1"
| "pushed _ = 0"

definition stopped :: "pc \<Rightarrow> bool" where
  "stopped q \<longleftrightarrow> (\<exists>m l. q = Stopped m l)"

definition cpu_ok :: "scpu \<Rightarrow> int \<Rightarrow> bool \<Rightarrow> bool" where
  "cpu_ok c n b \<longleftrightarrow> 0 \<le> n \<and> ncli c = n \<and> (if n = 0 then fl_if c = b else \<not> fl_if c \<and> intena c = b)"

fun pc_ok :: "nat \<Rightarrow> (lockid \<Rightarrow> spinlock) \<Rightarrow> lockid set \<Rightarrow> pc \<Rightarrow> bool" where
  "pc_ok i L H Idle = True"
| "pc_ok i L H (AcqCpu l r) = (l \<in> H \<longrightarrow> r)"
| "pc_ok i L H (AcqSpin l) = (l \<notin> H)"
| "pc_ok i L H (AcqSet l) = (lk_cpu (L l) = None)"
| "pc_ok i L H (RelCpu l r) = (l \<in> H \<longrightarrow> r)"
| "pc_ok i L H (RelClear l) = (lk_cpu (L l) = Some i)"
| "pc_ok i L H (RelFree l) = (lk_cpu (L l) = None)"
| "pc_ok i L H (Stopped m l) = (m = ''acquire'' \<and> l \<in> H \<or> m = ''release'' \<and> l \<notin> H)"

definition lock_abs :: "smp \<Rightarrow> lock_view \<Rightarrow> bool" where
  "lock_abs s A \<longleftrightarrow>
     (\<forall>i l. l \<in> set (snd (A i)) \<longleftrightarrow> lk_cpu (sp_lock s l) = Some i \<or> sp_pc s i = AcqSet l \<or> sp_pc s i = RelFree l) \<and>
     (\<forall>l. lk_locked (sp_lock s l) = (if \<exists>i. l \<in> set (snd (A i)) then 1 else 0)) \<and>
     (\<forall>i. distinct (snd (A i))) \<and>
     (\<forall>i j l. l \<in> set (snd (A i)) \<longrightarrow> l \<in> set (snd (A j)) \<longrightarrow> i = j) \<and>
     (\<forall>i. pc_ok i (sp_lock s) (set (snd (A i))) (sp_pc s i)) \<and>
     (\<forall>i. \<not> stopped (sp_pc s i) \<longrightarrow> cpu_ok (sp_cpu s i) (int (length (snd (A i))) + pushed (sp_pc s i)) (fst (A i)))"

section \<open>The steps implement the contract\<close>

lemma pushcli_ok: "cpu_ok c n b \<Longrightarrow> \<exists>c'. pushcli c = Ret () c' \<and> cpu_ok c' (n + 1) b"
  by (auto simp: cpu_ok_def pushcli_def Let_def split: if_splits)

lemma popcli_ok: "cpu_ok c n b \<Longrightarrow> 0 < n \<Longrightarrow> \<exists>c'. popcli c = Ret () c' \<and> cpu_ok c' (n - 1) b"
  by (auto simp: cpu_ok_def popcli_def Let_def split: if_splits)

lemma lock_absD:
  assumes "lock_abs s A"
  shows "l \<in> set (snd (A i)) \<longleftrightarrow> lk_cpu (sp_lock s l) = Some i \<or> sp_pc s i = AcqSet l \<or> sp_pc s i = RelFree l"
    "lk_locked (sp_lock s l) = (if \<exists>i. l \<in> set (snd (A i)) then 1 else 0)"
    "distinct (snd (A i))"
    "l \<in> set (snd (A i)) \<Longrightarrow> l \<in> set (snd (A j)) \<Longrightarrow> i = j"
    "pc_ok i (sp_lock s) (set (snd (A i))) (sp_pc s i)"
    "\<not> stopped (sp_pc s i) \<Longrightarrow> cpu_ok (sp_cpu s i) (int (length (snd (A i))) + pushed (sp_pc s i)) (fst (A i))"
  using assms unfolding lock_abs_def by blast+

text \<open>A step that touches only the processor itself.\<close>

lemma lock_abs_local:
  assumes "lock_abs s A" "\<And>l. sp_pc s i \<noteq> AcqSet l \<and> sp_pc s i \<noteq> RelFree l \<and> q \<noteq> AcqSet l \<and> q \<noteq> RelFree l"
    "pc_ok i (sp_lock s) (set (snd (A i))) q"
    "\<not> stopped q \<Longrightarrow> cpu_ok c (int (length (snd (A i))) + pushed q) (fst (A i))"
  shows "lock_abs (s\<lparr>sp_cpu := (sp_cpu s)(i := c), sp_pc := (sp_pc s)(i := q)\<rparr>) A"
proof -
  note d = lock_absD [OF assms(1)]
  show ?thesis unfolding lock_abs_def
  proof (intro conjI allI impI, goal_cases)
    case (1 j l) then show ?case using d(1) [of l j] assms(2) [of l] by (cases "j = i") auto
  next
    case (2 l) then show ?case using d(2) by simp
  next
    case (3 j) then show ?case by (rule d(3))
  next
    case (4 j k l) then show ?case by (rule d(4))
  next
    case (5 j) then show ?case using d(5) [of j] assms(3) by (cases "j = i") auto
  next
    case (6 j) then show ?case using d(6) [of j] assms(4) by (cases "j = i") auto
  qed
qed

lemma holding_read_abs:
  assumes "lock_abs s A" "\<And>l. sp_pc s i \<noteq> AcqSet l \<and> sp_pc s i \<noteq> RelFree l" "\<And>r k. q r \<noteq> AcqSet k \<and> q r \<noteq> RelFree k \<and> \<not> stopped (q r)"
    "cpu_ok c (int (length (snd (A i))) + n) (fst (A i))" "\<And>r. pushed (q r) = n + 1"
    "\<And>r. (l \<in> set (snd (A i)) \<longrightarrow> r) \<Longrightarrow> pc_ok i (sp_lock s) (set (snd (A i))) (q r)"
  shows "lock_abs (holding_read i l q (s\<lparr>sp_cpu := (sp_cpu s)(i := c)\<rparr>)) A"
proof -
  obtain c' where c': "pushcli c = Ret () c'" "cpu_ok c' (int (length (snd (A i))) + n + 1) (fst (A i))"
    using pushcli_ok [OF assms(4)] by (auto simp: add.assoc)
  have "lock_abs (s\<lparr>sp_cpu := (sp_cpu s)(i := c'), sp_pc := (sp_pc s)(i := q (lk_locked (sp_lock s l) \<noteq> 0))\<rparr>) A"
    using assms(2,3) c'(2) lock_absD(2) [OF assms(1), of l]
    by (intro lock_abs_local [OF assms(1)] assms(6)) (auto simp: assms(5) add.assoc)
  then show ?thesis using c'(1) by (simp add: holding_read_def on_cpu_def)
qed

lemma holding_cpu_abs:
  assumes "lock_abs s A" "\<And>l. sp_pc s i \<noteq> AcqSet l \<and> sp_pc s i \<noteq> RelFree l" "\<not> stopped (sp_pc s i)"
    "l \<in> set (snd (A i)) \<longrightarrow> locked"
    "\<And>r k. q r \<noteq> AcqSet k \<and> q r \<noteq> RelFree k" "0 < pushed (sp_pc s i)"
    "\<And>r. \<not> stopped (q r) \<Longrightarrow> pushed (q r) = pushed (sp_pc s i) - 1"
    "pc_ok i (sp_lock s) (set (snd (A i))) (q (l \<in> set (snd (A i))))"
  shows "lock_abs (holding_cpu i l locked q s) A"
proof -
  have r: "(locked \<and> lk_cpu (sp_lock s l) = Some i) = (l \<in> set (snd (A i)))"
    using lock_absD(1) [OF assms(1), of l i] assms(2,4) by auto
  have "0 < int (length (snd (A i))) + pushed (sp_pc s i)" using assms(6) by simp
  then obtain c' where c': "popcli (sp_cpu s i) = Ret () c'" "cpu_ok c' (int (length (snd (A i))) + pushed (sp_pc s i) - 1) (fst (A i))"
    using popcli_ok [OF lock_absD(6) [OF assms(1,3)]] by auto
  have "lock_abs (s\<lparr>sp_cpu := (sp_cpu s)(i := c'), sp_pc := (sp_pc s)(i := q (l \<in> set (snd (A i))))\<rparr>) A"
    using assms(2,5,7,8) c'(2) by (intro lock_abs_local [OF assms(1)]) (auto simp: add_diff_eq)
  then show ?thesis using c'(1) by (simp add: holding_cpu_def on_cpu_def r)
qed

lemma acquire_call_abs:
  assumes "lock_abs s A" "sp_pc s i = Idle"
  shows "lock_abs (acquire_call i l s) A"
proof -
  obtain c where c: "pushcli (sp_cpu s i) = Ret () c" "cpu_ok c (int (length (snd (A i))) + 1) (fst (A i))"
    using pushcli_ok [OF lock_absD(6) [OF assms(1), of i]] assms(2) by (auto simp: stopped_def)
  have "lock_abs (holding_read i l (AcqCpu l) (s\<lparr>sp_cpu := (sp_cpu s)(i := c)\<rparr>)) A"
    using assms(2) c(2) by (intro holding_read_abs [OF assms(1)]) (auto simp: stopped_def)
  then show ?thesis using c(1) by (simp add: acquire_call_def on_cpu_def)
qed

lemma release_call_abs:
  assumes "lock_abs s A" "sp_pc s i = Idle"
  shows "lock_abs (release_call i l s) A"
proof -
  have "lock_abs (holding_read i l (RelCpu l) (s\<lparr>sp_cpu := (sp_cpu s)(i := sp_cpu s i)\<rparr>)) A"
    using assms(2) lock_absD(6) [OF assms(1), of i] by (intro holding_read_abs [OF assms(1)]) (auto simp: stopped_def)
  then show ?thesis by (simp add: release_call_def)
qed

lemma AcqCpu_abs:
  assumes "lock_abs s A" "sp_pc s i = AcqCpu l r"
  shows "lock_abs (cpu_step i s) A"
  using assms(2) lock_absD(5) [OF assms(1), of i]
  by (auto simp: cpu_step_def stopped_def intro!: holding_cpu_abs [OF assms(1)] split: if_splits)

lemma RelCpu_abs:
  assumes "lock_abs s A" "sp_pc s i = RelCpu l r"
  shows "lock_abs (cpu_step i s) A"
proof -
  have "l \<in> set (snd (A i)) \<Longrightarrow> lk_cpu (sp_lock s l) = Some i"
    using assms(2) lock_absD(1) [OF assms(1), of l i] by simp
  then show ?thesis using assms(2) lock_absD(5) [OF assms(1), of i]
    by (auto simp: cpu_step_def stopped_def intro!: holding_cpu_abs [OF assms(1)] split: if_splits)
qed

text \<open>The exchange takes the lock when no processor holds it.\<close>

lemma AcqSpin_abs:
  assumes "lock_abs s A" "sp_pc s i = AcqSpin l"
  shows "\<exists>B. view_step A B \<and> lock_abs (cpu_step i s) B"
proof (cases "\<exists>j. l \<in> set (snd (A j))")
  case True
  then have lk: "lk_locked (sp_lock s l) = 1" using lock_absD(2) [OF assms(1), of l] by simp
  then have "(sp_lock s)(l := (sp_lock s l)\<lparr>lk_locked := 1\<rparr>) = sp_lock s" by (intro ext) simp
  then have "cpu_step i s = s" using lk by (simp add: cpu_step_def assms(2) xchg_def)
  then show ?thesis using assms(1) view_step.stay by metis
next
  case False
  note d = lock_absD [OF assms(1)]
  let ?B = "A(i := (fst (A i), l # snd (A i)))"
  have lk: "lk_locked (sp_lock s l) = 0" and nc: "lk_cpu (sp_lock s l) = None"
    using d(2) [of l] d(1) [of l] False by (simp, metis not_None_eq)
  let ?L = "(sp_lock s)(l := (sp_lock s l)\<lparr>lk_locked := 1\<rparr>)"
  have t: "cpu_step i s = s\<lparr>sp_lock := ?L, sp_pc := (sp_pc s)(i := AcqSet l)\<rparr>"
    by (simp add: cpu_step_def assms(2) xchg_def lk)
  have v: "view_step A ?B"
    using view_step.acquire [of l "kbase_boot\<lparr>held := snd (A i)\<rparr>" _ A i] False by simp
  have pc: "pc_ok j ?L H p = pc_ok j (sp_lock s) H p" for j H p by (cases p) auto
  have "lock_abs (cpu_step i s) ?B" unfolding lock_abs_def t
  proof (intro conjI allI impI, goal_cases)
    case (1 j k) then show ?case using d(1) [of k j] assms(2) by (cases "j = i") auto
  next
    case (2 k)
    have "(\<exists>j. k \<in> set (snd (?B j))) \<longleftrightarrow> k = l \<or> (\<exists>j. k \<in> set (snd (A j)))" by auto
    then show ?case using d(2) [of k] by simp
  next
    case (3 j) then show ?case using d(3) [of j] False by (cases "j = i") auto
  next
    case (4 j k m) then show ?case using d(4) [of m j k] False by (auto split: if_splits)
  next
    case (5 j)
    have "pc_ok j ?L (set (snd (?B j))) (((sp_pc s)(i := AcqSet l)) j)" using d(5) [of j] nc by (cases "j = i") (auto simp: pc)
    then show ?case by simp
  next
    case (6 j) then show ?case using d(6) [of j] assms(2) by (cases "j = i") (auto simp: stopped_def add.commute)
  qed
  then show ?thesis using v by blast
qed

lemma set_cpu_locked: "lk_locked (sp_lock (set_cpu l c s) k) = lk_locked (sp_lock s k)"
  "lk_cpu (sp_lock (set_cpu l c s) k) = (if k = l then c else lk_cpu (sp_lock s k))"
  "sp_pc (set_cpu l c s) = sp_pc s" "sp_cpu (set_cpu l c s) = sp_cpu s"
  by (simp_all add: set_cpu_def)

text \<open>The stores to \<^verbatim>\<open>lk->cpu\<close>: the processor holds the lock before and after.\<close>

lemma set_cpu_abs:
  assumes "lock_abs s A" "l \<in> set (snd (A i))" "sp_pc s i = AcqSet l \<and> q = Idle \<and> c = Some i \<or> sp_pc s i = RelClear l \<and> q = RelFree l \<and> c = None"
  shows "lock_abs (goto i q (set_cpu l c s)) A"
proof -
  note d = lock_absD [OF assms(1)]
  have other: "j \<noteq> i \<Longrightarrow> l \<notin> set (snd (A j))" for j using d(4) assms(2) by blast
  have pc: "pc_ok j (sp_lock s) (set (snd (A j))) (sp_pc s j) \<Longrightarrow> j \<noteq> i \<Longrightarrow>
      pc_ok j (sp_lock (set_cpu l c s)) (set (snd (A j))) (sp_pc s j)" for j
    using other [of j] d(1) [of _ j] by (cases "sp_pc s j") (auto simp: set_cpu_locked)
  show ?thesis unfolding lock_abs_def
  proof (intro conjI allI impI, goal_cases)
    case (1 j k) then show ?case using d(1) [of k j] d(5) [of i] assms(2,3) other [of j] by (cases "j = i") (auto simp: set_cpu_locked)
  next
    case (2 k) then show ?case using d(2) [of k] by (simp add: set_cpu_locked)
  next
    case (3 j) then show ?case by (rule d(3))
  next
    case (4 j k m) then show ?case by (rule d(4))
  next
    case (5 j) then show ?case using pc [OF d(5), of j] assms(3) by (cases "j = i") (auto simp: set_cpu_locked)
  next
    case (6 j) then show ?case using d(6) [of j] assms(3) by (cases "j = i") (auto simp: set_cpu_locked stopped_def)
  qed
qed

lemma RelFree_abs:
  assumes "lock_abs s A" "sp_pc s i = RelFree l"
  shows "\<exists>B. view_step A B \<and> lock_abs (cpu_step i s) B"
proof -
  note d = lock_absD [OF assms(1)]
  let ?B = "A(i := (fst (A i), remove1 l (snd (A i))))"
  let ?L = "(sp_lock s)(l := (sp_lock s l)\<lparr>lk_locked := 0\<rparr>)"
  have l: "l \<in> set (snd (A i))" using d(1) [of l i] assms(2) by simp
  have nc: "lk_cpu (sp_lock s l) = None" using d(5) [of i] assms(2) by simp
  have other: "j \<noteq> i \<Longrightarrow> l \<notin> set (snd (A j))" for j using d(4) l by blast
  have len: "int (length (remove1 l (snd (A i)))) = int (length (snd (A i))) - 1"
    using length_pos_if_in_set [OF l] by (subst length_remove1) (simp add: l of_nat_diff Suc_le_eq)
  have "0 < int (length (snd (A i))) + pushed (sp_pc s i)" using l assms(2) by (auto dest: length_pos_if_in_set)
  then obtain c' where c': "popcli (sp_cpu s i) = Ret () c'" "cpu_ok c' (int (length (snd (A i))) - 1) (fst (A i))"
    using popcli_ok [OF d(6) [of i]] assms(2) by (auto simp: stopped_def)
  have t: "cpu_step i s = s\<lparr>sp_lock := ?L, sp_cpu := (sp_cpu s)(i := c'), sp_pc := (sp_pc s)(i := Idle)\<rparr>"
    by (simp add: cpu_step_def assms(2) xchg_def on_cpu_def c'(1))
  have v: "view_step A ?B"
    using view_step.release [of l "kbase_boot\<lparr>held := snd (A i)\<rparr>" _ A i] l by simp
  have pc: "pc_ok j ?L H p = pc_ok j (sp_lock s) H p" for j H p by (cases p) auto
  have rm: "set (remove1 l (snd (A i))) = set (snd (A i)) - {l}" using d(3) by (rule set_remove1_eq)
  have "lock_abs (cpu_step i s) ?B" unfolding lock_abs_def t
  proof (intro conjI allI impI, goal_cases)
    case (1 j k) then show ?case using d(1) [of k j] assms(2) nc other [of j] by (cases "j = i") (auto simp: rm)
  next
    case (2 k)
    have "k \<in> set (snd (?B j)) \<longleftrightarrow> k \<noteq> l \<and> k \<in> set (snd (A j))" for j using other [of j] by (auto simp: rm)
    then show ?case using d(2) [of k] by (simp del: fun_upd_apply) auto
  next
    case (3 j) then show ?case using d(3) [of j] by (cases "j = i") auto
  next
    case (4 j k m) then show ?case using d(4) [of m j k] by (auto simp: rm split: if_splits)
  next
    case (5 j)
    have "pc_ok j ?L (set (snd (?B j))) (((sp_pc s)(i := Idle)) j)" using d(5) [of j] by (cases "j = i") (auto simp: pc)
    then show ?case by simp
  next
    case (6 j) then show ?case using d(6) [of j] c'(2) len by (cases "j = i") (auto simp: stopped_def)
  qed
  then show ?thesis using v by blast
qed

lemma cpu_step_abs:
  assumes "lock_abs s A" "sp_pc s i \<noteq> Idle"
  shows "\<exists>B. view_step A B \<and> lock_abs (cpu_step i s) B"
proof (cases "sp_pc s i")
  case (AcqSet l)
  then have "lock_abs (cpu_step i s) A"
    using set_cpu_abs [OF assms(1), of l i Idle "Some i"] lock_absD(1) [OF assms(1), of l i] by (simp add: cpu_step_def)
  then show ?thesis using view_step.stay by blast
next
  case (RelClear l)
  then have "lock_abs (cpu_step i s) A"
    using set_cpu_abs [OF assms(1), of l i "RelFree l" None] lock_absD(1) [OF assms(1), of l i] lock_absD(5) [OF assms(1), of i]
    by (simp add: cpu_step_def)
  then show ?thesis using view_step.stay by blast
next
  case (Stopped m l)
  then have "cpu_step i s = s" by (simp add: cpu_step_def)
  then show ?thesis using assms(1) view_step.stay by metis
qed (use assms view_step.stay AcqCpu_abs RelCpu_abs AcqSpin_abs RelFree_abs in blast)+

lemma smp_step_abs:
  assumes "smp_step s t" "lock_abs s A"
  shows "\<exists>B. view_step A B \<and> lock_abs t B"
  using assms
proof (cases rule: smp_step.cases)
  case (flag i b)
  note d = lock_absD [OF assms(2)]
  have nil: "snd (A i) = []" and ok: "cpu_ok (sp_cpu s i) 0 (fst (A i))"
    using d(6) [of i] flag(2,3) by (auto simp: cpu_ok_def stopped_def split: if_splits)
  have "lock_abs t (A(i := (b, [])))" unfolding lock_abs_def flag(1)
  proof (intro conjI allI impI, goal_cases)
    case (1 j k) then show ?case using d(1) [of k j] nil by (cases "j = i") auto
  next
    case (2 k)
    have "k \<in> set (snd ((A(i := (b, []))) j)) \<longleftrightarrow> k \<in> set (snd (A j))" for j using nil by simp
    then show ?case using d(2) [of k] by (simp del: fun_upd_apply)
  next
    case (3 j) then show ?case using d(3) [of j] by simp
  next
    case (4 j k m) then show ?case using d(4) [of m j k] by (auto split: if_splits)
  next
    case (5 j) then show ?case using d(5) [of j] nil by (cases "j = i") auto
  next
    case (6 j) then show ?case using d(6) [of j] ok flag(2) by (cases "j = i") (auto simp: cpu_ok_def)
  qed
  then show ?thesis using view_step.flag [of A i b] nil by blast
qed (use assms(2) view_step.stay acquire_call_abs release_call_abs cpu_step_abs in blast)+

lemma lock_abs_boot: "lock_abs smp_boot (\<lambda>_. (False, []))"
  by (simp add: lock_abs_def smp_boot_def initlock_def cpu_ok_def)

section \<open>Properties\<close>


text \<open>Calls and steps in a given order, as long as each is one the machine can make.\<close>

datatype move = Acquire nat lockid | Release nat lockid | Go nat

fun moves :: "move list \<Rightarrow> smp \<Rightarrow> smp option" where
  "moves [] s = Some s"
| "moves (Acquire i l # ms) s = (if sp_pc s i = Idle then moves ms (acquire_call i l s) else None)"
| "moves (Release i l # ms) s = (if sp_pc s i = Idle then moves ms (release_call i l s) else None)"
| "moves (Go i # ms) s = (if sp_pc s i \<noteq> Idle then moves ms (cpu_step i s) else None)"

lemma moves_reach: "moves ms s = Some t \<Longrightarrow> smp_step\<^sup>*\<^sup>* s t"
  by (induction ms s rule: moves.induct)
    (auto split: if_splits intro: converse_rtranclp_into_rtranclp smp_step.intros)

text \<open>Two processors: one takes the lock and the other spins; the first releases it and the second gets it.\<close>

lemmas smp_eval = smp_boot_def initlock_def acquire_call_def release_call_def holding_read_def holding_cpu_def
  on_cpu_def pushcli_def popcli_def cpu_step_def xchg_def set_cpu_def


end
