(* ===== verification/User.thy ===== *)
theory User
  imports Cprintf CString Layout
begin

text \<open>
  What the user programs run on: the system calls they make for input and output, with the descriptors of one process as its state,
  formatted output (\<^verbatim>\<open>printf.c\<close>), and the input functions of \<^verbatim>\<open>ulib.c\<close>. A program that calls \<^verbatim>\<open>exit\<close> ends with
  the outcome \<^const>\<open>Switch\<close>.
\<close>

section \<open>System calls for input and output\<close>

text \<open>
  The open descriptors, each with the input that is still to be read, in the portions in which it becomes available: a file is
  one portion, a pipe or the console may have many, and an empty portion is an end of input. \<open>u_out\<close> is what was written to
  each descriptor, and \<open>u_files\<close> the contents of the files that can be opened for reading.
\<close>

record uenv =
  u_ofile :: "bytes list option list"
  u_out :: "nat \<Rightarrow> bytes"
  u_files :: "bytes \<Rightarrow> bytes option"

definition ufd :: "int \<Rightarrow> uenv \<Rightarrow> bytes list option" where
  "ufd fd s = (if 0 \<le> fd \<and> nat fd < length (u_ofile s) then u_ofile s ! nat fd else None)"

text \<open>A read gets what is there, up to the length asked for.\<close>

definition uread :: "int \<Rightarrow> nat \<Rightarrow> uenv \<Rightarrow> (int \<times> bytes, uenv) outcome" where
  "uread fd n s =
     (case ufd fd s of None \<Rightarrow> Ret (-1, []) s
      | Some [] \<Rightarrow> Ret (0, []) s
      | Some (c # cs) \<Rightarrow>
          Ret (int (length (take n c)), take n c)
            (s\<lparr>u_ofile := (u_ofile s)[nat fd := Some (if length c \<le> n then cs else drop n c # cs)]\<rparr>))"

definition uwrite :: "int \<Rightarrow> bytes \<Rightarrow> uenv \<Rightarrow> (int, uenv) outcome" where
  "uwrite fd b s =
     (case ufd fd s of None \<Rightarrow> Ret (-1) s
      | Some _ \<Rightarrow> Ret (int (length b)) (s\<lparr>u_out := (u_out s)(nat fd := u_out s (nat fd) @ b)\<rparr>))"

definition uopen :: "bytes \<Rightarrow> uenv \<Rightarrow> (int, uenv) outcome" where
  "uopen path s =
     (case (u_files s path, find_idx (\<lambda>f. f = None) (u_ofile s)) of
        (Some b, Some fd) \<Rightarrow> Ret (int fd) (s\<lparr>u_ofile := (u_ofile s)[fd := Some [b]]\<rparr>)
      | _ \<Rightarrow> Ret (-1) s)"

definition uclose :: "int \<Rightarrow> uenv \<Rightarrow> (int, uenv) outcome" where
  "uclose fd s =
     (case ufd fd s of None \<Rightarrow> Ret (-1) s | Some _ \<Rightarrow> Ret 0 (s\<lparr>u_ofile := (u_ofile s)[nat fd := None]\<rparr>))"

text \<open>The input that is left, counted so that every successful read makes it smaller.\<close>

definition uleft :: "int \<Rightarrow> uenv \<Rightarrow> nat" where
  "uleft fd s = (case ufd fd s of None \<Rightarrow> 0 | Some cs \<Rightarrow> length (concat cs))"

lemma uread_left:
  assumes "uread fd n s = Ret (r, d) s'" "0 < r"
  shows "uleft fd s' < uleft fd s"
  using assms by (auto simp: uread_def uleft_def ufd_def split: option.splits list.splits if_splits)

lemma case_prod_apply_cong [fundef_cong]:
  "p = q \<Longrightarrow> s = t \<Longrightarrow> (\<And>a b. q = (a, b) \<Longrightarrow> f a b t = g a b t) \<Longrightarrow> case_prod f p s = case_prod g q t"
  by (cases q) simp

lemma ufd_u_out [simp]: "ufd fd (s\<lparr>u_out := f\<rparr>) = ufd fd s"
  and uleft_u_out [simp]: "uleft fd (s\<lparr>u_out := f\<rparr>) = uleft fd s"
  by (simp_all add: ufd_def uleft_def)

section \<open>Formatted output\<close>

definition uputc :: "int \<Rightarrow> u8 \<Rightarrow> uenv \<Rightarrow> (unit, uenv) outcome" where
  "uputc fd c s = kbind (uwrite fd [c] s) (\<lambda>_ s. Ret () s)"

definition udigit :: "nat \<Rightarrow> u8" where
  "udigit d = lit ''0123456789ABCDEF'' ! d"

definition uprintint :: "int \<Rightarrow> u32 \<Rightarrow> nat \<Rightarrow> bool \<Rightarrow> uenv \<Rightarrow> (unit, uenv) outcome" where
  "uprintint fd xx base sgnd s =
     (let buf = int_buf udigit xx base sgnd in if length buf > 16 then undef else kfor (rev buf) (uputc fd) s)"

text \<open>
  The loop of \<^verbatim>\<open>printf\<close> on the rest of the format, with \<^verbatim>\<open>state\<close> as the flag that the last character was a percent sign.
\<close>

fun printf_loop :: "int \<Rightarrow> bool \<Rightarrow> bytes \<Rightarrow> arg list \<Rightarrow> uenv \<Rightarrow> (unit, uenv) outcome" where
  "printf_loop fd st [] args s = Ret () s"
| "printf_loop fd st (c # fmt) args s =
     (if \<not> st then
        if c = 37 then printf_loop fd True fmt args s
        else kbind (uputc fd c s) (\<lambda>_ s. printf_loop fd False fmt args s)
      else if c = 100 then
        (case args of ANum v # args \<Rightarrow> kbind (uprintint fd v 10 True s) (\<lambda>_ s. printf_loop fd False fmt args s)
         | _ \<Rightarrow> undef)
      else if c = 120 \<or> c = 112 then
        (case args of ANum v # args \<Rightarrow> kbind (uprintint fd v 16 False s) (\<lambda>_ s. printf_loop fd False fmt args s)
         | _ \<Rightarrow> undef)
      else if c = 115 then
        (case args of AStr so # args \<Rightarrow>
           kbind (kfor (case so of None \<Rightarrow> lit ''(null)'' | Some cs \<Rightarrow> cs) (uputc fd) s) (\<lambda>_ s. printf_loop fd False fmt args s)
         | _ \<Rightarrow> undef)
      else if c = 99 then
        (case args of ANum v # args \<Rightarrow> kbind (uputc fd (ucast v) s) (\<lambda>_ s. printf_loop fd False fmt args s)
         | _ \<Rightarrow> undef)
      else if c = 37 then kbind (uputc fd c s) (\<lambda>_ s. printf_loop fd False fmt args s)
      else kbind (uputc fd 37 s) (\<lambda>_ s. kbind (uputc fd c s) (\<lambda>_ s. printf_loop fd False fmt args s)))"

definition printf :: "int \<Rightarrow> bytes \<Rightarrow> arg list \<Rightarrow> uenv \<Rightarrow> (unit, uenv) outcome" where
  "printf fd fmt args s = printf_loop fd False fmt args s"

section \<open>Input of lines\<close>

text \<open>The loop of \<^verbatim>\<open>gets\<close> with the cells of the buffer that are left, the one for the NUL not counted: what it stores.\<close>

fun gets_loop :: "nat \<Rightarrow> uenv \<Rightarrow> (bytes, uenv) outcome" where
  "gets_loop 0 s = Ret [] s"
| "gets_loop (Suc n) s =
     kbind (uread 0 1 s) (\<lambda>(cc, d) s.
     if cc < 1 then Ret [] s
     else if hd d = NEWLINE \<or> hd d = 13 then Ret [hd d] s
     else kbind (gets_loop n s) (\<lambda>w s. Ret (hd d # w) s))"

definition gets :: "bytes \<Rightarrow> int \<Rightarrow> uenv \<Rightarrow> (bytes, uenv) outcome" where
  "gets buf mx s =
     kbind (gets_loop (nat (mx - 1)) s) (\<lambda>w s.
     if length w < length buf then Ret (blit 0 (w @ [0]) buf) s else undef)"

text \<open>\<^verbatim>\<open>readline\<close> of the user library, which does not store the newline.\<close>

fun ureadline_loop :: "int \<Rightarrow> nat \<Rightarrow> uenv \<Rightarrow> (bytes, uenv) outcome" where
  "ureadline_loop fd 0 s = Ret [] s"
| "ureadline_loop fd (Suc n) s =
     kbind (uread fd 1 s) (\<lambda>(read_result, d) s.
     if read_result \<le> 0 \<or> hd d = NEWLINE then Ret [] s
     else kbind (ureadline_loop fd n s) (\<lambda>w s. Ret (hd d # w) s))"

definition ureadline :: "int \<Rightarrow> bytes \<Rightarrow> int \<Rightarrow> uenv \<Rightarrow> (int \<times> bytes, uenv) outcome" where
  "ureadline fd buffer max_len s =
     kbind (ureadline_loop fd (nat (max_len - 1)) s) (\<lambda>w s.
     if length w < length buffer then Ret (int (length w), blit 0 (w @ [0]) buffer) s else undef)"

section \<open>What is written\<close>

definition uput :: "int \<Rightarrow> bytes \<Rightarrow> uenv \<Rightarrow> uenv" where
  "uput fd b s = (if ufd fd s = None then s else s\<lparr>u_out := (u_out s)(nat fd := u_out s (nat fd) @ b)\<rparr>)"

lemma uput_Nil [simp]: "uput fd [] s = s"
  by (simp add: uput_def)

lemma uput_keeps [simp]: "ufd fd' (uput fd b s) = ufd fd' s" "u_ofile (uput fd b s) = u_ofile s" "u_files (uput fd b s) = u_files s"
    "uleft fd' (uput fd b s) = uleft fd' s"
  by (simp_all add: uput_def)

lemma uput_uput [simp]: "uput fd b (uput fd a s) = uput fd (a @ b) s"
  by (simp add: uput_def)

lemma u_out_uput: "ufd fd s \<noteq> None \<Longrightarrow> u_out (uput fd b s) = (u_out s)(nat fd := u_out s (nat fd) @ b)"
  by (auto simp: uput_def)

lemma uwrite_eq: "uwrite fd b s = Ret (if ufd fd s = None then -1 else int (length b)) (uput fd b s)"
  by (simp add: uwrite_def uput_def split: option.split)

lemma uputc_eq [simp]: "uputc fd c s = Ret () (uput fd [c] s)"
  by (simp add: uputc_def uwrite_eq)

lemma kfor_uputc [simp]: "kfor cs (uputc fd) s = Ret () (uput fd cs s)"
  by (induction cs arbitrary: s) simp_all

definition show_unum :: "nat \<Rightarrow> int \<Rightarrow> bytes" where
  "show_unum base i = (if i < 0 then lit ''-'' else []) @ map udigit (rev (digits_loop base (nat \<bar>i\<bar>)))"

lemma uprintint_eq:
  assumes "10 \<le> base"
  shows "uprintint fd xx base sign s = Ret () (uput fd (show_unum base (if sign then sint xx else uint xx)) s)"
proof -
  have "\<not> length (int_buf udigit xx base sign) > 16" using int_buf_text(1) [OF assms, of udigit xx sign] by simp
  then show ?thesis by (simp add: uprintint_def Let_def int_buf_text(2) [OF assms] show_unum_def del: length_0_conv)
qed

lemma show_unum_decimal: "show_unum 10 i = show_num 10 i"
proof -
  have "udigit d = digit d" if "d < 10" for d
  proof -
    have "d \<in> {0, 1, 2, 3, 4, 5, 6, 7, 8, 9}" using that by auto
    then show ?thesis by (auto simp: udigit_def digit_def)
  qed
  then have "map udigit (rev (digits_loop 10 n)) = map digit (rev (digits_loop 10 n))" for n
    using digits_loop_less [of 10 _ n] by (intro map_cong) auto
  then show ?thesis by (simp only: show_unum_def show_num_def)
qed

text \<open>The text a format and its arguments stand for; \<^const>\<open>None\<close> when an argument is missing or of the wrong kind.\<close>

fun uformat :: "bool \<Rightarrow> bytes \<Rightarrow> arg list \<Rightarrow> bytes option" where
  "uformat st [] args = Some []"
| "uformat False (c # fmt) args = (if c = 37 then uformat True fmt args else map_option ((#) c) (uformat False fmt args))"
| "uformat True (c # fmt) args =
     (if c = 100 then (case args of ANum v # as \<Rightarrow> map_option ((@) (show_num 10 (sint v))) (uformat False fmt as) | _ \<Rightarrow> None)
      else if c = 120 \<or> c = 112 then
        (case args of ANum v # as \<Rightarrow> map_option ((@) (show_unum 16 (uint v))) (uformat False fmt as) | _ \<Rightarrow> None)
      else if c = 115 then
        (case args of AStr so # as \<Rightarrow>
           map_option ((@) (case so of None \<Rightarrow> lit ''(null)'' | Some t \<Rightarrow> t)) (uformat False fmt as) | _ \<Rightarrow> None)
      else if c = 99 then (case args of ANum v # as \<Rightarrow> map_option ((#) (ucast v)) (uformat False fmt as) | _ \<Rightarrow> None)
      else map_option ((@) (if c = 37 then [37] else [37, c])) (uformat False fmt args))"

lemma printf_loop_eq:
  "uformat st fmt args = Some out \<Longrightarrow> printf_loop fd st fmt args s = Ret () (uput fd out s)"
proof (induction st fmt args arbitrary: out s rule: uformat.induct)
  case (3 c fmt args)
  show ?case
  proof (cases "c \<in> {100, 120, 112, 115, 99}")
    case True
    then show ?thesis using 3
      by (auto simp: uprintint_eq show_unum_decimal split: list.splits arg.splits if_splits)
  next
    case False
    then show ?thesis using 3 by (auto split: if_splits)
  qed
qed (auto split: if_splits)

lemma printf_eq: "uformat False fmt args = Some out \<Longrightarrow> printf fd fmt args s = Ret () (uput fd out s)"
  by (simp add: printf_def printf_loop_eq)

end
