(* ===== verification/Utils.thy ===== *)
theory Utils
  imports User Uniq
begin

text \<open>
  User programs that copy, count and select text: \<^verbatim>\<open>cat.c\<close>, \<^verbatim>\<open>wc.c\<close>, \<^verbatim>\<open>head_user.c\<close>, \<^verbatim>\<open>uniq_user.c\<close> with \<^verbatim>\<open>uniq_user\<close> of
  \<^verbatim>\<open>ulib.c\<close>, and \<^verbatim>\<open>echo.c\<close>. The arguments of a program are its strings without their NUL, the name of the program first.
  The lemmas show what they print for an input that arrives in any portions.
\<close>

abbreviation (input) uexit :: "uenv \<Rightarrow> ('a, uenv) outcome" where "uexit s \<equiv> Switch s"

section \<open>Copying: cat\<close>

function cat :: "int \<Rightarrow> uenv \<Rightarrow> (unit, uenv) outcome" where
  "cat fd s =
     kbind (uread fd 512 s) (\<lambda>(n, buf) s.
     if n > 0 then
       kbind (uwrite 1 buf s) (\<lambda>w s.
       if w \<noteq> n then kbind (printf 1 (lit ''cat: write error'' @ [NEWLINE]) [] s) (\<lambda>_ s. uexit s)
       else cat fd s)
     else if n < 0 then kbind (printf 1 (lit ''cat: read error'' @ [NEWLINE]) [] s) (\<lambda>_ s. uexit s)
     else Ret () s)"
  by auto
termination
  by (relation "measure (\<lambda>(fd, s). uleft fd s)") (auto simp: uwrite_eq dest: uread_left)

declare cat.simps [simp del]

fun cat_files :: "bytes list \<Rightarrow> uenv \<Rightarrow> (unit, uenv) outcome" where
  "cat_files [] s = Ret () s"
| "cat_files (a # argv) s =
     kbind (uopen a s) (\<lambda>fd s.
     if fd < 0 then kbind (printf 1 (lit ''cat: cannot open %s'' @ [NEWLINE]) [AStr (Some a)] s) (\<lambda>_ s. uexit s)
     else kbind (cat fd s) (\<lambda>_ s. kbind (uclose fd s) (\<lambda>_ s. cat_files argv s)))"

definition cat_main :: "bytes list \<Rightarrow> uenv \<Rightarrow> (unit, uenv) outcome" where
  "cat_main argv s = kbind (if length argv \<le> 1 then cat 0 s else cat_files (tl argv) s) (\<lambda>_ s. uexit s)"

section \<open>Counting: wc\<close>

record wc_vars =
  wc_l :: int
  wc_w :: int
  wc_c :: int
  inword :: bool

definition wc_space :: "u8 \<Rightarrow> bool" where
  "wc_space c = (case strchr [32, 13, 9, 10, 11, 0] c of Some (Some _) \<Rightarrow> True | _ \<Rightarrow> False)"

text \<open>One character. The counter of characters is the largest, so it is the first that could overflow.\<close>

definition wc_char :: "u8 \<Rightarrow> wc_vars \<Rightarrow> wc_vars option" where
  "wc_char b v =
     (if wc_c v + 1 \<ge> 2 ^ 31 then None
      else
        let v = v\<lparr>wc_c := wc_c v + 1\<rparr>;
            v = (if b = NEWLINE then v\<lparr>wc_l := wc_l v + 1\<rparr> else v)
        in Some (if wc_space b then v\<lparr>inword := False\<rparr>
                 else if \<not> inword v then v\<lparr>wc_w := wc_w v + 1, inword := True\<rparr>
                 else v))"

fun wc_chars :: "bytes \<Rightarrow> wc_vars \<Rightarrow> wc_vars option" where
  "wc_chars [] v = Some v"
| "wc_chars (b # bs) v = Option.bind (wc_char b v) (wc_chars bs)"

function wc_loop :: "int \<Rightarrow> wc_vars \<Rightarrow> uenv \<Rightarrow> (wc_vars, uenv) outcome" where
  "wc_loop fd v s =
     kbind (uread fd 512 s) (\<lambda>(n, buf) s.
     if n > 0 then
       (case wc_chars buf v of None \<Rightarrow> undef | Some v \<Rightarrow> wc_loop fd v s)
     else if n < 0 then kbind (printf 1 (lit ''wc: read error'' @ [NEWLINE]) [] s) (\<lambda>_ s. uexit s)
     else Ret v s)"
  by auto
termination
  by (relation "measure (\<lambda>(fd, v, s). uleft fd s)") (auto dest: uread_left)

declare wc_loop.simps [simp del]

definition wc :: "int \<Rightarrow> bytes \<Rightarrow> uenv \<Rightarrow> (unit, uenv) outcome" where
  "wc fd name s =
     kbind (wc_loop fd \<lparr>wc_l = 0, wc_w = 0, wc_c = 0, inword = False\<rparr> s) (\<lambda>v s.
     printf 1 (lit ''%d %d %d %s'' @ [NEWLINE])
       [ANum (word_of_int (wc_l v)), ANum (word_of_int (wc_w v)), ANum (word_of_int (wc_c v)), AStr (Some name)] s)"

fun wc_files :: "bytes list \<Rightarrow> uenv \<Rightarrow> (unit, uenv) outcome" where
  "wc_files [] s = Ret () s"
| "wc_files (a # argv) s =
     kbind (uopen a s) (\<lambda>fd s.
     if fd < 0 then kbind (printf 1 (lit ''wc: cannot open %s'' @ [NEWLINE]) [AStr (Some a)] s) (\<lambda>_ s. uexit s)
     else kbind (wc fd a s) (\<lambda>_ s. kbind (uclose fd s) (\<lambda>_ s. wc_files argv s)))"

definition wc_main :: "bytes list \<Rightarrow> uenv \<Rightarrow> (unit, uenv) outcome" where
  "wc_main argv s = kbind (if length argv \<le> 1 then wc 0 [] s else wc_files (tl argv) s) (\<lambda>_ s. uexit s)"

section \<open>The first lines: head\<close>

text \<open>The inner loop over \<^verbatim>\<open>buffer\<close>.\<close>

fun head_chars :: "int \<Rightarrow> bytes \<Rightarrow> int \<Rightarrow> uenv \<Rightarrow> (int, uenv) outcome" where
  "head_chars num [] disp s = Ret disp s"
| "head_chars num (c # cs) disp s =
     (if disp < num then
        let disp = (if c = NEWLINE then disp + 1 else disp)
        in kbind (printf 1 (lit ''%c'') [ANum (scast c)] s) (\<lambda>_ s. head_chars num cs disp s)
      else Ret disp s)"

function uhead_loop :: "int \<Rightarrow> int \<Rightarrow> int \<Rightarrow> uenv \<Rightarrow> (unit, uenv) outcome" where
  "uhead_loop fd num disp s =
     (if disp < num then
        kbind (uread fd 512 s) (\<lambda>(bytesRead, buffer) s.
        if bytesRead > 0 then kbind (head_chars num buffer disp s) (\<lambda>disp s. uhead_loop fd num disp s)
        else Ret () s)
      else Ret () s)"
  by auto

lemma head_chars_left: "head_chars num cs disp s = Ret d s' \<Longrightarrow> uleft fd s' = uleft fd s"
proof (induction num cs disp s arbitrary: d s' rule: head_chars.induct)
  case (2 num c cs disp s)
  then show ?case by (auto simp: Let_def of_char_def printf_eq split: if_splits)
qed simp

termination uhead_loop
  by (relation "measure (\<lambda>(fd, num, disp, s). uleft fd s)") (auto simp: head_chars_left dest: uread_left)

declare uhead_loop.simps [simp del]

definition uhead :: "int \<Rightarrow> int \<Rightarrow> uenv \<Rightarrow> (unit, uenv) outcome" where
  "uhead fd num s = kbind (uhead_loop fd num 0 s) (\<lambda>_ s. printf 1 [NEWLINE] [] s)"

definition first_char :: "bytes \<Rightarrow> u8" where
  "first_char a = hd (a @ [0])"

text \<open>The loop over the files, with the index of the next one and whether there are several.\<close>

fun head_files :: "int \<Rightarrow> bool \<Rightarrow> nat \<Rightarrow> bytes list \<Rightarrow> uenv \<Rightarrow> (unit, uenv) outcome" where
  "head_files num several i [] s = Ret () s"
| "head_files num several i (a # argv) s =
     (if first_char a = 45 then head_files num several (i + 1) argv s
      else
        kbind (uopen a s) (\<lambda>fd s.
        if fd < 0 then
          kbind (printf 2 (lit ''head: cannot open %s'' @ [NEWLINE]) [AStr (Some a)] s) (\<lambda>_ s. head_files num several (i + 1) argv s)
        else
          kbind (if several then
                   kbind (if i > 1 then printf 1 [NEWLINE] [] s else Ret () s) (\<lambda>_ s.
                   printf 1 (lit ''%s'' @ [NEWLINE, NEWLINE]) [AStr (Some a)] s)
                 else Ret () s) (\<lambda>_ s.
          kbind (uhead fd num s) (\<lambda>_ s.
          kbind (uclose fd s) (\<lambda>_ s. head_files num several (i + 1) argv s)))))"

definition head_main :: "bytes list \<Rightarrow> uenv \<Rightarrow> (unit, uenv) outcome" where
  "head_main argv s =
     kbind (printf 1 ([NEWLINE] @ lit ''*** Head command is getting executed in user mode ***'' @ [NEWLINE, NEWLINE]) [] s) (\<lambda>_ s.
     let flag = (length argv > 1 \<and> first_char (argv ! 1) = 45);
         run = (\<lambda>num argv s.
           kbind (if length argv = 1 \<or> length argv = 2 \<and> first_char (argv ! 1) = 45 then uhead 0 num s
                  else head_files num (length argv > 2) 1 (tl argv) s) (\<lambda>_ s. uexit s))
     in if flag then
          (case atoi (tl (argv ! 1) @ [0]) of None \<Rightarrow> undef
           | Some num \<Rightarrow>
               if num \<le> 0 then
                 kbind (printf 2 (lit ''Invalid number of lines: %s'' @ [NEWLINE]) [AStr (Some (argv ! 1))] s) (\<lambda>_ s. uexit s)
               else run num (tl argv) s)
        else run 14 argv s)"

section \<open>Echo\<close>

fun echo_args :: "bytes list \<Rightarrow> uenv \<Rightarrow> (unit, uenv) outcome" where
  "echo_args [] s = Ret () s"
| "echo_args (a # argv) s =
     kbind (printf 1 (lit ''%s%s'') [AStr (Some a), AStr (Some (if argv \<noteq> [] then lit '' '' else [NEWLINE]))] s) (\<lambda>_ s.
     echo_args argv s)"

definition echo_main :: "bytes list \<Rightarrow> uenv \<Rightarrow> (unit, uenv) outcome" where
  "echo_main argv s = kbind (echo_args (tl argv) s) (\<lambda>_ s. uexit s)"

section \<open>Uniq\<close>

definition put_uline :: "bytes \<Rightarrow> uenv \<Rightarrow> (unit, uenv) outcome" where
  "put_uline a s = (case strlen a of None \<Rightarrow> undef | Some n \<Rightarrow> printf 1 (lit ''%s'' @ [NEWLINE]) [AStr (Some (take n a))] s)"

definition put_ucount :: "int \<Rightarrow> bytes \<Rightarrow> uenv \<Rightarrow> (unit, uenv) outcome" where
  "put_ucount n a s = (case strlen a of None \<Rightarrow> undef
     | Some l \<Rightarrow> printf 1 (lit ''%d  %s'' @ [NEWLINE]) [ANum (word_of_int n), AStr (Some (take l a))] s)"

lemma put_uline_eq: "terminated a \<Longrightarrow> put_uline a s = Ret () (uput 1 (cstr a @ [NEWLINE]) s)"
  by (simp add: put_uline_def strlen_cstr cstr_def takeWhile_eq_take [symmetric] of_char_def printf_eq)

lemma put_ucount_eq:
  assumes "terminated a" "n < 2 ^ 31"
  shows "put_ucount (int n) a s = Ret () (uput 1 (show_num 10 (int n) @ lit ''  '' @ cstr a @ [NEWLINE]) s)"
proof -
  have "sint (word_of_int (int n) :: u32) = int n" using sint_small [OF assms(2)] by simp
  then show ?thesis using assms(1)
    by (simp add: put_ucount_def strlen_cstr cstr_def takeWhile_eq_take [symmetric] of_char_def printf_eq)
qed

lemma printf_left: "printf fd fmt args s = Ret u s' \<Longrightarrow> uleft g s' = uleft g s"
proof -
  have "printf_loop fd st fmt args s = Ret u s' \<Longrightarrow> uleft g s' = uleft g s" for st
  proof (induction fd st fmt args s rule: printf_loop.induct)
    case (2 fd st c fmt args s)
    then show ?case
      by (auto simp: kbind_eq_Ret_iff uprintint_eq split: if_splits list.splits arg.splits)
  qed simp
  then show "printf fd fmt args s = Ret u s' \<Longrightarrow> uleft g s' = uleft g s" by (simp add: printf_def)
qed

lemma uniq_line_left:
  "uniq_line put_uline put_ucount fl u s = Ret v s' \<Longrightarrow> uleft fd s' = uleft fd s"
  by (rule wlpD [OF wlp_uniq_line [where f = "uleft fd"]])
    (auto simp: put_uline_def put_ucount_def wlp_iff printf_left split: option.splits)

lemma ureadline_left:
  assumes "ureadline fd b n s = Ret (r, d) s'" "0 < r"
  shows "uleft fd s' < uleft fd s"
proof -
  have le: "ureadline_loop fd k s = Ret w s' \<Longrightarrow> uleft fd s' \<le> uleft fd s" for k w s s'
  proof (induction k arbitrary: w s s')
    case (Suc k)
    then obtain x d t where r: "uread fd 1 s = Ret (x, d) t" by (auto simp: kbind_eq_Ret_iff)
    have "uleft fd t \<le> uleft fd s"
      using r by (auto simp: uread_def uleft_def ufd_def split: option.splits list.splits if_splits)
    then show ?case using Suc.prems Suc.IH [of t] r by (auto simp: kbind_eq_Ret_iff split: if_splits intro: order_trans)
  qed simp
  from assms obtain w where w: "ureadline_loop fd (nat (n - 1)) s = Ret w s'" "w \<noteq> []"
    by (auto simp: ureadline_def kbind_eq_Ret_iff split: if_splits)
  then obtain k where k: "nat (n - 1) = Suc k" by (cases "nat (n - 1)") auto
  obtain x d t where r: "uread fd 1 s = Ret (x, d) t" "0 < x" using w k by (auto simp: kbind_eq_Ret_iff split: if_splits)
  then have "uleft fd t < uleft fd s" by (rule uread_left)
  then show ?thesis using w k r le [of k t] by (auto simp: kbind_eq_Ret_iff split: if_splits intro: le_less_trans)
qed

function uniq_user_loop :: "uniq_flags \<Rightarrow> int \<Rightarrow> uniq_vars \<Rightarrow> uenv \<Rightarrow> (uniq_vars, uenv) outcome" where
  "uniq_user_loop fl fd u s =
     kbind (ureadline fd (current_line u) 256 s) (\<lambda>(bytesRead, buf) s.
     let u = u\<lparr>current_line := buf\<rparr> in
     if bytesRead > 0 then
       kbind (uniq_line put_uline put_ucount fl u s) (\<lambda>u s. uniq_user_loop fl fd u s)
     else Ret u s)"
  by auto
termination
  by (relation "measure (\<lambda>(fl, fd, u, s). uleft fd s)") (auto simp: uniq_line_left dest: ureadline_left)

declare uniq_user_loop.simps [simp del]

definition user_flags_of :: "bytes \<Rightarrow> uniq_flags option" where
  "user_flags_of flag =
     (case (str_eq flag (lit ''-c'' @ [0]), str_eq flag (lit ''-i'' @ [0]), str_eq flag (lit ''-d'' @ [0]),
            str_eq flag (lit ''-n'' @ [0])) of
        (Some c, Some i, Some d, Some n) \<Rightarrow>
          Some \<lparr>isCountFlag = c, isCaseInsensitive = i, isDelete = d, isNoFlag = n, isStdin = False\<rparr>
      | _ \<Rightarrow> None)"

definition uniq_user :: "int \<Rightarrow> bytes \<Rightarrow> uenv \<Rightarrow> (unit, uenv) outcome" where
  "uniq_user fd flag s =
     (case user_flags_of (flag @ [0]) of None \<Rightarrow> undef
      | Some fl \<Rightarrow>
          kbind (uniq_user_loop fl fd uniq_init s) (\<lambda>u s.
          uniq_last put_uline put_ucount (printf 1 [NEWLINE] []) fl u s))"

definition uniq_main :: "bytes list \<Rightarrow> uenv \<Rightarrow> (unit, uenv) outcome" where
  "uniq_main argv s =
     kbind (printf 1 ([NEWLINE] @ lit ''*** Uniq command is getting executed in user mode ***'' @ [NEWLINE, NEWLINE]) [] s) (\<lambda>_ s.
     let fail = (\<lambda>s. kbind (printf 2 (lit ''Failed to open the input file: %s'' @ [NEWLINE]) [AStr (Some (argv ! 1))] s) (\<lambda>_ s. uexit s))
     in kbind (if length argv = 1 then uniq_user 0 (lit ''-n'') s
               else if length argv = 2 then
                 kbind (uopen (argv ! 1) s) (\<lambda>fd s. if fd < 0 then fail s else uniq_user fd (lit ''-n'') s)
               else if length argv = 3 then
                 kbind (uopen (argv ! 2) s) (\<lambda>fd s. if fd < 0 then fail s else uniq_user fd (argv ! 1) s)
               else Ret () s) (\<lambda>_ s. uexit s))"

section \<open>Input and output of a program\<close>

text \<open>The text that is still to be read from a descriptor, in whatever portions, none of them empty.\<close>

definition input :: "int \<Rightarrow> bytes \<Rightarrow> uenv \<Rightarrow> bool" where
  "input fd inp s \<longleftrightarrow> (\<exists>cs. ufd fd s = Some cs \<and> [] \<notin> set cs \<and> concat cs = inp)"

text \<open>A run that reads from \<open>fd\<close> and writes \<open>out\<close> on the standard output.\<close>

definition emits :: "int \<Rightarrow> bytes \<Rightarrow> uenv \<Rightarrow> uenv \<Rightarrow> bool" where
  "emits fd out s t \<longleftrightarrow> u_out t = (u_out s)(1 := u_out s 1 @ out) \<and> u_files t = u_files s \<and>
     (\<forall>g. g \<noteq> fd \<longrightarrow> ufd g t = ufd g s) \<and> (\<forall>g. ufd g t = None \<longleftrightarrow> ufd g s = None)"

lemma emits_refl [simp]: "emits fd [] s s"
  by (simp add: emits_def)

lemma emits_trans: "emits fd a s t \<Longrightarrow> emits fd b t u \<Longrightarrow> emits fd (a @ b) s u"
  by (simp add: emits_def)

lemma emits_stdout: "emits fd a s t \<Longrightarrow> ufd 1 t = None \<longleftrightarrow> ufd 1 s = None"
  by (simp add: emits_def)

lemma emits_uput: "emits fd a s t \<Longrightarrow> ufd 1 s \<noteq> None \<Longrightarrow> emits fd (a @ b) s (uput 1 b t)"
  using u_out_uput [of 1 t b] by (auto simp: emits_def)

lemma input_uput [simp]: "input fd inp (uput g b s) = input fd inp s"
  by (simp add: input_def)

lemma ufd_set: "ufd fd s \<noteq> None \<Longrightarrow> ufd g (s\<lparr>u_ofile := (u_ofile s)[nat fd := x]\<rparr>) = (if g = fd then x else ufd g s)"
  by (auto simp: ufd_def nth_list_update_if split: if_splits)

lemma wp_uread:
  assumes i: "input fd inp s" and n: "0 < n"
    and end_of: "inp = [] \<Longrightarrow> Q (0, []) s"
    and some: "\<And>d r t. inp = d @ r \<Longrightarrow> d \<noteq> [] \<Longrightarrow> length d \<le> n \<Longrightarrow> input fd r t \<Longrightarrow> emits fd [] s t \<Longrightarrow> Q (int (length d), d) t"
  shows "wp (uread fd n s) Q"
proof -
  obtain cs where cs: "ufd fd s = Some cs" "[] \<notin> set cs" "concat cs = inp" using i by (auto simp: input_def)
  show ?thesis
  proof (cases cs)
    case Nil
    then show ?thesis using cs end_of by (simp add: uread_def)
  next
    case (Cons c ds)
    let ?k = "if length c \<le> n then ds else drop n c # ds"
    let ?t = "s\<lparr>u_ofile := (u_ofile s)[nat fd := Some ?k]\<rparr>"
    have "emits fd [] s ?t" using cs by (auto simp: emits_def ufd_set)
    moreover have "input fd (concat ?k) ?t" using cs Cons by (auto simp: input_def ufd_set)
    moreover have "inp = take n c @ concat ?k" using cs Cons by (auto simp flip: append_assoc)
    ultimately have "Q (int (length (take n c)), take n c) ?t" using cs Cons n by (intro some) auto
    then show ?thesis using cs Cons by (simp add: uread_def)
  qed
qed

lemma wp_cat:
  assumes "input fd inp s" "ufd 1 s \<noteq> None" "\<And>t. emits fd inp s t \<Longrightarrow> input fd [] t \<Longrightarrow> Q () t"
  shows "wp (cat fd s) Q"
  using assms
proof (induction "length inp" arbitrary: inp s Q rule: less_induct)
  case less
  let ?k = "\<lambda>(n, buf) s. wp (if n > 0 then kbind (uwrite 1 buf s) (\<lambda>w s.
       if w \<noteq> n then kbind (printf 1 (lit ''cat: write error'' @ [NEWLINE]) [] s) (\<lambda>_ s. uexit s) else cat fd s)
     else if n < 0 then kbind (printf 1 (lit ''cat: read error'' @ [NEWLINE]) [] s) (\<lambda>_ s. uexit s) else Ret () s) Q"
  have "wp (uread fd 512 s) ?k"
  proof (rule wp_uread [OF less.prems(1)], goal_cases)
    case 2
    then show ?case using less.prems by simp
  next
    case (3 d r t)
    have o: "ufd 1 t \<noteq> None" using emits_stdout [OF 3(5)] less.prems(2) by simp
    have e: "emits fd d s (uput 1 d t)" using emits_uput [OF 3(5) less.prems(2), of d] by simp
    have "wp (cat fd (uput 1 d t)) Q"
      using 3 o emits_trans [OF e] less.prems(3) by (intro less.hyps [of r]) auto
    then show ?case using 3 o by (auto simp: uwrite_eq)
  qed simp
  then show ?case by (subst cat.simps) (simp add: case_prod_unfold)
qed

section \<open>Words\<close>

function words_of :: "bytes \<Rightarrow> bytes list" where
  "words_of t =
     (let u = dropWhile wc_space t
      in if u = [] then [] else takeWhile (\<lambda>c. \<not> wc_space c) u # words_of (dropWhile (\<lambda>c. \<not> wc_space c) u))"
  by auto
termination
proof (relation "measure length", goal_cases)
  case (2 t u)
  then have "u \<noteq> []" by simp
  moreover have "\<not> wc_space (hd u)" using 2 hd_dropWhile [of wc_space t] by blast
  ultimately have "length (dropWhile (\<lambda>c. \<not> wc_space c) u) < length u"
    by (cases u) (auto simp: less_Suc_eq_le length_dropWhile_le)
  then show ?case using 2 length_dropWhile_le [of wc_space t] by simp
qed simp

declare words_of.simps [simp del]

text \<open>The number of words that begin in a text, after a character of a word or not.\<close>

fun word_starts :: "bool \<Rightarrow> bytes \<Rightarrow> nat" where
  "word_starts inw [] = 0"
| "word_starts inw (c # t) = (if wc_space c then word_starts False t else word_starts True t + (if inw then 0 else 1))"

lemma word_starts_space: "word_starts False t = word_starts False (dropWhile wc_space t)"
  by (induction t) auto

lemma word_starts_word: "word_starts True t = word_starts False (dropWhile (\<lambda>c. \<not> wc_space c) t)"
  by (induction t) auto

lemma word_starts_words: "word_starts False t = length (words_of t)"
proof (induction t rule: words_of.induct)
  case (1 t)
  let ?u = "dropWhile wc_space t"
  show ?case
  proof (cases ?u)
    case Nil
    then show ?thesis using word_starts_space [of t] by (subst words_of.simps) (simp del: dropWhile_eq_Nil_conv)
  next
    case (Cons c v)
    then have c: "\<not> wc_space c" using hd_dropWhile [of wc_space t] by simp
    have "word_starts False t = Suc (word_starts True v)" using Cons c word_starts_space [of t] by simp
    then show ?thesis using 1 [OF refl] Cons c by (subst words_of.simps) (simp add: word_starts_word)
  qed
qed

lemma wc_chars_eq:
  assumes "wc_c v + int (length bs) < 2 ^ 31"
  shows "wc_chars bs v = Some \<lparr>wc_l = wc_l v + int (length (filter (\<lambda>b. b = NEWLINE) bs)),
      wc_w = wc_w v + int (word_starts (inword v) bs), wc_c = wc_c v + int (length bs),
      inword = (if bs = [] then inword v else \<not> wc_space (last bs))\<rparr>"
  using assms
proof (induction bs arbitrary: v)
  case (Cons b bs)
  then show ?case by (auto simp: wc_char_def Let_def)
qed simp

lemma wc_chars_append: "wc_chars (a @ b) v = Option.bind (wc_chars a v) (wc_chars b)"
  by (induction a arbitrary: v) (auto split: Option.bind_split)

lemma wp_wc_loop:
  assumes "input fd inp s" "wc_c v + int (length inp) < 2 ^ 31"
    "\<And>t w. emits fd [] s t \<Longrightarrow> input fd [] t \<Longrightarrow> wc_chars inp v = Some w \<Longrightarrow> Q w t"
  shows "wp (wc_loop fd v s) Q"
  using assms
proof (induction "length inp" arbitrary: inp s v rule: less_induct)
  case less
  let ?k = "\<lambda>(n, buf) s. wp (if n > 0 then (case wc_chars buf v of None \<Rightarrow> undef | Some v \<Rightarrow> wc_loop fd v s)
     else if n < 0 then kbind (printf 1 (lit ''wc: read error'' @ [NEWLINE]) [] s) (\<lambda>_ s. uexit s) else Ret v s) Q"
  have "wp (uread fd 512 s) ?k"
  proof (rule wp_uread [OF less.prems(1)], goal_cases)
    case 2
    then show ?case using less.prems by simp
  next
    case (3 d r t)
    obtain w where w: "wc_chars d v = Some w" "wc_c w = wc_c v + int (length d)"
      using wc_chars_eq [of v d] less.prems(2) 3(1) by simp
    have "wp (wc_loop fd w t) Q"
      using 3 w less.prems(2,3) emits_trans [OF 3(5)] by (intro less.hyps [of r]) (auto simp: wc_chars_append)
    then show ?case using 3 w by simp
  qed simp
  then show ?case by (subst wc_loop.simps) (simp add: case_prod_unfold)
qed

section \<open>Lines with their newlines\<close>

function klines :: "bytes \<Rightarrow> bytes list" where
  "klines t =
     (if t = [] then []
      else let n = Suc (length (takeWhile (\<lambda>c. c \<noteq> NEWLINE) t)) in take n t # klines (drop n t))"
  by auto
termination by (relation "measure length") auto

declare klines.simps [simp del]

fun first_lines :: "nat \<Rightarrow> bytes \<Rightarrow> bytes" where
  "first_lines 0 t = []"
| "first_lines (Suc k) [] = []"
| "first_lines (Suc k) (c # t) = c # (if c = NEWLINE then first_lines k t else first_lines (Suc k) t)"

lemma first_lines_Nil [simp]: "first_lines k [] = []"
  by (cases k) simp_all

lemma first_lines_step:
  "first_lines (Suc k) t = (let n = Suc (length (takeWhile (\<lambda>c. c \<noteq> NEWLINE) t)) in take n t @ first_lines k (drop n t))"
  by (induction t) (auto simp: Let_def)

lemma first_lines_klines: "first_lines k t = concat (take k (klines t))"
proof (induction k arbitrary: t)
  case (Suc k)
  show ?case
  proof (cases "t = []")
    case True
    then show ?thesis by (simp add: klines.simps)
  next
    case False
    then show ?thesis by (subst klines.simps) (simp add: first_lines_step Let_def Suc)
  qed
qed simp

abbreviation newlines :: "bytes \<Rightarrow> nat" where "newlines t \<equiv> length (filter (\<lambda>c. c = NEWLINE) t)"

lemma first_lines_append: "first_lines k (a @ b) = first_lines k a @ first_lines (k - newlines a) b"
  by (induction k a rule: first_lines.induct) auto

lemma newlines_first_lines: "newlines (first_lines k t) = min k (newlines t)"
  by (induction k t rule: first_lines.induct) auto

lemma head_chars_eq:
  "head_chars num cs disp s =
    Ret (disp + int (min (nat (num - disp)) (newlines cs))) (uput 1 (first_lines (nat (num - disp)) cs) s)"
proof (induction cs arbitrary: disp s)
  case (Cons c cs)
  show ?case
  proof (cases "disp < num")
    case True
    then obtain k where k: "nat (num - disp) = Suc k" "nat (num - (disp + 1)) = k" by (cases "nat (num - disp)") auto
    have "printf 1 (lit ''%c'') [ANum (scast c)] s = Ret () (uput 1 [c] s)" by (rule printf_eq) (simp add: of_char_def)
    then show ?thesis using True k by (auto simp: Cons Let_def)
  qed simp
qed simp

lemma wp_uhead_loop:
  assumes "input fd inp s" "ufd 1 s \<noteq> None" "\<And>t. emits fd (first_lines (nat (num - disp)) inp) s t \<Longrightarrow> Q () t"
  shows "wp (uhead_loop fd num disp s) Q"
  using assms
proof (induction "length inp" arbitrary: inp s disp Q rule: less_induct)
  case less
  show ?case
  proof (cases "disp < num")
    case False
    then show ?thesis using less.prems(3) [of s] by (subst uhead_loop.simps) simp
  next
    case True
    let ?k = "\<lambda>(n, buf) s. wp (if n > 0 then kbind (head_chars num buf disp s) (\<lambda>disp s. uhead_loop fd num disp s) else Ret () s) Q"
    have "wp (uread fd 512 s) ?k"
    proof (rule wp_uread [OF less.prems(1)], goal_cases)
      case 2
      then show ?case using less.prems(3) [of s] by (cases "nat (num - disp)") auto
    next
      case (3 d r t)
      let ?m = "nat (num - disp)"
      let ?u = "uput 1 (first_lines ?m d) t" and ?disp = "disp + int (min ?m (newlines d))"
      have e: "emits fd (first_lines ?m d) s ?u" using emits_uput [OF 3(5) less.prems(2)] by simp
      have m: "nat (num - ?disp) = ?m - newlines d" using True by (simp add: min_def) linarith
      have "wp (uhead_loop fd num ?disp ?u) Q"
        using 3 emits_stdout [OF 3(5)] less.prems(2,3) emits_trans [OF e]
        by (intro less.hyps [of r]) (auto simp: m first_lines_append)
      then show ?case using 3 by (simp add: head_chars_eq)
    qed simp
    then show ?thesis using True by (subst uhead_loop.simps) (simp add: case_prod_unfold)
  qed
qed

section \<open>The loop of uniq\<close>

lemma wp_ureadline_loop:
  assumes "input fd inp s" "length (takeWhile (\<lambda>c. c \<noteq> NEWLINE) inp) < n"
    "\<And>t. input fd (drop (Suc (length (takeWhile (\<lambda>c. c \<noteq> NEWLINE) inp))) inp) t \<Longrightarrow> emits fd [] s t \<Longrightarrow>
      Q (takeWhile (\<lambda>c. c \<noteq> NEWLINE) inp) t"
  shows "wp (ureadline_loop fd n s) Q"
  using assms
proof (induction n arbitrary: inp s Q)
  case (Suc n)
  let ?k = "\<lambda>(r, d) s. wp (if r \<le> 0 \<or> hd d = NEWLINE then Ret [] s
     else kbind (ureadline_loop fd n s) (\<lambda>w s. Ret (hd d # w) s)) Q"
  have "wp (uread fd 1 s) ?k"
  proof (rule wp_uread [OF Suc.prems(1)], goal_cases)
    case 2
    then show ?case using Suc.prems by simp
  next
    case (3 d r t)
    then obtain c where d: "d = [c]" by (cases d) auto
    show ?case
    proof (cases "c = NEWLINE")
      case True
      then show ?thesis using 3 d Suc.prems(3) [of t] by simp
    next
      case False
      have "wp (ureadline_loop fd n t) (\<lambda>w s. Q (c # w) s)"
        using 3 d False Suc.prems(2,3) emits_trans [OF 3(5)] by (intro Suc.IH [OF 3(4)]) auto
      then show ?thesis using d False by simp
    qed
  qed simp
  then show ?case by (simp add: case_prod_unfold)
qed simp

lemma wp_ureadline:
  assumes "input fd inp s" "l = takeWhile (\<lambda>c. c \<noteq> NEWLINE) inp" "length l < 255" "line_array b" "0 \<notin> set l"
    "\<And>t d. input fd (drop (Suc (length l)) inp) t \<Longrightarrow> emits fd [] s t \<Longrightarrow> line_array d \<Longrightarrow> cstr d = l \<Longrightarrow> Q (int (length l), d) t"
  shows "wp (ureadline fd b 256 s) Q"
proof -
  let ?d = "blit 0 (l @ [0]) b"
  have "?d = l @ 0 # drop (Suc (length l)) b" by (simp add: blit_def)
  then have "cstr ?d = l" "line_array ?d" using assms(3-5) by (auto simp: line_array_def last_append last_drop)
  then have "wp (ureadline_loop fd 255 s) (\<lambda>w s. wp (if length w < length b then Ret (int (length w), blit 0 (w @ [0]) b) s else undef) Q)"
    using assms by (intro wp_ureadline_loop [OF assms(1)]) (auto simp: line_array_def)
  then show ?thesis by (simp add: ureadline_def)
qed

interpretation up: line_printer put_uline put_ucount "printf 1 [NEWLINE] []" "\<lambda>s. ufd 1 s \<noteq> None" "\<lambda>out s t. t = uput 1 out s"
  by unfold_locales (auto simp: put_uline_eq put_ucount_eq printf_eq)

lemma wp_uniq_user_loop:
  assumes "input fd inp s" "ufd 1 s \<noteq> None" "uniq_rel u (p, n, r)" "n + length inp + 1 < 2 ^ 31"
    "\<And>l. l \<in> set (lines_of inp) \<Longrightarrow> l \<noteq> [] \<and> length l < 255 \<and> 0 \<notin> set l"
    "\<And>t. emits fd (urun m (p, n, r) (lines_of inp)) s t \<Longrightarrow> Q () t"
  shows "wp (uniq_user_loop (mode_flags m) fd u s)
    (\<lambda>v t. wp (uniq_last put_uline put_ucount (printf 1 [NEWLINE] []) (mode_flags m) v t) Q)"
  using assms
proof (induction "length inp" arbitrary: inp s u p n r Q rule: less_induct)
  case less
  let ?last = "\<lambda>v t. wp (uniq_last put_uline put_ucount (printf 1 [NEWLINE] []) (mode_flags m) v t) Q"
  let ?k = "\<lambda>(bytesRead, buf) t. wp (let u = u\<lparr>current_line := buf\<rparr> in if bytesRead > 0 then
       kbind (uniq_line put_uline put_ucount (mode_flags m) u t) (\<lambda>u s. uniq_user_loop (mode_flags m) fd u s) else Ret u t) ?last"
  define l where "l = takeWhile (\<lambda>c. c \<noteq> NEWLINE) inp"
  have lo: "lines_of inp = (if inp = [] then [] else l # lines_of (drop (Suc (length l)) inp))"
    by (subst lines_of.simps) (simp add: l_def)
  have l: "length l < 255" "0 \<notin> set l" using less.prems(5) [of l] lo by (cases "inp = []"; auto simp: l_def)+
  have cur: "line_array (current_line u)" using less.prems(3) by (simp add: uniq_rel_def)
  have "wp (ureadline fd (current_line u) 256 s) ?k"
  proof (rule wp_ureadline [OF less.prems(1) l_def l(1) cur l(2)], goal_cases)
    case (1 t d)
    have out: "ufd 1 t \<noteq> None" using emits_stdout [OF 1(2)] less.prems(2) by simp
    have u: "uniq_rel (u\<lparr>current_line := d\<rparr>) (p, n, r)" using less.prems(3) 1(3) by (simp add: uniq_rel_def)
    show ?case
    proof (cases "inp = []")
      case True
      then have "l = []" by (simp add: l_def)
      moreover have "?last (u\<lparr>current_line := d\<rparr>) t"
        using less.prems(4,6) lo True emits_uput [OF 1(2) less.prems(2)] by (intro up.wp_uniq_last [OF out u]) auto
      ultimately show ?thesis by simp
    next
      case False
      then have ne: "l \<noteq> []" "length l \<le> length inp" using less.prems(5) [of l] lo by (auto simp: l_def length_takeWhile_le)
      have "wp (uniq_line put_uline put_ucount (mode_flags m) (u\<lparr>current_line := d\<rparr>) t)
        (\<lambda>v t. wp (uniq_user_loop (mode_flags m) fd v t) ?last)"
      proof (rule up.wp_uniq_line [OF out u])
        show "n + 1 < 2 ^ 31" using less.prems(4) by simp
        show "cstr (current_line (u\<lparr>current_line := d\<rparr>)) = l" using 1(4) by simp
        fix v t' assume v: "t' = uput 1 (snd (ustep m (p, n, r) l)) t" "uniq_rel v (fst (ustep m (p, n, r) l))"
        obtain p' n' r' where st: "fst (ustep m (p, n, r) l) = (p', n', r')" by (cases "fst (ustep m (p, n, r) l)")
        have n': "n' \<le> n + 1" using st by (auto split: if_splits)
        have e: "emits fd (snd (ustep m (p, n, r) l)) s t'" using emits_uput [OF 1(2) less.prems(2)] v(1) by simp
        show "wp (uniq_user_loop (mode_flags m) fd v t') ?last"
        proof (rule less.hyps [of "drop (Suc (length l)) inp"])
          show "length (drop (Suc (length l)) inp) < length inp" using False by simp
          show "input fd (drop (Suc (length l)) inp) t'" using 1(1) v(1) by simp
          show "ufd 1 t' \<noteq> None" using out v(1) by simp
          show "uniq_rel v (p', n', r')" using v(2) st by simp
          show "n' + length (drop (Suc (length l)) inp) + 1 < 2 ^ 31" using n' less.prems(4) False by (cases inp) auto
          show "\<And>k. k \<in> set (lines_of (drop (Suc (length l)) inp)) \<Longrightarrow> k \<noteq> [] \<and> length k < 255 \<and> 0 \<notin> set k"
            using less.prems(5) lo False by auto
          show "\<And>w. emits fd (urun m (p', n', r') (lines_of (drop (Suc (length l)) inp))) t' w \<Longrightarrow> Q () w"
            using emits_trans [OF e] lo False st by (intro less.prems(6)) simp
        qed
      qed
      then show ?thesis using ne by simp
    qed
  qed
  then show ?case by (subst uniq_user_loop.simps) (simp add: case_prod_unfold)
qed

lemma user_flags: "user_flags_of (mode_flag m @ [0]) = Some (mode_flags m)"
  by (cases m) (simp_all add: user_flags_of_def mode_flag_def mode_flags_def str_eq_def of_char_def)

lemma wp_uniq_user:
  assumes "input fd inp s" "ufd 1 s \<noteq> None" "length inp + 2 < 2 ^ 31"
    "\<And>l. l \<in> set (lines_of inp) \<Longrightarrow> l \<noteq> [] \<and> length l < 255 \<and> 0 \<notin> set l"
    "\<And>t. emits fd (uniq_text m (lines_of inp)) s t \<Longrightarrow> Q () t"
  shows "wp (uniq_user fd (mode_flag m) s) Q"
proof -
  have ne: "[] \<notin> set (lines_of inp)" using assms(4) by blast
  have "wp (uniq_user_loop (mode_flags m) fd uniq_init s)
      (\<lambda>v t. wp (uniq_last put_uline put_ucount (printf 1 [NEWLINE] []) (mode_flags m) v t) Q)"
    using assms urun_text [OF ne]
    by (intro wp_uniq_user_loop [where inp = inp and p = "[]" and n = 1 and r = False] uniq_rel_init) auto
  then show ?thesis by (simp add: uniq_user_def user_flags)
qed

section \<open>Properties\<close>

text \<open>
  C26. \<^verbatim>\<open>wc\<close> counts the whole input, however it is cut into portions: it prints the number of newlines, of words and of
  characters, and the name. A word that lies across two reads is counted once. The words are the maximal sequences of characters other
  than space, tab, newline, carriage return and vertical tab.
\<close>

theorem wc_counts:
  assumes "input fd inp s" "ufd 1 s \<noteq> None" "length inp < 2 ^ 31"
  shows "wp (wc fd name s) (\<lambda>_ t. input fd [] t \<and>
    emits fd (show_num 10 (int (newlines inp)) @ [32] @ show_num 10 (int (length (words_of inp))) @ [32] @
      show_num 10 (int (length inp)) @ [32] @ name @ [NEWLINE]) s t)"
proof -
  let ?v = "\<lparr>wc_l = 0, wc_w = 0, wc_c = 0, inword = False\<rparr>"
  have le: "newlines inp < 2 ^ 31" using assms(3) length_filter_le le_less_trans by blast
  have "word_starts b inp \<le> length inp" for b by (induction inp arbitrary: b) (auto intro: le_SucI)
  then have le2: "length (words_of inp) < 2 ^ 31" using assms(3) word_starts_words [of inp] le_less_trans by metis
  show ?thesis unfolding wc_def wp_kbind
  proof (rule wp_wc_loop [OF assms(1)], goal_cases)
    case (2 t w)
    have w: "wc_l w = int (newlines inp)" "wc_w w = int (length (words_of inp))" "wc_c w = int (length inp)"
      using wc_chars_eq [of ?v inp] 2(3) assms(3) word_starts_words [of inp] by auto
    have "printf 1 (lit ''%d %d %d %s'' @ [NEWLINE])
        [ANum (word_of_int (wc_l w)), ANum (word_of_int (wc_w w)), ANum (word_of_int (wc_c w)), AStr (Some name)] t =
      Ret () (uput 1 (show_num 10 (int (newlines inp)) @ [32] @ show_num 10 (int (length (words_of inp))) @ [32] @
      show_num 10 (int (length inp)) @ [32] @ name @ [NEWLINE]) t)"
      by (rule printf_eq) (simp add: of_char_def w sint_small [OF le] sint_small [OF le2] sint_small [OF assms(3)])
    then show ?case using 2(2) emits_uput [OF 2(1) assms(2)] by simp
  qed (use assms(3) in simp)
qed

text \<open>Descriptor 0 holds a text in two portions, descriptors 1 and 2 are open for output.\<close>

definition sample_env :: "bytes list \<Rightarrow> uenv" where
  "sample_env cs = \<lparr>u_ofile = [Some cs, Some [], Some []], u_out = (\<lambda>_. []), u_files = (\<lambda>_. None)\<rparr>"

lemma sample_env: "[] \<notin> set cs \<Longrightarrow> input 0 (concat cs) (sample_env cs)" "ufd 1 (sample_env cs) \<noteq> None" "u_out (sample_env cs) = (\<lambda>_. [])"
  by (simp_all add: input_def sample_env_def ufd_def)

theorem wc_counts_witness:
  "\<exists>t. wc 0 (lit ''x'') (sample_env [lit ''ab c'', lit ''d'' @ [NEWLINE]]) = Ret () t \<and> u_out t 1 = lit ''1 2 6 x'' @ [NEWLINE]"
proof -
  let ?cs = "[lit ''ab c'', lit ''d'' @ [NEWLINE]]" let ?s = "sample_env ?cs" let ?i = "concat ?cs"
  have sp: "wc_space c \<longleftrightarrow> c \<in> {32, 13, 9, 10, 11}" for c by (auto simp: wc_space_def split: option.splits)
  have ws: "length (words_of [97, 98, 32, 99, 100, 10]) = 2" using word_starts_words [of "[97, 98, 32, 99, 100, 10]"] by (simp add: sp)
  have sn: "show_num 10 1 = [49]" "show_num 10 2 = [50]" "show_num 10 6 = [54]"
    by (simp_all add: show_num_def digits_loop.simps digit_def of_char_def)
  have "wp (wc 0 (lit ''x'') ?s) (\<lambda>_ t. input 0 [] t \<and>
    emits 0 (show_num 10 (int (newlines ?i)) @ [32] @ show_num 10 (int (length (words_of ?i))) @ [32] @
      show_num 10 (int (length ?i)) @ [32] @ lit ''x'' @ [NEWLINE]) ?s t)"
    by (rule wc_counts [OF sample_env(1,2)]) simp_all
  moreover have "newlines ?i = 1" "length ?i = 6" by (simp_all add: of_char_def)
  ultimately show ?thesis unfolding wp_iff by (auto simp: ws sn emits_def sample_env(3) of_char_def)
qed

text \<open>
  C27. \<^verbatim>\<open>head\<close> for users prints the first lines of the input, with their newlines, then a newline, however the input is cut into
  portions; unlike the version in the kernel it has no limit on the length of a line and prints empty lines.
\<close>

theorem head_user_prints:
  assumes "input fd inp s" "ufd 1 s \<noteq> None"
  shows "wp (uhead fd num s) (\<lambda>_ t. emits fd (concat (take (nat num) (klines inp)) @ [NEWLINE]) s t)"
  unfolding uhead_def wp_kbind
proof (rule wp_uhead_loop [OF assms])
  fix t assume "emits fd (first_lines (nat (num - 0)) inp) s t"
  from emits_uput [OF this assms(2)]
  show "wp (printf 1 [NEWLINE] [] t) (\<lambda>_ t. emits fd (concat (take (nat num) (klines inp)) @ [NEWLINE]) s t)"
    by (simp add: printf_eq first_lines_klines)
qed

theorem head_user_prints_witness:
  "\<exists>t. uhead 0 2 (sample_env [[97, 10, 98], [99, 10, 100]]) = Ret () t \<and> u_out t 1 = [97, 10, 98, 99, 10, 10]"
proof -
  let ?cs = "[[97, 10, 98], [99, 10, 100]]"
  have w: "wp (uhead 0 2 (sample_env ?cs)) (\<lambda>_ t. emits 0 (concat (take (nat 2) (klines (concat ?cs))) @ [NEWLINE]) (sample_env ?cs) t)"
    by (rule head_user_prints [OF sample_env(1,2)]) simp
  have "concat (take (Suc (Suc 0)) (klines (concat ?cs))) = [97, 10, 98, 99, 10]"
    by (simp flip: first_lines_klines)
  then have "concat (take 2 (klines (concat ?cs))) = [97, 10, 98, 99, 10]" by (simp only: numeral_2_eq_2)
  then show ?thesis using w unfolding wp_iff emits_def sample_env(3) by auto
qed

text \<open>
  C28. \<^verbatim>\<open>cat\<close> writes exactly what it reads, in any portions, and reads to the end.
\<close>

theorem cat_copies:
  assumes "input fd inp s" "ufd 1 s \<noteq> None"
  shows "wp (cat fd s) (\<lambda>_ t. emits fd inp s t \<and> input fd [] t)"
  by (rule wp_cat [OF assms]) simp

theorem cat_copies_witness:
  "\<exists>t. cat 0 (sample_env [[97, 10, 98], [99, 10, 100]]) = Ret () t \<and> u_out t 1 = [97, 10, 98, 99, 10, 100]"
proof -
  let ?cs = "[[97, 10, 98], [99, 10, 100]]"
  have "wp (cat 0 (sample_env ?cs)) (\<lambda>_ t. emits 0 (concat ?cs) (sample_env ?cs) t \<and> input 0 [] t)"
    by (rule cat_copies [OF sample_env(1,2)]) simp
  then show ?thesis unfolding wp_iff by (auto simp: emits_def sample_env(3))
qed



end
