(* ===== verification/Grep.thy ===== *)
theory Grep
  imports Utils
begin

text \<open>
  The program \<^verbatim>\<open>grep.c\<close>: its matcher, against the languages its patterns stand for, and its loop over the input.
  A pattern or a line is the list of its characters; the end of the list is the NUL of the code.
\<close>

section \<open>The matcher\<close>

function (sequential) matchhere :: "bytes \<Rightarrow> bytes \<Rightarrow> bool" and matchstar :: "u8 \<Rightarrow> bytes \<Rightarrow> bytes \<Rightarrow> bool" where
  "matchhere [] s = True"
| "matchhere (c # re) s =
     (case re of
        [] \<Rightarrow> if c = 36 then s = [] else (case s of [] \<Rightarrow> False | x # s \<Rightarrow> (c = 46 \<or> c = x) \<and> matchhere re s)
      | d # re' \<Rightarrow>
          if d = 42 then matchstar c re' s
          else (case s of [] \<Rightarrow> False | x # s \<Rightarrow> (c = 46 \<or> c = x) \<and> matchhere re s))"
| "matchstar c re s =
     (matchhere re s \<or> (case s of [] \<Rightarrow> False | x # s \<Rightarrow> (x = c \<or> c = 46) \<and> matchstar c re s))"
  by pat_completeness auto
termination
  by (relation "measures [\<lambda>x. case x of Inl (re, s) \<Rightarrow> length re | Inr (c, re, s) \<Rightarrow> length re,
       \<lambda>x. case x of Inl (re, s) \<Rightarrow> length s | Inr (c, re, s) \<Rightarrow> length s, \<lambda>x. case x of Inl _ \<Rightarrow> 0 | Inr _ \<Rightarrow> 1]") auto

declare matchhere.simps(2) [simp del] matchstar.simps [simp del]

fun match_from :: "bytes \<Rightarrow> bytes \<Rightarrow> bool" where
  "match_from re [] = matchhere re []"
| "match_from re (x # s) = (matchhere re (x # s) \<or> match_from re s)"

definition match :: "bytes \<Rightarrow> bytes \<Rightarrow> bool" where
  "match re s = (case re of c # re' \<Rightarrow> if c = 94 then matchhere re' s else match_from re s | [] \<Rightarrow> match_from re s)"

section \<open>The loop over the input\<close>

text \<open>
  The loop over the lines in \<^verbatim>\<open>buf\<close>, from \<^verbatim>\<open>p\<close> on: it returns the rest. \<^verbatim>\<open>strchr\<close> stops at a NUL, here the one that was
  stored after the bytes read.
\<close>

function grep_lines :: "bytes \<Rightarrow> bytes \<Rightarrow> uenv \<Rightarrow> (bytes, uenv) outcome" where
  "grep_lines pattern p s =
     (case strchr (p @ [0]) NEWLINE of
        Some (Some k) \<Rightarrow>
          kbind (if match pattern (take k p) then kbind (uwrite 1 (take (k + 1) p) s) (\<lambda>_ s. Ret () s) else Ret () s) (\<lambda>_ s.
          grep_lines pattern (drop (k + 1) p) s)
      | _ \<Rightarrow> Ret p s)"
  by auto

lemma strchr_newline:
  "strchr (p @ [0]) NEWLINE =
     Some (if NEWLINE \<in> set (cstr p) then Some (length (takeWhile (\<lambda>c. c \<noteq> NEWLINE) p)) else None)"
  by (induction p) auto

termination grep_lines
  by (relation "measure (\<lambda>(pattern, p, s). length p)") (auto simp: strchr_newline cstr_def split: if_splits dest!: set_takeWhileD
      dest: length_pos_if_in_set)

declare grep_lines.simps [simp del]

lemma grep_lines_left: "grep_lines pattern p s = Ret r s' \<Longrightarrow> uleft fd s' = uleft fd s"
proof (induction pattern p s arbitrary: r s' rule: grep_lines.induct)
  case (1 pattern p s)
  then show ?case
    by (subst (asm) grep_lines.simps)
      (auto simp: strchr_newline uwrite_eq kbind_eq_Ret_iff split: if_splits)
qed

text \<open>The bytes kept in \<^verbatim>\<open>buf\<close> are \<open>pend\<close>, of which there are \<^verbatim>\<open>m\<close>.\<close>

function grep_loop :: "bytes \<Rightarrow> int \<Rightarrow> bytes \<Rightarrow> uenv \<Rightarrow> (unit, uenv) outcome" where
  "grep_loop pattern fd pend s =
     kbind (uread fd (1024 - length pend - 1) s) (\<lambda>(n, d) s.
     if n > 0 then
       kbind (grep_lines pattern (pend @ d) s) (\<lambda>p s.
       grep_loop pattern fd (if length p = length (pend @ d) then [] else p) s)
     else Ret () s)"
  by auto
termination
  by (relation "measure (\<lambda>(pattern, fd, pend, s). uleft fd s)") (auto simp: grep_lines_left dest: uread_left)

declare grep_loop.simps [simp del]

definition grep :: "bytes \<Rightarrow> int \<Rightarrow> uenv \<Rightarrow> (unit, uenv) outcome" where
  "grep pattern fd s = grep_loop pattern fd [] s"

fun grep_files :: "bytes \<Rightarrow> bytes list \<Rightarrow> uenv \<Rightarrow> (unit, uenv) outcome" where
  "grep_files pattern [] s = Ret () s"
| "grep_files pattern (a # argv) s =
     kbind (uopen a s) (\<lambda>fd s.
     if fd < 0 then kbind (printf 1 (lit ''grep: cannot open %s'' @ [NEWLINE]) [AStr (Some a)] s) (\<lambda>_ s. uexit s)
     else kbind (grep pattern fd s) (\<lambda>_ s. kbind (uclose fd s) (\<lambda>_ s. grep_files pattern argv s)))"

definition grep_main :: "bytes list \<Rightarrow> uenv \<Rightarrow> (unit, uenv) outcome" where
  "grep_main argv s =
     (if length argv \<le> 1 then
        kbind (printf 2 (lit ''usage: grep pattern [file ...]'' @ [NEWLINE]) [] s) (\<lambda>_ s. uexit s)
      else
        kbind (if length argv \<le> 2 then grep (argv ! 1) 0 s else grep_files (argv ! 1) (drop 2 argv) s) (\<lambda>_ s. uexit s))"

section \<open>The language of a pattern\<close>

datatype atom = One u8 | Star u8

text \<open>The atoms of a pattern without its leading circumflex, and whether it ends in a dollar sign that stands for the end of the line.\<close>

fun atoms :: "bytes \<Rightarrow> atom list \<times> bool" where
  "atoms [] = ([], False)"
| "atoms [c] = (if c = 36 then ([], True) else ([One c], False))"
| "atoms (c # d # re) =
     (if d = 42 then (let (as, e) = atoms re in (Star c # as, e)) else (let (as, e) = atoms (d # re) in (One c # as, e)))"

definition accepts :: "u8 \<Rightarrow> u8 set" where
  "accepts c = (if c = 46 then UNIV else {c})"

fun lang :: "atom list \<Rightarrow> bytes set" where
  "lang [] = {[]}"
| "lang (One c # as) = {x # u | x u. x \<in> accepts c \<and> u \<in> lang as}"
| "lang (Star c # as) = {v @ u | v u. set v \<subseteq> accepts c \<and> u \<in> lang as}"

definition begins :: "atom list \<times> bool \<Rightarrow> bytes \<Rightarrow> bool" where
  "begins p t \<longleftrightarrow> (\<exists>u v. t = u @ v \<and> u \<in> lang (fst p) \<and> (snd p \<longrightarrow> v = []))"

lemma begins_Nil [simp]: "begins ([], False) t" "begins ([], True) t \<longleftrightarrow> t = []"
  by (auto simp: begins_def)

lemma begins_One: "begins (One c # as, e) t \<longleftrightarrow> (\<exists>x s. t = x # s \<and> x \<in> accepts c \<and> begins (as, e) s)"
proof
  assume "begins (One c # as, e) t"
  then obtain x u v where "t = x # u @ v" "x \<in> accepts c" "u \<in> lang as" "e \<longrightarrow> v = []" unfolding begins_def by force
  then show "\<exists>x s. t = x # s \<and> x \<in> accepts c \<and> begins (as, e) s" unfolding begins_def by auto
next
  assume "\<exists>x s. t = x # s \<and> x \<in> accepts c \<and> begins (as, e) s"
  then obtain x u v where "t = (x # u) @ v" "x \<in> accepts c" "u \<in> lang as" "e \<longrightarrow> v = []" unfolding begins_def by force
  then show "begins (One c # as, e) t" unfolding begins_def by (intro exI [of _ "x # u"] exI [of _ v]) auto
qed

lemma begins_Star:
  "begins (Star c # as, e) t \<longleftrightarrow> begins (as, e) t \<or> (\<exists>x s. t = x # s \<and> x \<in> accepts c \<and> begins (Star c # as, e) s)"
proof
  assume "begins (Star c # as, e) t"
  then obtain v u w where v: "t = v @ u @ w" "set v \<subseteq> accepts c" "u \<in> lang as" "e \<longrightarrow> w = []"
    unfolding begins_def by force
  show "begins (as, e) t \<or> (\<exists>x s. t = x # s \<and> x \<in> accepts c \<and> begins (Star c # as, e) s)"
  proof (cases v)
    case Nil
    then show ?thesis using v by (auto simp: begins_def)
  next
    case (Cons x v')
    then have "begins (Star c # as, e) (v' @ u @ w)" using v
      unfolding begins_def by (intro exI [of _ "v' @ u"] exI [of _ w]) auto
    then show ?thesis using v Cons by auto
  qed
next
  assume "begins (as, e) t \<or> (\<exists>x s. t = x # s \<and> x \<in> accepts c \<and> begins (Star c # as, e) s)"
  then show "begins (Star c # as, e) t"
  proof
    assume "begins (as, e) t"
    then obtain u w where "t = u @ w" "u \<in> lang as" "e \<longrightarrow> w = []" unfolding begins_def by force
    moreover have "u \<in> lang (Star c # as)" if "u \<in> lang as"
      unfolding lang.simps by (rule CollectI, rule exI [of _ "[]"], rule exI [of _ u]) (simp add: that)
    ultimately show ?thesis unfolding begins_def by auto
  next
    assume "\<exists>x s. t = x # s \<and> x \<in> accepts c \<and> begins (Star c # as, e) s"
    then obtain x v u w where "t = x # v @ u @ w" "x \<in> accepts c" "set v \<subseteq> accepts c" "u \<in> lang as" "e \<longrightarrow> w = []"
      unfolding begins_def by force
    moreover from this have "(x # v) @ u \<in> lang (Star c # as)"
      unfolding lang.simps by (intro CollectI exI [of _ "x # v"] exI [of _ u]) simp
    ultimately show ?thesis unfolding begins_def by (intro exI [of _ "(x # v) @ u"] exI [of _ w]) simp
  qed
qed

lemma matchhere_begins: "matchhere re t = begins (atoms re) t"
  and matchstar_begins: "matchstar c re t = begins (Star c # fst (atoms re), snd (atoms re)) t"
proof (induction re t and c re t rule: matchhere_matchstar.induct)
  case (2 c re s)
  show ?case
  proof (cases re)
    case Nil
    then show ?thesis using 2(1) [OF Nil] by (auto simp: matchhere.simps(2) begins_One accepts_def split: list.split)
  next
    case (Cons d re')
    show ?thesis
    proof (cases "d = 42")
      case True
      then show ?thesis using 2(2) [OF Cons True] Cons
        by (cases "atoms re'") (simp add: matchhere.simps(2))
    next
      case False
      then show ?thesis using 2(3) [OF Cons False] Cons
        by (cases "atoms (d # re')") (auto simp: matchhere.simps(2) begins_One accepts_def split: list.split)
    qed
  qed
next
  case (3 c re s)
  show ?case
    unfolding matchstar.simps [of c re s] begins_Star [of c _ _ s]
    using 3 by (auto simp: accepts_def split: list.split)
qed simp

lemma match_from_begins: "match_from re t \<longleftrightarrow> (\<exists>w s. t = w @ s \<and> begins (atoms re) s)"
proof (induction t)
  case Nil
  then show ?case by (auto simp: matchhere_begins)
next
  case (Cons x t)
  have "(\<exists>w s. x # t = w @ s \<and> begins (atoms re) s) \<longleftrightarrow> begins (atoms re) (x # t) \<or> (\<exists>w s. t = w @ s \<and> begins (atoms re) s)"
    by (metis append_Cons append_Nil list.inject neq_Nil_conv)
  then show ?case using Cons by (simp add: matchhere_begins)
qed

section \<open>The lines that are printed\<close>

definition selected :: "bytes \<Rightarrow> bytes \<Rightarrow> bytes" where
  "selected pattern t = concat (filter (\<lambda>l. last l = NEWLINE \<and> match pattern (butlast l)) (klines t))"

lemma klines_Nil: "klines [] = []"
  by (simp add: klines.simps)

lemma klines_line: "NEWLINE \<notin> set l \<Longrightarrow> klines (l @ NEWLINE # r) = (l @ [NEWLINE]) # klines r"
proof -
  assume "NEWLINE \<notin> set l"
  then have "takeWhile (\<lambda>c. c \<noteq> NEWLINE) (l @ NEWLINE # r) = l" by (auto simp: takeWhile_append)
  then show ?thesis by (subst klines.simps) (simp add: Let_def)
qed

lemma klines_partial: "NEWLINE \<notin> set l \<Longrightarrow> klines l = (if l = [] then [] else [l])"
proof -
  assume "NEWLINE \<notin> set l"
  then have e: "takeWhile (\<lambda>c. c \<noteq> NEWLINE) l = l" by (auto simp: takeWhile_eq_all_conv)
  show ?thesis unfolding klines.simps [of l] Let_def e by (simp add: klines_Nil)
qed

lemma selected_line:
  "NEWLINE \<notin> set l \<Longrightarrow> selected pattern (l @ NEWLINE # r) = (if match pattern l then l @ [NEWLINE] else []) @ selected pattern r"
  by (simp add: selected_def klines_line)

lemma selected_partial: "NEWLINE \<notin> set l \<Longrightarrow> selected pattern l = []"
  by (auto simp: selected_def klines_partial dest: last_in_set)

lemma split_newline:
  assumes "NEWLINE \<in> set p"
  obtains l r where "p = l @ NEWLINE # r" "NEWLINE \<notin> set l"
  using split_list_first [OF assms] that by blast

lemma grep_lines_eq:
  assumes "0 \<notin> set p"
  shows "\<exists>a q. p = a @ q \<and> NEWLINE \<notin> set q \<and> (a = [] \<longleftrightarrow> NEWLINE \<notin> set p) \<and> (\<forall>x. klines (a @ x) = klines a @ klines x) \<and>
    grep_lines pattern p s = Ret q (uput 1 (selected pattern a) s)"
  using assms
proof (induction "length p" arbitrary: p s rule: less_induct)
  case less
  have cs: "cstr p = p" using less.prems by (auto simp: cstr_def takeWhile_eq_all_conv)
  show ?case
  proof (cases "NEWLINE \<in> set p")
    case False
    then have "grep_lines pattern p s = Ret p s" by (subst grep_lines.simps) (simp add: strchr_newline cs)
    then show ?thesis using False by (intro exI [of _ "[]"] exI [of _ p]) (simp add: selected_def klines.simps)
  next
    case True
    then obtain l r where p: "p = l @ NEWLINE # r" "NEWLINE \<notin> set l" by (rule split_newline)
    let ?s = "uput 1 (if match pattern l then l @ [NEWLINE] else []) s"
    obtain a q where a: "r = a @ q" "NEWLINE \<notin> set q" "\<And>x. klines (a @ x) = klines a @ klines x"
        "grep_lines pattern r ?s = Ret q (uput 1 (selected pattern a) ?s)"
      using less.hyps [of r ?s] less.prems p by auto
    have tw: "takeWhile (\<lambda>c. c \<noteq> NEWLINE) p = l" using p by (auto simp: takeWhile_append)
    have st: "strchr (p @ [0]) NEWLINE = Some (Some (length l))" using True by (simp add: strchr_newline cs tw)
    have "grep_lines pattern p s = grep_lines pattern r ?s"
      unfolding grep_lines.simps [of pattern p s] st by (simp add: p uwrite_eq)
    then have "grep_lines pattern p s = Ret q (uput 1 (selected pattern (l @ NEWLINE # a)) s)"
      using a(4) p(2) by (simp add: selected_line)
    moreover have "klines ((l @ NEWLINE # a) @ x) = klines (l @ NEWLINE # a) @ klines x" for x
      using klines_line [OF p(2), of "a @ x"] klines_line [OF p(2), of a] a(3) by simp
    ultimately show ?thesis using a(1,2) p by (intro exI [of _ "l @ NEWLINE # a"] exI [of _ q]) simp
  qed
qed

text \<open>A regular file: what is left of it is one portion.\<close>

definition file_input :: "int \<Rightarrow> bytes \<Rightarrow> uenv \<Rightarrow> bool" where
  "file_input fd r s \<longleftrightarrow> ufd fd s = Some [r] \<or> r = [] \<and> ufd fd s = Some []"

lemma file_input_uput [simp]: "file_input fd r (uput g b s) = file_input fd r s"
  by (simp add: file_input_def)

lemma wp_file_read:
  assumes "file_input fd r s" "0 < n"
    "\<And>t. r = [] \<Longrightarrow> emits fd [] s t \<Longrightarrow> Q (0, []) t"
    "\<And>t. r \<noteq> [] \<Longrightarrow> file_input fd (drop n r) t \<Longrightarrow> emits fd [] s t \<Longrightarrow> Q (int (length (take n r)), take n r) t"
  shows "wp (uread fd n s) Q"
proof -
  have "emits fd [] s (s\<lparr>u_ofile := (u_ofile s)[nat fd := Some x]\<rparr>)" if "ufd fd s \<noteq> None" for x
    using that by (auto simp: emits_def ufd_set)
  then show ?thesis using assms
    by (cases "r = []") (auto simp: file_input_def uread_def ufd_set)
qed

definition lines_fit :: "bytes \<Rightarrow> bool" where
  "lines_fit t \<longleftrightarrow> (\<forall>l \<in> set (klines t). last l = NEWLINE \<longrightarrow> length l \<le> 1023)"

lemma partial_fit: "NEWLINE \<notin> set l \<Longrightarrow> lines_fit l"
  by (auto simp: lines_fit_def klines_partial dest: last_in_set)

lemma wp_grep_loop:
  assumes "file_input fd r s" "ufd 1 s \<noteq> None" "NEWLINE \<notin> set pend" "length pend < 1023" "0 \<notin> set pend" "0 \<notin> set r"
    "lines_fit (pend @ r)" "\<And>t. emits fd (selected pattern (pend @ r)) s t \<Longrightarrow> Q () t"
  shows "wp (grep_loop pattern fd pend s) Q"
  using assms
proof (induction "length r" arbitrary: r s pend Q rule: less_induct)
  case less
  let ?n = "1024 - length pend - 1"
  let ?k = "\<lambda>(n, d) s. wp (if n > 0 then kbind (grep_lines pattern (pend @ d) s) (\<lambda>p s.
       grep_loop pattern fd (if length p = length (pend @ d) then [] else p) s) else Ret () s) Q"
  have n: "0 < ?n" using less.prems(4) by simp
  have "wp (uread fd ?n s) ?k"
  proof (rule wp_file_read [OF less.prems(1) n], goal_cases)
    case (1 t)
    then show ?case using less.prems(8) selected_partial [OF less.prems(3)] by simp
  next
    case (2 t)
    let ?d = "take ?n r" and ?r = "drop ?n r"
    have "0 \<notin> set (pend @ ?d)" using less.prems(5,6) by (auto dest: in_set_takeD)
    then obtain a q where a: "pend @ ?d = a @ q" "NEWLINE \<notin> set q" "a = [] \<longleftrightarrow> NEWLINE \<notin> set (pend @ ?d)"
      "\<And>x. klines (a @ x) = klines a @ klines x" "grep_lines pattern (pend @ ?d) t = Ret q (uput 1 (selected pattern a) t)"
      using grep_lines_eq by meson
    have split: "pend @ r = a @ q @ ?r" using a(1) by (metis append.assoc append_take_drop_id)
    have sel: "selected pattern (pend @ r) = selected pattern a @ selected pattern (q @ ?r)"
      and fit: "lines_fit (q @ ?r)" using a(4) less.prems(7) unfolding split by (auto simp: selected_def lines_fit_def)
    have e: "emits fd (selected pattern a) s (uput 1 (selected pattern a) t)" using emits_uput [OF 2(3) less.prems(2)] by simp
    have len: "length ?r < length r" using 2(1) n by (cases r) auto
    have out: "ufd 1 t \<noteq> None" using emits_stdout [OF 2(3)] less.prems(2) by simp
    have z: "0 \<notin> set q" "0 \<notin> set ?r" using less.prems(5,6) a(1) by (metis Un_iff set_append in_set_takeD, metis in_set_dropD)
    have step: "wp (grep_loop pattern fd pend' (uput 1 (selected pattern a) t)) Q"
      if "NEWLINE \<notin> set pend'" "length pend' < 1023" "0 \<notin> set pend'" "lines_fit (pend' @ ?r)"
        "selected pattern (pend' @ ?r) = selected pattern (q @ ?r)" for pend'
      using that 2(2) out z(2) less.prems(8) emits_trans [OF e] sel by (intro less.hyps [OF len]) auto
    show ?case
    proof (cases "a = []")
      case False
      then have lq: "length q < length (pend @ ?d)" using a(1) by simp
      moreover have "length (pend @ ?d) \<le> 1023" using less.prems(4) by simp
      ultimately have "length q < 1023" by linarith
      then have "wp (grep_loop pattern fd q (uput 1 (selected pattern a) t)) Q" using a(2) z fit by (intro step) auto
      then show ?thesis using 2(1) n lq a(5) by simp
    next
      case True
      have "NEWLINE \<notin> set (q @ ?r)"
      proof
        assume "NEWLINE \<in> set (q @ ?r)"
        then obtain l x where l: "q @ ?r = l @ NEWLINE # x" "NEWLINE \<notin> set l" by (rule split_newline)
        then have "length (l @ [NEWLINE]) \<le> 1023" using fit klines_line [OF l(2), of x] by (simp add: lines_fit_def)
        moreover have "length q < length (l @ [NEWLINE])"
        proof (rule ccontr)
          assume "\<not> length q < length (l @ [NEWLINE])"
          then have "length l < length q" by simp
          then have "q ! length l = NEWLINE" using arg_cong [OF l(1), of "\<lambda>u. u ! length l"] by (simp add: nth_append)
          then show False using a(2) \<open>length l < length q\<close> nth_mem by metis
        qed
        moreover have "?r \<noteq> []" using l a(2) by auto
        then have "length (pend @ ?d) = 1023" using less.prems(4) by simp
        then have "length q = 1023" unfolding a(1) True by simp
        ultimately show False by simp
      qed
      then have "selected pattern ?r = selected pattern (q @ ?r)" "lines_fit ?r"
        by (simp_all add: selected_partial partial_fit)
      then have "wp (grep_loop pattern fd [] (uput 1 (selected pattern a) t)) Q" by (intro step) auto
      moreover have "length q = length (pend @ ?d)" unfolding a(1) True by simp
      ultimately show ?thesis using 2(1) n a(5) by simp
    qed
  qed
  then show ?case by (subst grep_loop.simps) (simp add: case_prod_unfold)
qed

section \<open>Properties\<close>

text \<open>
  What a pattern means: a leading circumflex ties the match to the beginning of the line, a final dollar sign to its end; a dot
  stands for any character, and a character with a star for any number of them.
\<close>

definition pattern_matches :: "bytes \<Rightarrow> bytes \<Rightarrow> bool" where
  "pattern_matches re t \<longleftrightarrow>
     (let bol = (re \<noteq> [] \<and> hd re = 94); (as, eol) = atoms (if bol then tl re else re)
      in \<exists>w u v. t = w @ u @ v \<and> u \<in> lang as \<and> (bol \<longrightarrow> w = []) \<and> (eol \<longrightarrow> v = []))"

lemma match_pattern: "match re t = pattern_matches re t"
proof (cases "re \<noteq> [] \<and> hd re = 94")
  case True
  then obtain re' where re: "re = 94 # re'" by (cases re) auto
  show ?thesis by (cases "atoms re'") (auto simp: re match_def pattern_matches_def matchhere_begins begins_def)
next
  case False
  then have "match re t = match_from re t" by (auto simp: match_def split: list.split)
  then show ?thesis using False
    by (cases "atoms re") (auto simp: pattern_matches_def match_from_begins begins_def Let_def)
qed

text \<open>
  C16. The matcher of \<^verbatim>\<open>grep\<close> decides exactly the language of the pattern, for every pattern and every line; the recursion of
  \<^verbatim>\<open>matchhere\<close> and \<^verbatim>\<open>matchstar\<close> ends.
\<close>

theorem match_language: "match re t = pattern_matches re t"
  by (rule match_pattern)

text \<open>
  C17. \<^verbatim>\<open>grep\<close> on a file prints exactly the lines that match, in their order, when no line is longer than 1022 characters.
  It looks only at lines that end in a newline: a last line without one is never printed.
\<close>

theorem grep_filters:
  assumes "ufd fd s = Some [inp]" "ufd 1 s \<noteq> None" "0 \<notin> set inp"
    "\<forall>l \<in> set (klines inp). last l = NEWLINE \<longrightarrow> length l \<le> 1023"
  shows "wp (grep pattern fd s) (\<lambda>_ t.
    emits fd (concat (filter (\<lambda>l. last l = NEWLINE \<and> pattern_matches pattern (butlast l)) (klines inp))) s t)"
proof -
  have m: "pattern_matches = match" by (intro ext) (simp add: match_pattern)
  show ?thesis unfolding grep_def m
    by (rule wp_grep_loop [where r = inp]) (use assms in \<open>auto simp: file_input_def lines_fit_def selected_def\<close>)
qed

theorem grep_filters_witness:
  "\<exists>t. grep (lit ''^a*b'') 0 (sample_env [[97, 98, 10, 99, 10, 98, 10]]) = Ret () t \<and> u_out t 1 = [97, 98, 10, 98, 10]"
proof -
  let ?i = "[97, 98, 10, 99, 10, 98, 10] :: bytes" let ?s = "sample_env [?i]"
  have k: "klines ?i = [[97, 98, 10], [99, 10], [98, 10]]" by (simp add: klines.simps)
  have m: "pattern_matches (lit ''^a*b'') [97, 98]" "\<not> pattern_matches (lit ''^a*b'') [99]" "pattern_matches (lit ''^a*b'') [98]"
    by (simp_all flip: match_pattern add: match_def matchhere.simps(2) matchstar.simps of_char_def)
  have "wp (grep (lit ''^a*b'') 0 ?s) (\<lambda>_ t.
    emits 0 (concat (filter (\<lambda>l. last l = NEWLINE \<and> pattern_matches (lit ''^a*b'') (butlast l)) (klines ?i))) ?s t)"
    by (rule grep_filters) (simp_all add: k sample_env_def ufd_def)
  then show ?thesis unfolding wp_iff k using m by (auto simp: emits_def sample_env_def)
qed



end
