(* ===== verification/Shell.thy ===== *)
theory Shell
  imports User "HOL-Library.Sublist"
begin

text \<open>
  The command language of the shell, \<^verbatim>\<open>sh.c\<close>: its tokens, its recursive-descent parser and \<^verbatim>\<open>nulterminate\<close>. A pointer
  into the line is the rest of the line from there on, up to \<^verbatim>\<open>es\<close>; where that is empty, the code reads the NUL at \<^verbatim>\<open>es\<close>. The
  functions that move \<^verbatim>\<open>*ps\<close> have it as their state, and \<^verbatim>\<open>panic\<close> is the outcome \<^const>\<open>Panic\<close>. Every call of \<^verbatim>\<open>malloc\<close> is
  taken to succeed; the code does not look at the pointer it returns.
\<close>

section \<open>Commands\<close>

text \<open>The commands over any type of words; the parser has the two pointers of a counted string.\<close>

datatype 'w cmd =
    EXEC "'w list"
  | REDIR "'w cmd" (rfile: 'w) (rmode: u32) (rfd: int)
  | PIPE "'w cmd" "'w cmd"
  | LIST "'w cmd" "'w cmd"
  | BACK "'w cmd"

type_synonym token = "bytes \<times> bytes"

abbreviation (input) O_RDONLY :: u32 where "O_RDONLY \<equiv> 0"
abbreviation (input) O_WRONLY :: u32 where "O_WRONLY \<equiv> 1"
abbreviation (input) O_CREATE :: u32 where "O_CREATE \<equiv> 0x200"
abbreviation (input) MAXARGS :: nat where "MAXARGS \<equiv> 10"

section \<open>Tokens\<close>

definition whitespace :: bytes where "whitespace = [32, 9, 13, 10, 11]"
definition symbols :: bytes where "symbols = lit ''<|>&;()''"

definition in_chars :: "bytes \<Rightarrow> u8 \<Rightarrow> bool" where
  "in_chars toks c = (case strchr (toks @ [0]) c of Some (Some _) \<Rightarrow> True | _ \<Rightarrow> False)"

abbreviation skip_space :: "bytes \<Rightarrow> bytes" where
  "skip_space s \<equiv> dropWhile (in_chars whitespace) s"

abbreviation word_char :: "u8 \<Rightarrow> bool" where
  "word_char c \<equiv> \<not> in_chars whitespace c \<and> \<not> in_chars symbols c"

text \<open>The character at a pointer.\<close>

definition cur_char :: "bytes \<Rightarrow> u8" where
  "cur_char s = hd (s @ [0])"

definition gettoken :: "bytes \<Rightarrow> u8 \<times> bytes \<times> bytes \<times> bytes" where
  "gettoken s =
     (let q = skip_space s; c = cur_char q;
          (ret, eq) =
            (if c = 0 then (0, q)
             else if c \<in> set (lit ''|();&<'') then (c, tl q)
             else if c = 62 then (if cur_char (tl q) = 62 then (43, tl (tl q)) else (62, tl q))
             else (97, dropWhile word_char q))
      in (ret, q, eq, skip_space eq))"

definition peek :: "bytes \<Rightarrow> bytes \<Rightarrow> bool \<times> bytes" where
  "peek toks s = (let s = skip_space s in (cur_char s \<noteq> 0 \<and> in_chars toks (cur_char s), s))"

section \<open>The parser\<close>

text \<open>
  Each function has a bound on the depth of its recursion; at the end of this theory it is shown that the one \<^verbatim>\<open>parsecmd\<close> gives them is
  never reached. \<^verbatim>\<open>parseredirs\<close> returns the redirections to wrap around its command, the inner one first.
\<close>

definition redir_of :: "u8 \<Rightarrow> token \<Rightarrow> token \<times> u32 \<times> int" where
  "redir_of tok f = (if tok = 60 then (f, O_RDONLY, 0) else (f, O_WRONLY OR O_CREATE, 1))"

fun parseredirs :: "nat \<Rightarrow> bytes \<Rightarrow> ((token \<times> u32 \<times> int) list, bytes) outcome" where
  "parseredirs 0 s = Hang"
| "parseredirs (Suc n) s =
     (let (hit, s) = peek (lit ''<>'') s in
      if hit then
        let (tok, _, _, s) = gettoken s; (t, q, eq, s) = gettoken s
        in if t \<noteq> 97 then Panic ''missing file for redirection''
           else kbind (parseredirs n s) (\<lambda>rs s. Ret (redir_of tok (q, eq) # rs) s)
      else Ret [] s)"

definition wrap_redirs :: "'w cmd \<Rightarrow> ('w \<times> u32 \<times> int) list \<Rightarrow> 'w cmd" where
  "wrap_redirs c rs = foldl (\<lambda>c (f, m, d). REDIR c f m d) c rs"

text \<open>The loop of \<^verbatim>\<open>parseexec\<close>: the arguments and the redirections between and after them.\<close>

fun parseargs :: "nat \<Rightarrow> nat \<Rightarrow> bytes \<Rightarrow> (token list \<times> (token \<times> u32 \<times> int) list, bytes) outcome" where
  "parseargs 0 argc s = Hang"
| "parseargs (Suc n) argc s =
     (let (hit, s) = peek (lit ''|)&;'') s in
      if hit then Ret ([], []) s
      else
        let (tok, q, eq, s) = gettoken s
        in if tok = 0 then Ret ([], []) s
           else if tok \<noteq> 97 then Panic ''syntax''
           else if argc + 1 \<ge> MAXARGS then Panic ''too many args''
           else
             kbind (parseredirs n s) (\<lambda>rs s.
             kbind (parseargs n (argc + 1) s) (\<lambda>(as, rs') s. Ret ((q, eq) # as, rs @ rs') s)))"

text \<open>The loop over the ampersands in \<^verbatim>\<open>parseline\<close>.\<close>

fun parseback :: "nat \<Rightarrow> token cmd \<Rightarrow> bytes \<Rightarrow> (token cmd, bytes) outcome" where
  "parseback 0 c s = Hang"
| "parseback (Suc n) c s =
     (let (hit, s) = peek (lit ''&'') s in
      if hit then let (_, _, _, s) = gettoken s in parseback n (BACK c) s else Ret c s)"

fun parseline :: "nat \<Rightarrow> bytes \<Rightarrow> (token cmd, bytes) outcome"
  and parsepipe :: "nat \<Rightarrow> bytes \<Rightarrow> (token cmd, bytes) outcome"
  and parseblock :: "nat \<Rightarrow> bytes \<Rightarrow> (token cmd, bytes) outcome"
  and parseexec :: "nat \<Rightarrow> bytes \<Rightarrow> (token cmd, bytes) outcome" where
  "parseline 0 s = Hang"
| "parseline (Suc n) s =
     kbind (parsepipe n s) (\<lambda>c s.
     kbind (parseback n c s) (\<lambda>c s.
     let (hit, s) = peek (lit '';'') s in
     if hit then let (_, _, _, s) = gettoken s in kbind (parseline n s) (\<lambda>r s. Ret (LIST c r) s)
     else Ret c s))"
| "parsepipe 0 s = Hang"
| "parsepipe (Suc n) s =
     kbind (parseexec n s) (\<lambda>c s.
     let (hit, s) = peek (lit ''|'') s in
     if hit then let (_, _, _, s) = gettoken s in kbind (parsepipe n s) (\<lambda>r s. Ret (PIPE c r) s)
     else Ret c s)"
| "parseblock 0 s = Hang"
| "parseblock (Suc n) s =
     (let (hit, s) = peek (lit ''('') s in
      if \<not> hit then Panic ''parseblock''
      else
        let (_, _, _, s) = gettoken s in
        kbind (parseline n s) (\<lambda>c s.
        let (hit, s) = peek (lit '')'') s in
        if \<not> hit then Panic ''syntax - missing )''
        else let (_, _, _, s) = gettoken s in kbind (parseredirs n s) (\<lambda>rs s. Ret (wrap_redirs c rs) s)))"
| "parseexec 0 s = Hang"
| "parseexec (Suc n) s =
     (let (hit, s) = peek (lit ''('') s in
      if hit then parseblock n s
      else
        kbind (parseredirs n s) (\<lambda>rs s.
        kbind (parseargs n 0 s) (\<lambda>(as, rs') s. Ret (wrap_redirs (EXEC as) (rs @ rs')) s)))"

text \<open>The stores of \<^verbatim>\<open>nulterminate\<close> into the line \<open>b\<close>, an array of at least \<open>es + 1\<close> bytes.\<close>

fun nulterminate :: "nat \<Rightarrow> token cmd \<Rightarrow> bytes \<Rightarrow> bytes" where
  "nulterminate es (EXEC as) b = fold (\<lambda>(q, eq) b. b[es - length eq := 0]) as b"
| "nulterminate es (REDIR c f m d) b = (nulterminate es c b)[es - length (snd f) := 0]"
| "nulterminate es (PIPE l r) b = nulterminate es r (nulterminate es l b)"
| "nulterminate es (LIST l r) b = nulterminate es r (nulterminate es l b)"
| "nulterminate es (BACK c) b = nulterminate es c b"

text \<open>\<^verbatim>\<open>parsecmd\<close> on the line in \<open>b\<close>: the tree and the line with its words terminated. The message about leftovers goes before the panic.\<close>

definition parsecmd :: "bytes \<Rightarrow> (token cmd \<times> bytes, bytes) outcome" where
  "parsecmd b =
     (case strlen b of None \<Rightarrow> undef
      | Some es \<Rightarrow>
          kbind (parseline (5 * es + 5) (take es b)) (\<lambda>c s.
          let (_, s) = peek [] s in
          if s \<noteq> [] then Panic ''syntax'' else Ret (c, nulterminate es c b) s))"

section \<open>Running a command\<close>

text \<open>
  The descriptors of a process and what they refer to; \<^verbatim>\<open>close\<close>, \<^verbatim>\<open>dup\<close>, \<^verbatim>\<open>open\<close> and \<^verbatim>\<open>pipe\<close> take the lowest free ones. A pipe
  has a number of its own.
\<close>

datatype ofile = OTerminal | OFile bytes u32 | OPipeR nat | OPipeW nat

type_synonym fds = "ofile option list"

definition fd_new :: "ofile \<Rightarrow> fds \<Rightarrow> (nat \<times> fds) option" where
  "fd_new x fds = (case find_idx (\<lambda>f. f = None) fds of None \<Rightarrow> None | Some i \<Rightarrow> Some (i, fds[i := Some x]))"

definition fd_close :: "nat \<Rightarrow> fds \<Rightarrow> fds" where
  "fd_close i fds = fds[i := None]"

definition fd_dup :: "nat \<Rightarrow> fds \<Rightarrow> fds" where
  "fd_dup i fds =
     (if i < length fds then
        (case fds ! i of None \<Rightarrow> fds
         | Some x \<Rightarrow> (case fd_new x fds of None \<Rightarrow> fds | Some (_, fds) \<Rightarrow> fds))
      else fds)"

text \<open>
  What the commands of a line do: the programs they start, each with its arguments and descriptors, and the messages. \<open>w_prog\<close> and
  \<open>w_open\<close> say which programs can be run and which files opened, \<open>w_forks\<close> how many processes can still be made.
\<close>

record world =
  w_prog :: "bytes \<Rightarrow> bool"
  w_open :: "bytes \<Rightarrow> u32 \<Rightarrow> bool"
  w_forks :: nat
  w_pipes :: nat
  w_runs :: "(bytes list \<times> fds) list"
  w_msgs :: "bytes list"

definition w_msg :: "bytes \<Rightarrow> world \<Rightarrow> world" where
  "w_msg m w = w\<lparr>w_msgs := w_msgs w @ [m]\<rparr>"

text \<open>\<^verbatim>\<open>fork1\<close>: the child runs \<open>f\<close>; \<^const>\<open>None\<close> when the parent has to exit.\<close>

definition fork1 :: "(world \<Rightarrow> world) \<Rightarrow> world \<Rightarrow> world option" where
  "fork1 f w = (if w_forks w = 0 then None else Some (f (w\<lparr>w_forks := w_forks w - 1\<rparr>)))"

definition or_panic :: "world option \<Rightarrow> bytes \<Rightarrow> world \<Rightarrow> (world \<Rightarrow> world) \<Rightarrow> world" where
  "or_panic r msg w k = (case r of None \<Rightarrow> w_msg msg w | Some w \<Rightarrow> k w)"

fun runcmd :: "bytes cmd \<Rightarrow> fds \<Rightarrow> world \<Rightarrow> world" where
  "runcmd (EXEC argv) fds w =
     (case argv of [] \<Rightarrow> w
      | a # _ \<Rightarrow>
          if w_prog w a then w\<lparr>w_runs := w_runs w @ [(argv, fds)]\<rparr>
          else w_msg (lit ''exec '' @ a @ lit '' failed'') w)"
| "runcmd (REDIR c file mode fd) fds w =
     (case (if w_open w file mode then fd_new (OFile file mode) (fd_close (nat fd) fds) else None) of
        None \<Rightarrow> w_msg (lit ''open '' @ file @ lit '' failed'') w
      | Some (_, fds) \<Rightarrow> runcmd c fds w)"
| "runcmd (LIST l r) fds w =
     or_panic (fork1 (runcmd l fds) w) (lit ''fork'') w (\<lambda>w. runcmd r fds w)"
| "runcmd (PIPE l r) fds w =
     (case fd_new (OPipeR (w_pipes w)) fds of None \<Rightarrow> w_msg (lit ''pipe'') w
      | Some (p0, fds1) \<Rightarrow>
          (case fd_new (OPipeW (w_pipes w)) fds1 of None \<Rightarrow> w_msg (lit ''pipe'') w
           | Some (p1, fds2) \<Rightarrow>
               let w = w\<lparr>w_pipes := w_pipes w + 1\<rparr> in
               or_panic (fork1 (runcmd l (fd_close p1 (fd_close p0 (fd_dup p1 (fd_close 1 fds2))))) w) (lit ''fork'') w (\<lambda>w.
               or_panic (fork1 (runcmd r (fd_close p1 (fd_close p0 (fd_dup p0 (fd_close 0 fds2))))) w) (lit ''fork'') w (\<lambda>w. w))))"
| "runcmd (BACK c) fds w = or_panic (fork1 (runcmd c fds) w) (lit ''fork'') w (\<lambda>w. w)"

section \<open>Reading a command\<close>

definition getcmd :: "int \<Rightarrow> uenv \<Rightarrow> (int \<times> bytes, uenv) outcome" where
  "getcmd nbuf s =
     kbind (printf 2 (lit ''$ '') [] s) (\<lambda>_ s.
     kbind (gets (replicate (nat nbuf) 0) nbuf s) (\<lambda>buf s.
     Ret (if buf ! 0 = 0 then -1 else 0, buf) s))"

text \<open>The test for \<^verbatim>\<open>cd\<close> in \<^verbatim>\<open>main\<close>, which the shell runs itself: the directory, with the last character of the line taken off.\<close>

definition cd_dir :: "bytes \<Rightarrow> bytes option" where
  "cd_dir buf =
     (if buf ! 0 = 99 \<and> buf ! 1 = 100 \<and> buf ! 2 = 32 then
        (case strlen buf of None \<Rightarrow> None | Some n \<Rightarrow> Some (cstr (drop 3 (buf[n - 1 := 0]))))
      else None)"

section \<open>The parser ends, and its tokens are words of the line\<close>

lemma in_chars_set: "0 \<notin> set toks \<Longrightarrow> in_chars toks c \<longleftrightarrow> c \<in> set toks"
proof (induction toks)
  case (Cons a toks)
  then show ?case by (auto simp: in_chars_def split: option.splits)
qed (simp add: in_chars_def)

lemma in_chars_sets:
  "in_chars whitespace c \<longleftrightarrow> c \<in> {32, 9, 13, 10, 11}" "in_chars symbols c \<longleftrightarrow> c \<in> {60, 124, 62, 38, 59, 40, 41}"
  by (subst in_chars_set; simp add: whitespace_def symbols_def of_char_def)+

lemma suffix_dropWhile_trans: "suffix s t \<Longrightarrow> suffix (dropWhile P s) t"
  using suffix_dropWhile suffix_order.trans by blast

text \<open>A token in \<open>L\<close>: a maximal word.\<close>

fun tok_in :: "bytes \<Rightarrow> token \<Rightarrow> bool" where
  "tok_in L (q, e) \<longleftrightarrow> suffix q L \<and> (\<exists>w. q = w @ e \<and> w \<noteq> [] \<and> (\<forall>c \<in> set w. word_char c)) \<and> (e = [] \<or> \<not> word_char (hd e))"

lemma tok_in_suffix: "tok_in s t \<Longrightarrow> suffix s L \<Longrightarrow> tok_in L t"
  by (cases t) (auto intro: suffix_order.trans)

declare tok_in.simps [simp del]

lemma gettoken_word:
  assumes "gettoken s = (97, q, e, t)" "0 \<notin> set s"
  shows "tok_in s (q, e)"
proof -
  have q: "q = skip_space s" and e: "e = dropWhile word_char q" and c: "cur_char q \<noteq> 0" "\<not> in_chars symbols (cur_char q)"
    using assms(1) by (auto simp: gettoken_def Let_def in_chars_sets of_char_def split: if_splits)
  have ne: "q \<noteq> []" using c(1) by (auto simp: cur_char_def)
  then have "word_char (hd q)" using c(2) hd_dropWhile [of "in_chars whitespace" s] q by (auto simp: cur_char_def)
  then have "takeWhile word_char q \<noteq> []" using ne by (cases q) auto
  moreover have "q = takeWhile word_char q @ e" by (simp add: e)
  moreover have "\<forall>c \<in> set (takeWhile word_char q). word_char c" by (auto dest: set_takeWhileD)
  moreover have "e = [] \<or> \<not> word_char (hd e)" unfolding e using hd_dropWhile by blast
  moreover have "suffix q s" unfolding q by (rule suffix_dropWhile)
  ultimately show ?thesis unfolding tok_in.simps by blast
qed

lemma gettoken_suffix:
  assumes "gettoken s = (k, q, e, t)"
  shows "suffix t s" and "k \<noteq> 0 \<Longrightarrow> length t < length s"
proof -
  have q: "q = skip_space s" and t: "t = skip_space e" using assms by (auto simp: gettoken_def Let_def split: if_splits prod.splits)
  have g: "(if cur_char q = 0 then (0, q) else if cur_char q \<in> set (lit ''|();&<'') then (cur_char q, tl q)
      else if cur_char q = 62 then (if cur_char (tl q) = 62 then (43, tl (tl q)) else (62, tl q))
      else (97, dropWhile word_char q)) = (k, e)"
    using assms unfolding gettoken_def Let_def q [symmetric] by (auto split: prod.splits)
  have sq: "suffix q s" by (simp add: q suffix_dropWhile)
  have e: "suffix e q"
    using g by (auto simp: suffix_dropWhile split: if_splits intro: suffix_tl suffix_order.trans)
  have lt: "length t \<le> length e" by (simp add: t length_dropWhile_le)
  show "suffix t s" unfolding t using suffix_order.trans [OF e sq] by (rule suffix_dropWhile_trans)
  assume k: "k \<noteq> 0"
  have hd: "q \<noteq> [] \<Longrightarrow> \<not> in_chars whitespace (hd q)" using hd_dropWhile [of "in_chars whitespace" s] unfolding q by blast
  have ne: "q \<noteq> []" using g k by (auto simp: cur_char_def split: if_splits)
  have "e = tl q \<or> e = tl (tl q) \<or> e = dropWhile word_char q \<and> word_char (hd q)"
    using g k hd [OF ne] ne by (auto simp: cur_char_def in_chars_sets of_char_def split: if_splits)
  then have "length e < length q" using ne by (cases q) (auto simp: less_Suc_eq_le length_dropWhile_le)
  then show "length t < length s" using lt suffix_length_le [OF sq] by simp
qed

lemma peek_suffix: "peek toks s = (hit, t) \<Longrightarrow> suffix t s"
  by (auto simp: peek_def Let_def suffix_dropWhile)

lemma peek_hit:
  assumes "peek toks s = (True, t)" "gettoken t = (k, q, e, u)"
  shows "suffix u s" "length u < length s"
proof -
  have t: "t = skip_space s" "cur_char t \<noteq> 0" using assms(1) by (auto simp: peek_def Let_def)
  then have "skip_space t = t" by simp
  then have "k \<noteq> 0" using assms(2) t(2) by (auto simp: gettoken_def Let_def of_char_def split: if_splits)
  then show "length u < length s" using gettoken_suffix(2) [OF assms(2)] suffix_length_le [OF peek_suffix [OF assms(1)]] by simp
  show "suffix u s" using gettoken_suffix(1) [OF assms(2)] peek_suffix [OF assms(1)] by (rule suffix_order.trans)
qed

text \<open>
  A result of the parser at \<open>s\<close>: a syntax error, or a value all of whose tokens are words of \<open>s\<close>, with a rest of \<open>s\<close>.
\<close>

definition parses :: "('a \<Rightarrow> token set) \<Rightarrow> ('a, bytes) outcome \<Rightarrow> bytes \<Rightarrow> bool" where
  "parses toks m s = (case m of Ret x t \<Rightarrow> suffix t s \<and> (\<forall>k \<in> toks x. tok_in s k) | Panic _ \<Rightarrow> True | _ \<Rightarrow> False)"

lemma parses_simps [simp]: "parses toks (Ret x t) s \<longleftrightarrow> suffix t s \<and> (\<forall>k \<in> toks x. tok_in s k)" "parses toks (Panic msg) s"
  by (simp_all add: parses_def)

lemma parses_kbind:
  assumes "parses P m r" "suffix r s" "\<And>x t. suffix t r \<Longrightarrow> (\<And>k. k \<in> P x \<Longrightarrow> tok_in s k) \<Longrightarrow> parses Q (f x t) s"
  shows "parses Q (kbind m f) s"
  using assms by (cases m) (auto simp: parses_def intro: tok_in_suffix)

lemma parses_suffix: "parses P m t \<Longrightarrow> suffix t s \<Longrightarrow> parses P m s"
  by (cases m) (auto simp: parses_def intro: tok_in_suffix suffix_order.trans)

abbreviation redir_toks :: "(token \<times> u32 \<times> int) list \<Rightarrow> token set" where
  "redir_toks rs \<equiv> fst ` set rs"

lemma parses_redirs: "5 * length s + 1 \<le> n \<Longrightarrow> 0 \<notin> set s \<Longrightarrow> parses redir_toks (parseredirs n s) s"
proof (induction n arbitrary: s)
  case (Suc n)
  obtain hit s1 where p: "peek (lit ''<>'') s = (hit, s1)" by (cases "peek (lit ''<>'') s")
  note s1 = peek_suffix [OF p]
  show ?case
  proof (cases hit)
    case False
    then show ?thesis using p s1 by (simp del: lit_Cons)
  next
    case True
    obtain k q e s2 where g: "gettoken s1 = (k, q, e, s2)" by (cases "gettoken s1")
    obtain k' q' e' s3 where g': "gettoken s2 = (k', q', e', s3)" by (cases "gettoken s2")
    note s2 = gettoken_suffix(1) [OF g] and s3 = gettoken_suffix [OF g']
    have suf: "suffix s2 s" "suffix s3 s" using s1 s2 s3(1) by (blast intro: suffix_order.trans)+
    have z: "0 \<notin> set s2" "0 \<notin> set s3" using Suc.prems(2) suf by (meson in_mono set_mono_suffix)+
    show ?thesis
    proof (cases "k' = 97")
      case False
      then show ?thesis using p g g' True by simp
    next
      case w: True
      have "length s3 < length s" using s3(2) w suffix_length_le [OF suf(1)] by simp
      then have "parses redir_toks (parseredirs n s3) s3" using Suc.prems(1) z by (intro Suc.IH) auto
      then have "parses redir_toks (kbind (parseredirs n s3) (\<lambda>rs t. Ret (redir_of k (q', e') # rs) t)) s"
        using gettoken_word [OF g' [unfolded w] z(1)] suf
        by (elim parses_kbind) (auto simp: redir_of_def intro: tok_in_suffix suffix_order.trans)
      then show ?thesis using p g g' True w by simp
    qed
  qed
qed simp

lemma parses_args:
  "5 * length s + 2 \<le> n \<Longrightarrow> 0 \<notin> set s \<Longrightarrow> parses (\<lambda>(as, rs). set as \<union> redir_toks rs) (parseargs n argc s) s"
proof (induction n arbitrary: s argc)
  case (Suc n)
  let ?P = "\<lambda>(as, rs). set as \<union> redir_toks rs"
  obtain hit s1 where p: "peek (lit ''|)&;'') s = (hit, s1)" by (cases "peek (lit ''|)&;'') s")
  obtain k q e s2 where g: "gettoken s1 = (k, q, e, s2)" by (cases "gettoken s1")
  note s1 = peek_suffix [OF p] and s2 = gettoken_suffix [OF g]
  have suf: "suffix s2 s" using s1 s2(1) by (blast intro: suffix_order.trans)
  have z: "0 \<notin> set s1" "0 \<notin> set s2" using Suc.prems(2) suf s1 by (meson in_mono set_mono_suffix)+
  show ?case
  proof (cases "\<not> hit \<and> k = 97 \<and> argc + 1 < 10")
    case False
    then show ?thesis using p g s1 suf by (auto simp del: lit_Cons)
  next
    case True
    have len: "length s2 < length s" using s2(2) True suffix_length_le [OF s1] by simp
    have w: "tok_in s (q, e)" using gettoken_word [of s1] g True z(1) s1 by (auto intro: tok_in_suffix)
    have "parses ?P (kbind (parseredirs n s2) (\<lambda>rs t. kbind (parseargs n (argc + 1) t) (\<lambda>(as, rs') t. Ret ((q, e) # as, rs @ rs') t))) s"
    proof (rule parses_kbind [OF parses_redirs suf], goal_cases)
      case (3 rs t)
      have ts: "suffix t s" using 3(1) suf by (rule suffix_order.trans)
      have "parses ?P (parseargs n (argc + 1) t) t"
        using Suc.prems z(2) len suffix_length_le [OF 3(1)] set_mono_suffix [OF 3(1)] by (intro Suc.IH) auto
      then show ?case
      proof (rule parses_kbind [OF _ ts], goal_cases)
        case (1 x u)
        obtain as rs' where x: "x = (as, rs')" by (cases x)
        have "\<forall>k \<in> set ((q, e) # as) \<union> redir_toks (rs @ rs'). tok_in s k"
          using 1(2) 3(2) w unfolding x prod.case list.set set_append image_Un by blast
        then show ?case using suffix_order.trans [OF 1(1) ts] x by simp
      qed
    qed (use Suc.prems len z in auto)
    then show ?thesis using p g True by (simp del: lit_Cons)
  qed
qed simp

lemma parses_back:
  "5 * length s + 1 \<le> n \<Longrightarrow> 0 \<notin> set s \<Longrightarrow> \<forall>k \<in> set_cmd c. tok_in L k \<Longrightarrow> suffix s L \<Longrightarrow> parses set_cmd (parseback n c s) L"
proof (induction n arbitrary: s c)
  case (Suc n)
  obtain hit s1 where p: "peek (lit ''&'') s = (hit, s1)" by (cases "peek (lit ''&'') s")
  obtain k q e s2 where g: "gettoken s1 = (k, q, e, s2)" by (cases "gettoken s1")
  note s1 = peek_suffix [OF p] and s2 = gettoken_suffix [OF g]
  have suf: "suffix s2 L" "suffix s1 L" "suffix s2 s" using s1 s2(1) Suc.prems(4) by (blast intro: suffix_order.trans)+
  show ?case
  proof (cases hit)
    case False
    then show ?thesis using p suf Suc.prems(3) by (simp del: lit_Cons)
  next
    case True
    have "length s2 < length s" using p g True by (intro peek_hit(2) [of "lit ''&''" s s1]) (simp_all del: lit_Cons)
    then have "parses set_cmd (parseback n (BACK c) s2) L"
      using Suc.prems suf set_mono_suffix [OF suf(3)] by (intro Suc.IH) auto
    then show ?thesis using p g True by (simp del: lit_Cons)
  qed
qed simp

lemma set_wrap_redirs: "set_cmd (wrap_redirs c rs) = set_cmd c \<union> redir_toks rs"
  by (induction rs arbitrary: c) (auto simp: wrap_redirs_def)

lemma parses_more:
  assumes "parses set_cmd m r" "suffix r s" "0 \<notin> set s"
    "\<And>c t. suffix t r \<Longrightarrow> 0 \<notin> set t \<Longrightarrow> (\<And>k. k \<in> set_cmd c \<Longrightarrow> tok_in s k) \<Longrightarrow> parses set_cmd (f c t) s"
  shows "parses set_cmd (kbind m f) s"
proof (rule parses_kbind [OF assms(1,2)])
  fix c t assume t: "suffix t r" and c: "\<And>k. k \<in> set_cmd c \<Longrightarrow> tok_in s k"
  have "0 \<notin> set t" using set_mono_suffix [OF suffix_order.trans [OF t assms(2)]] assms(3) by blast
  then show "parses set_cmd (f c t) s" using t c by (intro assms(4))
qed

text \<open>An operator after a command: the rest of the line goes to \<open>sub\<close> when it is there.\<close>

lemma parses_operator:
  assumes "suffix t s" "0 \<notin> set s" "\<And>k. k \<in> set_cmd c \<Longrightarrow> tok_in s k"
    "\<And>u. length u < length t \<Longrightarrow> 0 \<notin> set u \<Longrightarrow> parses set_cmd (sub u) u"
    "\<And>r. set_cmd (node c r) = set_cmd c \<union> set_cmd r"
  shows "parses set_cmd (let (hit, t) = peek toks t in
     if hit then let (_, _, _, t) = gettoken t in kbind (sub t) (\<lambda>r t. Ret (node c r) t) else Ret c t) s"
proof -
  obtain hit t1 where p: "peek toks t = (hit, t1)" by (cases "peek toks t")
  obtain k q e u where g: "gettoken t1 = (k, q, e, u)" by (cases "gettoken t1")
  have t1: "suffix t1 s" using peek_suffix [OF p] assms(1) by (rule suffix_order.trans)
  show ?thesis
  proof (cases hit)
    case False
    then show ?thesis using p t1 assms(3) by simp
  next
    case True
    have u: "suffix u t" "length u < length t" using peek_hit [of toks t t1] p g True by simp_all
    have us: "suffix u s" using u(1) assms(1) by (rule suffix_order.trans)
    then have z: "0 \<notin> set u" using set_mono_suffix assms(2) by blast
    have "parses set_cmd (kbind (sub u) (\<lambda>r t. Ret (node c r) t)) s"
    proof (rule parses_more [OF assms(4) [OF u(2) z] us assms(2)])
      fix r w assume "suffix w u" "\<And>k. k \<in> set_cmd r \<Longrightarrow> tok_in s k"
      then show "parses set_cmd (Ret (node c r) w) s"
        using suffix_order.trans [of w u s] us assms(3,5) by auto
    qed
    then show ?thesis using p g True by simp
  qed
qed

lemma parses_line:
  "5 * length s + 5 \<le> n \<Longrightarrow> 0 \<notin> set s \<Longrightarrow> parses set_cmd (parseline n s) s"
  "5 * length s + 4 \<le> n \<Longrightarrow> 0 \<notin> set s \<Longrightarrow> parses set_cmd (parsepipe n s) s"
  "5 * length s + 2 \<le> n \<Longrightarrow> 0 \<notin> set s \<Longrightarrow> parses set_cmd (parseblock n s) s"
  "5 * length s + 3 \<le> n \<Longrightarrow> 0 \<notin> set s \<Longrightarrow> parses set_cmd (parseexec n s) s"
proof (induction n arbitrary: s)
  case (Suc n)
  {
    case 1
    show ?case unfolding parseline.simps
    proof (rule parses_more [OF Suc.IH(2)], goal_cases)
      case (5 c t)
      have l: "length t \<le> length s" using 5(1) by (rule suffix_length_le)
      show ?case
      proof (rule parses_more [where r = s], rule parses_back, goal_cases)
        case (7 c' t')
        have "length t' \<le> length s" using 7(1) by (rule suffix_length_le)
        then show ?case using 7 1 by (intro parses_operator Suc.IH(1)) auto
      qed (use 5 1 l in auto)
    qed (use 1 in auto)
  next
    case 2
    show ?case unfolding parsepipe.simps
    proof (rule parses_more [OF Suc.IH(4)], goal_cases)
      case (5 c t)
      have "length t \<le> length s" using 5(1) by (rule suffix_length_le)
      then show ?case using 5 2 by (intro parses_operator Suc.IH(2)) auto
    qed (use 2 in auto)
  next
    case 3
    obtain hit s1 where p: "peek (lit ''('') s = (hit, s1)" by (cases "peek (lit ''('') s")
    obtain k q e u where g: "gettoken s1 = (k, q, e, u)" by (cases "gettoken s1")
    show ?case
    proof (cases hit)
      case True
      have u: "suffix u s" "length u < length s" using peek_hit [of "lit ''(''" s s1] p g True by (simp_all del: lit_Cons)
      have z: "0 \<notin> set u" using set_mono_suffix [OF u(1)] 3(2) by blast
      have "parses set_cmd (kbind (parseline n u) (\<lambda>c s. let (hit, s) = peek (lit '')'') s in
          if \<not> hit then Panic ''syntax - missing )''
          else let (_, _, _, s) = gettoken s in kbind (parseredirs n s) (\<lambda>rs s. Ret (wrap_redirs c rs) s))) s"
      proof (rule parses_more [OF Suc.IH(1) u(1)], goal_cases)
        case (4 c t)
        obtain hit' t1 where p': "peek (lit '')'') t = (hit', t1)" by (cases "peek (lit '')'') t")
        obtain k' q' e' v where g': "gettoken t1 = (k', q', e', v)" by (cases "gettoken t1")
        show ?case
        proof (cases hit')
          case True
          have v: "suffix v t" "length v < length t" using peek_hit [of "lit '')''" t t1] p' g' True by (simp_all del: lit_Cons)
          have vs: "suffix v s" using v(1) 4(1) u(1) by (blast intro: suffix_order.trans)
          have zv: "0 \<notin> set v" using set_mono_suffix [OF v(1)] 4(2) by blast
          have len: "5 * length v + 1 \<le> n" using v(2) suffix_length_le [OF 4(1)] u(2) 3(1) by simp
          have "parses set_cmd (kbind (parseredirs n v) (\<lambda>rs s. Ret (wrap_redirs c rs) s)) s"
          proof (rule parses_kbind [OF parses_redirs [OF len zv] vs], goal_cases)
            case (1 rs w)
            have "\<forall>k \<in> set_cmd (wrap_redirs c rs). tok_in s k" using 1(2) 4(3) unfolding set_wrap_redirs by blast
            then show ?case using suffix_order.trans [OF 1(1) vs] by simp
          qed
          then show ?thesis using p' g' True by (simp del: lit_Cons)
        qed (use p' in \<open>simp del: lit_Cons\<close>)
      qed (use u z 3 in auto)
      then show ?thesis using p g True by (simp del: lit_Cons)
    qed (use p in \<open>simp del: lit_Cons\<close>)
  next
    case 4
    obtain hit s1 where p: "peek (lit ''('') s = (hit, s1)" by (cases "peek (lit ''('') s")
    note s1 = peek_suffix [OF p]
    have z1: "0 \<notin> set s1" and l1: "length s1 \<le> length s" using set_mono_suffix [OF s1] suffix_length_le [OF s1] 4(2) by auto
    show ?case
    proof (cases hit)
      case True
      have "parses set_cmd (parseblock n s1) s1" using 4 z1 l1 by (intro Suc.IH(3)) auto
      then show ?thesis using p True s1 by (auto intro: parses_suffix simp del: lit_Cons)
    next
      case False
      have len: "5 * length s1 + 1 \<le> n" using 4(1) l1 by simp
      have "parses set_cmd (kbind (parseredirs n s1) (\<lambda>rs s. kbind (parseargs n 0 s) (\<lambda>(as, rs') s.
          Ret (wrap_redirs (EXEC as) (rs @ rs')) s))) s"
      proof (rule parses_kbind [OF parses_redirs [OF len z1] s1], goal_cases)
        case (1 rs t)
        have ts: "suffix t s" using 1(1) s1 by (rule suffix_order.trans)
        have zt: "0 \<notin> set t" and lt: "5 * length t + 2 \<le> n"
          using set_mono_suffix [OF ts] suffix_length_le [OF ts] 4 by auto
        show ?case
        proof (rule parses_kbind [OF parses_args [OF lt zt] ts], goal_cases)
          case (1 x u)
          obtain as rs' where x: "x = (as, rs')" by (cases x)
          have "\<forall>k \<in> set_cmd (wrap_redirs (EXEC as) (rs @ rs')). tok_in s k"
            using 1(2) \<open>\<And>k. k \<in> redir_toks rs \<Longrightarrow> tok_in s k\<close>
            unfolding x prod.case set_wrap_redirs set_append image_Un cmd.set by blast
          then show ?case using suffix_order.trans [OF 1(1) ts] x by simp
        qed
      qed
      then show ?thesis using p False by (simp del: lit_Cons)
    qed
  }
qed simp_all

section \<open>The strings of a parsed command\<close>

lemma nth_fold_zero:
  "i < length b \<Longrightarrow> fold (\<lambda>(q, e) b. b[f e := 0]) as b ! i = (if i \<in> (\<lambda>k. f (snd k)) ` set as then 0 else b ! i)"
proof (induction as arbitrary: b)
  case (Cons k as)
  then show ?case by (cases k) (auto simp: nth_list_update)
qed simp

lemma length_nulterminate [simp]: "length (nulterminate es c b) = length b"
proof (induction c arbitrary: b)
  case (EXEC as)
  show ?case by (induction as arbitrary: b) auto
qed simp_all

lemma nth_nulterminate:
  "i < length b \<Longrightarrow> nulterminate es c b ! i = (if i \<in> (\<lambda>k. es - length (snd k)) ` set_cmd c then 0 else b ! i)"
proof (induction c arbitrary: b)
  case (REDIR c f m d)
  then show ?case by (cases "i = es - length (snd f)") auto
qed (auto simp: nth_fold_zero)

lemma cstr_prefix:
  assumes "0 \<notin> set w" "length w < length x" "\<And>j. j < length w \<Longrightarrow> x ! j = w ! j" "x ! length w = 0"
  shows "cstr x = w"
proof -
  have "take (length w) x = w" using assms(2,3) by (intro nth_equalityI) auto
  then have "x = w @ 0 # drop (Suc (length w)) x" using id_take_nth_drop [OF assms(2)] assms(4) by simp
  then show ?thesis using assms(1) by (metis cstr_append0)
qed

lemma nulterminate_word:
  assumes es: "strlen b = Some es" and all: "\<forall>k \<in> set_cmd c. tok_in (take es b) k" and k: "(q, e) \<in> set_cmd c"
  shows "cstr (drop (es - length q) (nulterminate es c b)) = take (length q - length e) q"
proof -
  let ?L = "take es b" and ?i = "es - length q" and ?b = "nulterminate es c b"
  have b: "es < length b" "0 \<notin> set ?L"
    using es length_cstr [of b] by (auto simp: strlen_cstr cstr_def takeWhile_eq_take [symmetric] split: if_splits dest: set_takeWhileD)
  then have len: "length ?L = es" by simp
  obtain w where w: "suffix q ?L" "q = w @ e" "w \<noteq> []" "\<forall>c \<in> set w. word_char c"
    using bspec [OF all k] unfolding tok_in.simps by blast
  have suf: "drop (es - length r) ?L = r" "length r \<le> es" if "suffix r ?L" for r
  proof -
    have "drop (length ?L - length r) ?L = r" using that by (auto simp: suffix_def simp del: length_take)
    then show "drop (es - length r) ?L = r" by (simp only: len)
    show "length r \<le> es" using suffix_length_le [OF that] by simp
  qed
  note q = suf [OF w(1)]
  have nth: "b ! (?i + j) = q ! j" if "j < length q" for j
  proof -
    have "q ! j = ?L ! (?i + j)" using that b(1) q(2) by (subst q(1) [symmetric]) (rule nth_drop, simp)
    then show ?thesis using that q(2) by simp
  qed
  have in_z: "?i + j \<notin> (\<lambda>k. es - length (snd k)) ` set_cmd c" if j: "j < length w" for j
  proof
    assume "?i + j \<in> (\<lambda>k. es - length (snd k)) ` set_cmd c"
    then obtain q' e' where k': "(q', e') \<in> set_cmd c" "?i + j = es - length e'" by auto
    have t: "suffix q' ?L" "suffix e' q'" "e' = [] \<or> \<not> word_char (hd e')"
      using bspec [OF all k'(1)] unfolding tok_in.simps by (auto simp: suffix_def)
    have "suffix e' ?L" using t(1,2) by (blast intro: suffix_order.trans)
    then have "e' = drop (es - length e') ?L" by (rule suf(1) [symmetric])
    also have "\<dots> = drop j q" using k'(2) q(1) by (metis drop_drop add.commute)
    finally have "e' = drop j w @ e" using w(2) j by simp
    then have "e' \<noteq> []" "hd e' = w ! j" using j by (auto simp: hd_append hd_drop_conv_nth)
    then show False using t(3) w(4) j by auto
  qed
  have "cstr (drop ?i ?b) = w"
  proof (rule cstr_prefix)
    show "0 \<notin> set w" using b(2) w(1,2) set_mono_suffix [OF w(1)] by auto
    show "length w < length (drop ?i ?b)" using b(1) q(2) w(2) by simp
    fix j assume j: "j < length w"
    then have "?b ! (?i + j) = b ! (?i + j)" using in_z [OF j] b(1) q(2) w(2) by (subst nth_nulterminate) auto
    also have "\<dots> = w ! j" using nth [of j] j w(2) by (simp add: nth_append)
    finally show "drop ?i ?b ! j = w ! j" using b(1) q(2) by simp
  next
    have "?i + length w = es - length e" using q(2) w(2) by simp
    then have "?b ! (?i + length w) = 0" using k b(1) by (subst nth_nulterminate) (auto intro!: image_eqI [of _ _ "(q, e)"])
    then show "drop ?i ?b ! length w = 0" using b(1) q(2) by simp
  qed
  then show ?thesis using w(2) by simp
qed

section \<open>Printing a command and parsing it again\<close>

text \<open>
  A command as text. The level says where it stands: in a line (0), before an ampersand or semicolon (1), in a pipeline (2), on the left
  of one or under a redirection (3); at a higher level than its own it is put in parentheses.
\<close>

definition paren :: "bool \<Rightarrow> bytes \<Rightarrow> bytes" where
  "paren p s = (if p then [40] @ s @ [41] else s)"

fun show_at :: "nat \<Rightarrow> bytes cmd \<Rightarrow> bytes" where
  "show_at k (EXEC ws) = concat (map (\<lambda>w. w @ [32]) ws)"
| "show_at k (REDIR c f m d) = show_at 3 c @ [if d = 0 then 60 else 62] @ f @ [32]"
| "show_at k (PIPE l r) = paren (k > 2) (show_at 3 l @ [124] @ show_at 2 r)"
| "show_at k (BACK c) = paren (k > 1) (show_at 1 c @ [38])"
| "show_at k (LIST l r) = paren (k > 0) (show_at 1 l @ [59] @ show_at 0 r)"

definition good_word :: "bytes \<Rightarrow> bool" where
  "good_word w \<longleftrightarrow> w \<noteq> [] \<and> (\<forall>c \<in> set w. word_char c \<and> c \<noteq> 0)"

fun good_cmd :: "bytes cmd \<Rightarrow> bool" where
  "good_cmd (EXEC ws) \<longleftrightarrow> length ws < MAXARGS \<and> (\<forall>w \<in> set ws. good_word w)"
| "good_cmd (REDIR c f m d) \<longleftrightarrow> good_cmd c \<and> good_word f \<and> (m, d) \<in> {(O_RDONLY, 0), (O_WRONLY OR O_CREATE, 1)}"
| "good_cmd (PIPE l r) \<longleftrightarrow> good_cmd l \<and> good_cmd r"
| "good_cmd (LIST l r) \<longleftrightarrow> good_cmd l \<and> good_cmd r"
| "good_cmd (BACK c) \<longleftrightarrow> good_cmd c"

text \<open>The text between the pointers of a token.\<close>

definition word_of :: "token \<Rightarrow> bytes" where
  "word_of k = take (length (fst k) - length (snd k)) (fst k)"

lemma word_of_append [simp]: "word_of (w @ e, e) = w"
  by (simp add: word_of_def)

text \<open>A text that goes on with a character outside words and white space, or ends.\<close>

definition stops :: "u8 set \<Rightarrow> bytes \<Rightarrow> bool" where
  "stops A r \<longleftrightarrow> r = [] \<or> hd r \<in> A"

abbreviation delims :: "u8 set" where "delims \<equiv> {124, 41, 38, 59}"

lemma good_word_hd: "good_word w \<Longrightarrow> \<exists>c v. w = c # v \<and> word_char c \<and> c \<noteq> 0"
  by (cases w) (auto simp: good_word_def)

lemma skip_stops [simp]: "stops A r \<Longrightarrow> A \<inter> {32, 9, 13, 10, 11} = {} \<Longrightarrow> skip_space r = r"
  by (cases r) (auto simp: stops_def in_chars_sets)

lemma skip_word [simp]: "good_word w \<Longrightarrow> skip_space (w @ r) = w @ r"
  by (auto dest: good_word_hd)

lemma gettoken_good:
  assumes "good_word w" "r = [] \<or> \<not> word_char (hd r)"
  shows "gettoken (w @ r) = (97, w @ r, r, skip_space r)"
proof -
  obtain c v where w: "w = c # v" "word_char c" "c \<noteq> 0" using good_word_hd [OF assms(1)] by auto
  have "dropWhile word_char (w @ r) = r"
    using assms by (cases r) (auto simp: good_word_def dropWhile_append)
  then show ?thesis using w skip_word [OF assms(1), of r]
    by (auto simp: gettoken_def Let_def cur_char_def in_chars_sets of_char_def)
qed

lemma peek_stop: "0 \<notin> set toks \<Longrightarrow> skip_space r = r \<Longrightarrow> peek toks r = (r \<noteq> [] \<and> hd r \<noteq> 0 \<and> hd r \<in> set toks, r)"
  by (cases r) (auto simp: peek_def cur_char_def in_chars_set)

definition show_redir :: "bytes \<times> u32 \<times> int \<Rightarrow> bytes" where
  "show_redir = (\<lambda>(f, m, d). [if d = 0 then 60 else 62] @ f @ [32])"

definition good_redir :: "bytes \<times> u32 \<times> int \<Rightarrow> bool" where
  "good_redir = (\<lambda>(f, md). good_word f \<and> md \<in> {(O_RDONLY, 0), (O_WRONLY OR O_CREATE, 1)})"

abbreviation redir_words :: "(token \<times> u32 \<times> int) list \<Rightarrow> (bytes \<times> u32 \<times> int) list" where
  "redir_words rs \<equiv> map (apfst word_of) rs"

text \<open>What may follow the redirections: a word or a delimiter.\<close>

definition after_redirs :: "bytes \<Rightarrow> bool" where
  "after_redirs r \<longleftrightarrow> r = [] \<or> hd r \<notin> {32, 9, 13, 10, 11, 60, 62}"

lemma skip_after [simp]: "after_redirs r \<Longrightarrow> skip_space r = r"
  by (cases r) (auto simp: after_redirs_def in_chars_sets)

lemma redirs_start: "after_redirs r \<Longrightarrow> skip_space (concat (map show_redir rs) @ r) = concat (map show_redir rs) @ r"
  by (cases rs) (auto simp: show_redir_def in_chars_sets split: prod.splits)

lemma parse_redirs:
  assumes "\<forall>x \<in> set rs. good_redir x" "after_redirs r" "length rs < n"
  shows "\<exists>ks. parseredirs n (concat (map show_redir rs) @ r) = Ret ks r \<and> redir_words ks = rs"
  using assms
proof (induction rs arbitrary: n)
  case Nil
  then obtain m where n: "n = Suc m" by (cases n) auto
  have "peek (lit ''<>'') r = (False, r)"
    using Nil(2) peek_stop [of "lit ''<>''" r] by (auto simp: of_char_def after_redirs_def)
  then show ?case by (simp add: n del: lit_Cons)
next
  case (Cons x rs)
  obtain f m d where x: "x = (f, m, d)" by (cases x)
  have f: "good_word f" "(m, d) \<in> {(O_RDONLY, 0), (O_WRONLY OR O_CREATE, 1)}" using Cons.prems(1) x by (auto simp: good_redir_def)
  obtain k where n: "n = Suc k" using Cons.prems(3) by (cases n) auto
  let ?R = "concat (map show_redir rs) @ r" and ?c = "if d = 0 then 60 else 62 :: u8"
  obtain ks where ks: "parseredirs k ?R = Ret ks r" "redir_words ks = rs" using Cons n by auto
  obtain c v where cv: "f = c # v" "word_char c" "c \<noteq> 0" using good_word_hd [OF f(1)] by auto
  have skip: "skip_space (f @ 32 # ?R) = f @ 32 # ?R" by (rule skip_word [OF f(1)])
  have p: "peek (lit ''<>'') (?c # f @ 32 # ?R) = (True, ?c # f @ 32 # ?R)"
    by (auto simp: peek_def cur_char_def in_chars_sets in_chars_set of_char_def)
  have g: "gettoken (?c # f @ 32 # ?R) = (?c, ?c # f @ 32 # ?R, f @ 32 # ?R, f @ 32 # ?R)"
    using cv skip by (auto simp: gettoken_def Let_def cur_char_def in_chars_sets of_char_def)
  have g': "gettoken (f @ 32 # ?R) = (97, f @ 32 # ?R, 32 # ?R, ?R)"
    using gettoken_good [OF f(1), of "32 # ?R"] redirs_start [OF Cons.prems(2), of rs] by (simp add: in_chars_sets)
  have "concat (map show_redir (x # rs)) @ r = ?c # f @ 32 # ?R" by (simp add: x show_redir_def)
  moreover have "parseredirs n (?c # f @ 32 # ?R) = Ret (redir_of ?c (f @ 32 # ?R, 32 # ?R) # ks) r"
    using p g g' ks(1) by (simp add: n del: lit_Cons)
  moreover have "redir_words (redir_of ?c (f @ 32 # ?R, 32 # ?R) # ks) = x # rs"
    using f(2) ks(2) x by (auto simp: redir_of_def)
  ultimately show ?case by auto
qed

lemma delims_after: "stops delims r \<Longrightarrow> after_redirs r"
  by (auto simp: stops_def after_redirs_def)

abbreviation show_words :: "bytes list \<Rightarrow> bytes" where "show_words ws \<equiv> concat (map (\<lambda>w. w @ [32]) ws)"

lemma words_after:
  assumes "\<forall>w \<in> set ws. good_word w" "ws \<noteq> []"
  shows "after_redirs (show_words ws @ r)"
proof -
  obtain w vs where ws: "ws = w # vs" using assms(2) by (cases ws) auto
  then obtain c v where "w = c # v" "word_char c" using good_word_hd assms(1) by (metis list.set_intros(1))
  then show ?thesis using ws by (auto simp: after_redirs_def in_chars_sets)
qed

lemma parse_no_redirs: "after_redirs r \<Longrightarrow> 0 < n \<Longrightarrow> parseredirs n r = Ret [] r"
  using parse_redirs [of "[]" r n] by auto

lemma parse_no_args: "stops delims r \<Longrightarrow> 0 < n \<Longrightarrow> parseargs n argc r = Ret ([], []) r"
proof -
  assume r: "stops delims r" "0 < n"
  then obtain m where n: "n = Suc m" by (cases n) auto
  have p: "peek (lit ''|)&;'') r = (r \<noteq> [], r)"
    using r(1) delims_after [OF r(1)] peek_stop [of "lit ''|)&;''" r] by (auto simp: of_char_def stops_def)
  show ?thesis
  proof (cases "r = []")
    case True
    have "gettoken [] = (0, [], [], [])" by (simp add: gettoken_def cur_char_def)
    then show ?thesis using p True by (simp add: n del: lit_Cons)
  qed (use p in \<open>simp add: n del: lit_Cons\<close>)
qed

lemma parse_args:
  assumes "\<forall>w \<in> set ws. good_word w" "\<forall>x \<in> set rs. good_redir x" "stops delims r" "argc + length ws < 10"
    "length ws + length rs + 1 < n" "ws = [] \<Longrightarrow> rs = []"
  shows "\<exists>as ks. parseargs n argc (show_words ws @ concat (map show_redir rs) @ r) = Ret (as, ks) r \<and>
    map word_of as = ws \<and> redir_words ks = rs"
  using assms
proof (induction ws arbitrary: n argc)
  case Nil
  then show ?case using parse_no_args [of r n argc] by auto
next
  case (Cons w ws)
  obtain m where n: "n = Suc m" using Cons.prems(5) by (cases n) auto
  let ?X = "show_words ws @ concat (map show_redir rs) @ r"
  have w: "good_word w" using Cons.prems(1) by simp
  obtain c v where cv: "w = c # v" "word_char c" "c \<noteq> 0" using good_word_hd [OF w] by auto
  have X: "skip_space ?X = ?X"
  proof (cases ws)
    case Nil
    then show ?thesis using redirs_start [OF delims_after [OF Cons.prems(3)], of rs] by simp
  next
    case (Cons a list)
    then show ?thesis using skip_word [of a] Cons.prems(1) by simp
  qed
  have p: "peek (lit ''|)&;'') (w @ 32 # ?X) = (False, w @ 32 # ?X)"
    using peek_stop [of "lit ''|)&;''" "w @ 32 # ?X"] skip_word [OF w] cv by (auto simp: of_char_def in_chars_sets)
  have g: "gettoken (w @ 32 # ?X) = (97, w @ 32 # ?X, 32 # ?X, ?X)"
    using gettoken_good [OF w, of "32 # ?X"] X by (simp add: in_chars_sets)
  have "\<exists>as ks ks'. parseredirs m ?X = Ret ks (if ws = [] then r else ?X) \<and>
      parseargs m (argc + 1) (if ws = [] then r else ?X) = Ret (as, ks') r \<and> map word_of as = ws \<and> redir_words (ks @ ks') = rs"
  proof (cases "ws = []")
    case True
    then obtain ks where "parseredirs m ?X = Ret ks r" "redir_words ks = rs"
      using parse_redirs [OF Cons.prems(2) delims_after [OF Cons.prems(3)], of m] Cons.prems(5) n by auto
    then show ?thesis using True parse_no_args [OF Cons.prems(3), of m "argc + 1"] Cons.prems(5) n by auto
  next
    case False
    have "parseredirs m ?X = Ret [] ?X"
      using parse_no_redirs [OF words_after [OF _ False]] Cons.prems(1,5) n by simp
    moreover obtain as ks' where "parseargs m (argc + 1) ?X = Ret (as, ks') r" "map word_of as = ws" "redir_words ks' = rs"
      using Cons.IH [of "argc + 1" m] Cons.prems False n by auto
    ultimately show ?thesis using False by auto
  qed
  then obtain as ks ks' where k: "parseredirs m ?X = Ret ks (if ws = [] then r else ?X)"
      "parseargs m (argc + 1) (if ws = [] then r else ?X) = Ret (as, ks') r" "map word_of as = ws" "redir_words (ks @ ks') = rs" by blast
  have "parseargs n argc (w @ 32 # ?X) = Ret ((w @ 32 # ?X, 32 # ?X) # as, ks @ ks') r"
    using p g k(1,2) Cons.prems(4) by (simp add: n del: lit_Cons)
  then show ?case using k(3,4) by auto
qed

lemma map_wrap_redirs: "map_cmd f (wrap_redirs c ks) = wrap_redirs (map_cmd f c) (map (apfst f) ks)"
  by (induction ks arbitrary: c) (auto simp: wrap_redirs_def)

lemma show_wrap_redirs: "show_at 3 (wrap_redirs c rs) = show_at 3 c @ concat (map show_redir rs)"
  by (induction rs arbitrary: c) (auto simp: wrap_redirs_def show_redir_def)

lemma good_wrap_redirs: "good_cmd (wrap_redirs c rs) \<longleftrightarrow> good_cmd c \<and> (\<forall>x \<in> set rs. good_redir x)"
  by (induction rs arbitrary: c) (auto simp: wrap_redirs_def good_redir_def)

lemma skip_show: "good_cmd t \<Longrightarrow> skip_space r = r \<Longrightarrow> skip_space (show_at k t @ r) = show_at k t @ r"
proof (induction t arbitrary: k r)
  case (EXEC ws)
  then show ?case by (cases ws) (auto dest: good_word_hd)
next
  case (REDIR t f m d)
  have "skip_space ((if d = 0 then 60 else 62 :: u8) # f @ 32 # r) = (if d = 0 then 60 else 62) # f @ 32 # r" by (simp add: in_chars_sets)
  then show ?case using REDIR by simp
qed (auto simp: paren_def in_chars_sets)

text \<open>The three levels of the parser read back what is printed at them.\<close>

definition back_line :: "bytes cmd \<Rightarrow> bool" where
  "back_line t \<longleftrightarrow> (\<forall>n r. 5 * length (show_at 0 t @ r) + 5 \<le> n \<and> stops {41} r \<longrightarrow>
     (\<exists>c. parseline n (show_at 0 t @ r) = Ret c r \<and> map_cmd word_of c = t))"

definition back_pipe :: "bytes cmd \<Rightarrow> bool" where
  "back_pipe t \<longleftrightarrow> (\<forall>n r. 5 * length (show_at 2 t @ r) + 4 \<le> n \<and> stops {41, 38, 59} r \<longrightarrow>
     (\<exists>c. parsepipe n (show_at 2 t @ r) = Ret c r \<and> map_cmd word_of c = t))"

definition back_exec :: "bytes cmd \<Rightarrow> bool" where
  "back_exec t \<longleftrightarrow> (\<forall>n r. 5 * length (show_at 3 t @ r) + 3 \<le> n \<and> stops delims r \<longrightarrow>
     (\<exists>c. parseexec n (show_at 3 t @ r) = Ret c r \<and> map_cmd word_of c = t))"

lemma back_lineD: "back_line t \<Longrightarrow> 5 * length (show_at 0 t @ r) + 5 \<le> n \<Longrightarrow> stops {41} r \<Longrightarrow>
    \<exists>c. parseline n (show_at 0 t @ r) = Ret c r \<and> map_cmd word_of c = t"
  and back_pipeD: "back_pipe t \<Longrightarrow> 5 * length (show_at 2 t @ r) + 4 \<le> n \<Longrightarrow> stops {41, 38, 59} r \<Longrightarrow>
    \<exists>c. parsepipe n (show_at 2 t @ r) = Ret c r \<and> map_cmd word_of c = t"
  and back_execD: "back_exec t \<Longrightarrow> 5 * length (show_at 3 t @ r) + 3 \<le> n \<Longrightarrow> stops delims r \<Longrightarrow>
    \<exists>c. parseexec n (show_at 3 t @ r) = Ret c r \<and> map_cmd word_of c = t"
  unfolding back_line_def back_pipe_def back_exec_def by blast+

lemma peek_miss: "0 \<notin> set toks \<Longrightarrow> stops A r \<Longrightarrow> A \<inter> set toks = {} \<Longrightarrow> A \<inter> {32, 9, 13, 10, 11} = {} \<Longrightarrow> peek toks r = (False, r)"
  using peek_stop [of toks r] skip_stops [of A r] by (auto simp: stops_def)

lemma peek_op: "a \<in> set toks \<Longrightarrow> 0 \<notin> set toks \<Longrightarrow> a \<notin> {0, 32, 9, 13, 10, 11} \<Longrightarrow> peek toks (a # r) = (True, a # r)"
  using peek_stop [of toks "a # r"] by (auto simp: in_chars_sets)

lemma gettoken_op:
  assumes "a \<in> {124, 40, 41, 59, 38}" "skip_space r = r"
  shows "gettoken (a # r) = (a, a # r, r, r)"
  using assms by (auto simp: gettoken_def Let_def cur_char_def in_chars_sets of_char_def)

lemma exec_args:
  assumes "good_cmd (wrap_redirs (EXEC ws) rs)"
  shows "back_exec (wrap_redirs (EXEC ws) rs)"
  unfolding back_exec_def
proof (intro allI impI)
  fix n r
  let ?s = "show_at 3 (wrap_redirs (EXEC ws) rs) @ r"
  assume n: "5 * length ?s + 3 \<le> n \<and> stops delims r"
  then obtain m where m: "n = Suc m" by (cases n) auto
  have g: "length ws < 10" "\<forall>w \<in> set ws. good_word w" "\<forall>x \<in> set rs. good_redir x"
    using assms by (auto simp: good_wrap_redirs)
  have s: "?s = show_words ws @ concat (map show_redir rs) @ r" by (simp add: show_wrap_redirs)
  have "length ws \<le> length (show_words ws)" by (induction ws) auto
  moreover have "length rs \<le> length (concat (map show_redir rs))" by (induction rs) (auto simp: show_redir_def split: prod.splits)
  ultimately have len: "length ws + length rs + 1 < m" using n m s by simp
  have ar: "after_redirs r" using n delims_after by blast
  have sk: "skip_space ?s = ?s"
    using skip_show [OF assms, of r 3] ar by simp
  have "?s = [] \<or> hd ?s \<noteq> 40"
  proof (cases "ws = []")
    case True
    then show ?thesis using n s by (cases rs) (auto simp: show_redir_def stops_def split: prod.splits)
  next
    case False
    then obtain w vs where ws: "ws = w # vs" by (cases ws) auto
    then obtain c v where "w = c # v" "word_char c" using g(2) good_word_hd by (metis list.set_intros(1))
    then show ?thesis using s ws by (auto simp: in_chars_sets)
  qed
  then have p: "peek (lit ''('') ?s = (False, ?s)"
    using peek_stop [of "lit ''(''" ?s] sk by (auto simp: of_char_def)
  have "\<exists>ks as ks'. parseredirs m ?s = Ret ks (if ws = [] then r else ?s) \<and>
      parseargs m 0 (if ws = [] then r else ?s) = Ret (as, ks') r \<and> map word_of as = ws \<and> redir_words (ks @ ks') = rs"
  proof (cases "ws = []")
    case True
    then obtain ks where "parseredirs m ?s = Ret ks r" "redir_words ks = rs" using parse_redirs [OF g(3) ar, of m] len s by auto
    then show ?thesis using True parse_no_args [of r m 0] n len by auto
  next
    case False
    have "parseredirs m ?s = Ret [] ?s" unfolding s using parse_no_redirs [OF words_after [OF g(2) False]] len by simp
    moreover obtain as ks' where "parseargs m 0 ?s = Ret (as, ks') r" "map word_of as = ws" "redir_words ks' = rs"
      using parse_args [OF g(2,3), of r 0 m] g(1) n len False s by auto
    ultimately show ?thesis using False by auto
  qed
  then obtain ks as ks' where k: "parseredirs m ?s = Ret ks (if ws = [] then r else ?s)"
      "parseargs m 0 (if ws = [] then r else ?s) = Ret (as, ks') r" "map word_of as = ws" "redir_words (ks @ ks') = rs" by blast
  have "parseexec n ?s = Ret (wrap_redirs (EXEC as) (ks @ ks')) r"
    using p k(1,2) by (simp add: m del: lit_Cons)
  then show "\<exists>c. parseexec n ?s = Ret c r \<and> map_cmd word_of c = wrap_redirs (EXEC ws) rs"
    using k(3,4) by (auto simp: map_wrap_redirs)
qed

lemma exec_block:
  assumes u: "back_line u" "good_cmd (wrap_redirs u rs)" and p: "show_at 3 u = paren True (show_at 0 u)"
  shows "back_exec (wrap_redirs u rs)"
  unfolding back_exec_def
proof (intro allI impI)
  fix n r
  let ?R = "concat (map show_redir rs) @ r"
  assume "5 * length (show_at 3 (wrap_redirs u rs) @ r) + 3 \<le> n \<and> stops delims r"
  then have s: "show_at 3 (wrap_redirs u rs) @ r = 40 # show_at 0 u @ 41 # ?R" and n: "5 * length (40 # show_at 0 u @ 41 # ?R) + 3 \<le> n"
    and r: "stops delims r" by (simp_all add: show_wrap_redirs p paren_def)
  obtain m where m: "n = Suc (Suc m)" using n by (cases n; cases "n - 1") auto
  have g: "good_cmd u" "\<forall>x \<in> set rs. good_redir x" using u(2) by (simp_all add: good_wrap_redirs)
  note ar = delims_after [OF r]
  have s1: "skip_space (show_at 0 u @ 41 # ?R) = show_at 0 u @ 41 # ?R"
    by (rule skip_show [OF g(1)]) (simp add: in_chars_sets)
  obtain c where c: "parseline m (show_at 0 u @ 41 # ?R) = Ret c (41 # ?R)" "map_cmd word_of c = u"
    using back_lineD [OF u(1), of "41 # ?R" m] n m by (auto simp: stops_def)
  have "length rs \<le> length (concat (map show_redir rs))" by (induction rs) (auto simp: show_redir_def split: prod.splits)
  then obtain ks where ks: "parseredirs m ?R = Ret ks r" "redir_words ks = rs"
    using parse_redirs [OF g(2) ar, of m] n m by auto
  have "parseexec n (40 # show_at 0 u @ 41 # ?R) = Ret (wrap_redirs c ks) r"
    using peek_op [of 40 "lit ''(''"] gettoken_op [OF _ s1, of 40] peek_op [of 41 "lit '')''"]
      gettoken_op [OF _ redirs_start [OF ar, of rs], of 41] c(1) ks(1)
    by (simp add: m of_char_def)
  then show "\<exists>c. parseexec n (show_at 3 (wrap_redirs u rs) @ r) = Ret c r \<and> map_cmd word_of c = wrap_redirs u rs"
    unfolding s using c(2) ks(2) by (auto simp: map_wrap_redirs)
qed

lemma pipe_exec:
  assumes "back_exec t" "show_at 2 t = show_at 3 t"
  shows "back_pipe t"
  unfolding back_pipe_def assms(2)
proof (intro allI impI)
  fix n r assume n: "5 * length (show_at 3 t @ r) + 4 \<le> n \<and> stops {41, 38, 59} r"
  then obtain m where m: "n = Suc m" by (cases n) auto
  have "stops delims r" using n by (auto simp: stops_def)
  then obtain c where c: "parseexec m (show_at 3 t @ r) = Ret c r" "map_cmd word_of c = t"
    using back_execD [OF assms(1), of r m] n m by auto
  have "peek (lit ''|'') r = (False, r)" using n by (intro peek_miss [of _ "{41, 38, 59}"]) (auto simp: of_char_def)
  then show "\<exists>c. parsepipe n (show_at 3 t @ r) = Ret c r \<and> map_cmd word_of c = t"
    using c by (simp add: m del: lit_Cons)
qed

lemma pipe_pipe:
  assumes "back_exec l" "back_pipe t" "good_cmd t"
  shows "back_pipe (PIPE l t)"
  unfolding back_pipe_def
proof (intro allI impI)
  fix n r
  let ?s = "show_at 3 l @ 124 # show_at 2 t @ r"
  assume "5 * length (show_at 2 (PIPE l t) @ r) + 4 \<le> n \<and> stops {41, 38, 59} r"
  then have n: "5 * length ?s + 4 \<le> n" and r: "stops {41, 38, 59} r" by (simp_all add: paren_def)
  then obtain m where m: "n = Suc m" by (cases n) auto
  obtain c where c: "parseexec m ?s = Ret c (124 # show_at 2 t @ r)" "map_cmd word_of c = l"
    using back_execD [OF assms(1), of "124 # show_at 2 t @ r" m] n m by (auto simp: stops_def)
  obtain d where d: "parsepipe m (show_at 2 t @ r) = Ret d r" "map_cmd word_of d = t"
    using back_pipeD [OF assms(2), of r m] n m r by auto
  have "skip_space r = r" using r by (rule skip_stops) simp
  then have g: "gettoken (124 # show_at 2 t @ r) = (124, 124 # show_at 2 t @ r, show_at 2 t @ r, show_at 2 t @ r)"
    using skip_show [OF assms(3)] by (intro gettoken_op) auto
  have "parsepipe n ?s = Ret (PIPE c d) r"
    using c(1) d(1) g peek_op [of 124 "lit ''|''"] by (simp add: m of_char_def)
  then show "\<exists>c. parsepipe n (show_at 2 (PIPE l t) @ r) = Ret c r \<and> map_cmd word_of c = PIPE l t"
    using c(2) d(2) by (auto simp: paren_def)
qed

lemma parse_amps:
  "stops {41, 59} r \<Longrightarrow> k < n \<Longrightarrow> parseback n c (replicate k 38 @ r) = Ret ((BACK ^^ k) c) r"
proof (induction k arbitrary: n c)
  case 0
  then obtain m where m: "n = Suc m" by (cases n) auto
  have "peek (lit ''&'') r = (False, r)" using 0 by (intro peek_miss [of _ "{41, 59}"]) (auto simp: of_char_def)
  then show ?case by (simp add: m del: lit_Cons)
next
  case (Suc k)
  then obtain m where m: "n = Suc m" by (cases n) auto
  have "skip_space (replicate k 38 @ r) = replicate k 38 @ r"
    using skip_stops [OF Suc.prems(1)] by (cases k) (auto simp: in_chars_sets)
  then have "gettoken (38 # replicate k 38 @ r) = (38, 38 # replicate k 38 @ r, replicate k 38 @ r, replicate k 38 @ r)"
    by (intro gettoken_op) auto
  then show ?case using Suc.IH [OF Suc.prems(1), of m "BACK c"] Suc.prems(2) peek_op [of 38 "lit ''&''"]
    by (simp add: m of_char_def funpow_swap1)
qed

lemma show_amps: "show_at 1 ((BACK ^^ k) t) = show_at 1 t @ replicate k 38"
  by (induction k) (auto simp: paren_def replicate_append_same)

lemma map_amps: "map_cmd f ((BACK ^^ k) c) = (BACK ^^ k) (map_cmd f c)"
  by (induction k) auto

lemma line_front:
  assumes "back_pipe u" "show_at 1 u = show_at 2 u" "l = (BACK ^^ k) u" "5 * length (show_at 1 l @ r) + 4 \<le> n" "stops {41, 59} r"
  shows "\<exists>c. kbind (parsepipe n (show_at 1 l @ r)) (parseback n) = Ret c r \<and> map_cmd word_of c = l"
proof -
  have s: "show_at 1 l @ r = show_at 2 u @ replicate k 38 @ r" unfolding assms(3) show_amps assms(2) by simp
  have "stops {41, 38, 59} (replicate k 38 @ r)" using assms(5) by (cases k) (auto simp: stops_def)
  then obtain c where "parsepipe n (show_at 1 l @ r) = Ret c (replicate k 38 @ r)" "map_cmd word_of c = u"
    using back_pipeD [OF assms(1), of "replicate k 38 @ r" n] assms(4) s by auto
  then show ?thesis using parse_amps [OF assms(5), of k n c] assms(3,4) s by (auto simp: map_amps)
qed

lemma line_back:
  assumes "back_pipe u" "show_at 1 u = show_at 2 u" "t = (BACK ^^ k) u" "show_at 0 t = show_at 1 t"
  shows "back_line t"
  unfolding back_line_def assms(4)
proof (intro allI impI)
  fix n r assume n: "5 * length (show_at 1 t @ r) + 5 \<le> n \<and> stops {41} r"
  then obtain m where m: "n = Suc m" by (cases n) auto
  have "stops {41, 59} r" using n by (auto simp: stops_def)
  then obtain c where c: "kbind (parsepipe m (show_at 1 t @ r)) (parseback m) = Ret c r" "map_cmd word_of c = t"
    using line_front [OF assms(1-3), of r m] n m by auto
  have p: "peek (lit '';'') r = (False, r)" using n by (intro peek_miss [of _ "{41}"]) (auto simp: of_char_def)
  have "parseline n (show_at 1 t @ r) = kbind (kbind (parsepipe m (show_at 1 t @ r)) (parseback m)) (\<lambda>c s.
     let (hit, s) = peek (lit '';'') s in
     if hit then let (_, _, _, s) = gettoken s in kbind (parseline m s) (\<lambda>r s. Ret (LIST c r) s) else Ret c s)"
    by (simp add: m kbind_assoc del: lit_Cons)
  then show "\<exists>c. parseline n (show_at 1 t @ r) = Ret c r \<and> map_cmd word_of c = t"
    using c p by (simp del: lit_Cons)
qed

lemma line_list:
  assumes "back_pipe u" "show_at 1 u = show_at 2 u" "l = (BACK ^^ k) u" "back_line t" "good_cmd t"
  shows "back_line (LIST l t)"
  unfolding back_line_def
proof (intro allI impI)
  fix n r
  let ?s = "show_at 1 l @ 59 # show_at 0 t @ r"
  assume "5 * length (show_at 0 (LIST l t) @ r) + 5 \<le> n \<and> stops {41} r"
  then have n: "5 * length ?s + 5 \<le> n" and r: "stops {41} r" by (simp_all add: paren_def)
  then obtain m where m: "n = Suc m" by (cases n) auto
  obtain c where c: "kbind (parsepipe m ?s) (parseback m) = Ret c (59 # show_at 0 t @ r)" "map_cmd word_of c = l"
    using line_front [OF assms(1-3), of "59 # show_at 0 t @ r" m] n m by (auto simp: stops_def)
  obtain d where d: "parseline m (show_at 0 t @ r) = Ret d r" "map_cmd word_of d = t"
    using back_lineD [OF assms(4), of r m] n m r by auto
  have "skip_space r = r" using r by (rule skip_stops) simp
  then have g: "gettoken (59 # show_at 0 t @ r) = (59, 59 # show_at 0 t @ r, show_at 0 t @ r, show_at 0 t @ r)"
    using skip_show [OF assms(5)] by (intro gettoken_op) auto
  have "parseline n ?s = kbind (kbind (parsepipe m ?s) (parseback m)) (\<lambda>c s.
     let (hit, s) = peek (lit '';'') s in
     if hit then let (_, _, _, s) = gettoken s in kbind (parseline m s) (\<lambda>r s. Ret (LIST c r) s) else Ret c s)"
    by (simp add: m kbind_assoc del: lit_Cons)
  then have "parseline n ?s = Ret (LIST c d) r"
    using c(1) d(1) g peek_op [of 59 "lit '';''"] by (simp add: of_char_def)
  then show "\<exists>c. parseline n (show_at 0 (LIST l t) @ r) = Ret c r \<and> map_cmd word_of c = LIST l t"
    using c(2) d(2) by (auto simp: paren_def)
qed

lemma amps_of: "\<exists>k u. t = (BACK ^^ k) u \<and> \<not> is_BACK u \<and> size u \<le> size t \<and> (is_BACK t \<longrightarrow> size u < size t) \<and> (good_cmd t \<longrightarrow> good_cmd u)"
proof (induction t)
  case (BACK t)
  then obtain k u where "t = (BACK ^^ k) u" "\<not> is_BACK u" "size u \<le> size t" "good_cmd t \<longrightarrow> good_cmd u" by blast
  then show ?case by (intro exI [of _ "Suc k"] exI [of _ u]) auto
qed (rule exI [of _ 0], auto)+

lemma wrap_Nil: "wrap_redirs t [] = t"
  by (simp add: wrap_redirs_def)

lemma redirs_of: "\<exists>u rs. t = wrap_redirs u rs \<and> \<not> is_REDIR u \<and> (is_REDIR t \<longrightarrow> size u < size t) \<and> size u \<le> size t"
proof (induction t)
  case (REDIR t f m d)
  then obtain u rs where "t = wrap_redirs u rs" "\<not> is_REDIR u" "size u \<le> size t" by blast
  then show ?case by (intro exI [of _ u] exI [of _ "rs @ [(f, m, d)]"]) (auto simp: wrap_redirs_def)
next
  case (EXEC ws)
  show ?case by (rule exI [of _ "EXEC ws"], rule exI [of _ "[]"]) (simp add: wrap_Nil)
next
  case (PIPE l r)
  show ?case by (rule exI [of _ "PIPE l r"], rule exI [of _ "[]"]) (simp add: wrap_Nil)
next
  case (LIST l r)
  show ?case by (rule exI [of _ "LIST l r"], rule exI [of _ "[]"]) (simp add: wrap_Nil)
next
  case (BACK c)
  show ?case by (rule exI [of _ "BACK c"], rule exI [of _ "[]"]) (simp add: wrap_Nil)
qed

lemma show_level:
  "\<not> is_BACK u \<Longrightarrow> show_at 1 u = show_at 2 u" "\<not> is_PIPE u \<Longrightarrow> show_at 2 u = show_at 3 u" "\<not> is_LIST u \<Longrightarrow> show_at 0 u = show_at 1 u"
  "\<not> is_EXEC u \<Longrightarrow> \<not> is_REDIR u \<Longrightarrow> show_at 3 u = paren True (show_at 0 u)"
  by (cases u; simp add: paren_def)+

lemma parse_back: "good_cmd t \<Longrightarrow> back_line t \<and> back_pipe t \<and> back_exec t"
proof (induction "size t" arbitrary: t rule: less_induct)
  case less
  note good = less.prems
  have lineI: "back_pipe t \<Longrightarrow> \<not> is_BACK t \<Longrightarrow> \<not> is_LIST t \<Longrightarrow> back_line t"
    by (rule line_back [where k = 0 and u = t]) (simp_all add: show_level del: One_nat_def)
  have pipeI: "back_exec t \<Longrightarrow> \<not> is_PIPE t \<Longrightarrow> back_pipe t" by (rule pipe_exec) (simp_all add: show_level)
  have execI: "back_line t \<Longrightarrow> \<not> is_EXEC t \<Longrightarrow> \<not> is_REDIR t \<Longrightarrow> back_exec t"
    using exec_block [of t "[]"] good show_level(4) [of t] by (simp add: wrap_Nil)
  show ?case
  proof (cases t)
    case (EXEC ws)
    then have "back_exec t" using exec_args [of ws "[]"] good by (simp add: wrap_Nil)
    then show ?thesis using pipeI lineI EXEC by simp
  next
    case (REDIR c f m d)
    have "is_REDIR t" using REDIR by simp
    then obtain u rs where u: "t = wrap_redirs u rs" "\<not> is_REDIR u" "size u < size t" using redirs_of [of t] by blast
    have "back_exec t"
    proof (cases "is_EXEC u")
      case True
      then show ?thesis using exec_args u(1) good by (cases u) auto
    next
      case False
      have "good_cmd u" using good u(1) by (simp add: good_wrap_redirs)
      then show ?thesis using exec_block [of u rs] less.hyps [OF u(3)] good u(1,2) False show_level(4) [of u] by simp
    qed
    then show ?thesis using pipeI lineI REDIR by simp
  next
    case (PIPE l r)
    then have "back_pipe t" using less.hyps [of l] less.hyps [of r] good by (simp add: pipe_pipe)
    then show ?thesis using lineI execI PIPE by simp
  next
    case (LIST l r)
    obtain k u where u: "l = (BACK ^^ k) u" "\<not> is_BACK u" "size u \<le> size l" "good_cmd u"
      using amps_of [of l] good LIST good_cmd.simps(4) by blast
    have "back_pipe u" using less.hyps [of u] u LIST by simp
    moreover have "back_line r" "good_cmd r" using less.hyps [of r] good LIST by simp_all
    ultimately have "back_line t" unfolding LIST using u by (intro line_list) (simp_all add: show_level del: One_nat_def)
    then show ?thesis using execI pipeI LIST by simp
  next
    case (BACK c)
    have "is_BACK t" using BACK by simp
    then obtain k u where u: "t = (BACK ^^ k) u" "\<not> is_BACK u" "size u < size t" "good_cmd u" using amps_of [of t] good by blast
    have "back_pipe u" using less.hyps [of u] u by simp
    moreover have "show_at 0 t = show_at 1 t" using BACK by (intro show_level(3)) simp
    ultimately have "back_line t" using u show_level(1) [OF u(2)] by (intro line_back [of u t k])
    then show ?thesis using execI pipeI BACK by simp
  qed
qed

section \<open>Properties\<close>





text \<open>
  C14. The parser of the shell inverts printing: a command with proper words, printed with its operators and with parentheses where the
  grammar needs them, is parsed to itself, redirections and nested blocks included.
\<close>

theorem parsecmd_roundtrip:
  assumes "good_cmd t"
  shows "\<exists>c b'. parsecmd (show_at 0 t @ [0]) = Ret (c, b') [] \<and> map_cmd word_of c = t"
proof -
  have z: "0 \<notin> set (show_at k t)" for k
    using assms by (induction t arbitrary: k) (auto simp: good_word_def paren_def)
  then have es: "strlen (show_at 0 t @ [0]) = Some (length (show_at 0 t))" by (simp add: strlen_cstr)
  obtain c where "parseline (5 * length (show_at 0 t) + 5) (show_at 0 t) = Ret c []" "map_cmd word_of c = t"
    using back_lineD [of t "[]" "5 * length (show_at 0 t) + 5"] parse_back [OF assms] by (auto simp: stops_def)
  then show ?thesis by (auto simp: parsecmd_def es peek_def)
qed

definition sample_cmd :: "bytes cmd" where
  "sample_cmd = LIST (BACK (PIPE (EXEC [lit ''ls'', lit ''-l'']) (REDIR (LIST (EXEC [lit ''a'']) (EXEC [])) (lit ''out'') (O_WRONLY OR O_CREATE) 1)))
     (REDIR (EXEC [lit ''wc'']) (lit ''in'') O_RDONLY 0)"

theorem parsecmd_roundtrip_witness:
  "\<exists>c b'. parsecmd (lit ''ls -l |(a ;)>out &;wc <in '' @ [0]) = Ret (c, b') [] \<and> map_cmd word_of c = sample_cmd"
proof -
  have "good_cmd sample_cmd" by (simp add: sample_cmd_def good_word_def in_chars_sets of_char_def)
  moreover have "show_at 0 sample_cmd = lit ''ls -l |(a ;)>out &;wc <in ''" by (simp add: sample_cmd_def paren_def of_char_def)
  ultimately show ?thesis using parsecmd_roundtrip [of sample_cmd] by simp
qed

section \<open>Descriptors of the programs that are started\<close>

text \<open>The first three descriptors are open, as \<^verbatim>\<open>main\<close> ensures.\<close>

definition std_fds :: "fds \<Rightarrow> bool" where
  "std_fds fds \<longleftrightarrow> length fds = NOFILE \<and> (\<forall>i < 3. fds ! i \<noteq> None)"

lemma fd_new_SomeD: "fd_new x fds = Some (i, g) \<Longrightarrow> i < length fds \<and> fds ! i = None \<and> (\<forall>j < i. fds ! j \<noteq> None) \<and> g = fds[i := Some x]"
  by (auto simp: fd_new_def split: option.splits dest: find_idx_SomeD)

lemma fd_new_low:
  assumes "i < length fds" "\<And>j. j < i \<Longrightarrow> fds ! j \<noteq> None" "fds ! i = None"
  shows "fd_new x fds = Some (i, fds[i := Some x])"
  using find_idx_eqI [of i fds "\<lambda>f. f = None"] assms by (simp add: fd_new_def)

lemma redirect:
  assumes "std_fds fds" "i < 3"
  shows "fd_new x (fd_close i fds) = Some (i, fds[i := Some x])"
proof -
  have "fd_new x (fd_close i fds) = Some (i, (fd_close i fds)[i := Some x])"
    using assms by (intro fd_new_low) (auto simp: std_fds_def fd_close_def)
  then show ?thesis by (simp add: fd_close_def)
qed

lemma std_fds_update: "std_fds fds \<Longrightarrow> std_fds (fds[i := Some x])"
proof -
  assume s: "std_fds fds"
  have "fds[i := Some x] ! j \<noteq> None" if "j < 3" for j using s that by (cases "j = i") (auto simp: std_fds_def)
  then show ?thesis using s by (simp add: std_fds_def)
qed

lemma std_free: "std_fds fds \<Longrightarrow> fds ! i = None \<Longrightarrow> 3 \<le> i"
  unfolding std_fds_def using not_le by blast

text \<open>A pipe end moved to descriptor \<open>i\<close>, with both ends closed where they were.\<close>

lemma pipe_end:
  assumes std: "std_fds fds" and p0: "fd_new a fds = Some (p0, fds1)" and p1: "fd_new b fds1 = Some (p1, fds2)" and i: "i < 3"
    and p: "p = p0 \<and> x = a \<or> p = p1 \<and> x = b"
  shows "fd_close p1 (fd_close p0 (fd_dup p (fd_close i fds2))) = fds[i := Some x]"
proof -
  have q0: "p0 < 16" "fds ! p0 = None" "fds1 = fds[p0 := Some a]" using fd_new_SomeD [OF p0] std by (auto simp: std_fds_def)
  have "p1 < 16" "fds1 ! p1 = None" "fds2 = fds1[p1 := Some b]" using fd_new_SomeD [OF p1] std q0 by (auto simp: std_fds_def)
  then have q1: "p1 < 16" "p1 \<noteq> p0" "fds ! p1 = None" "fds2 = fds[p0 := Some a, p1 := Some b]"
    using q0 std by (auto simp: std_fds_def nth_list_update split: if_splits)
  note ge = std_free [OF std q0(2)] std_free [OF std q1(3)]
  have len: "length fds = 16" using std by (simp add: std_fds_def)
  have std2: "std_fds fds2" using std by (simp add: q1(4) std_fds_update)
  have "fd_close i fds2 ! p = Some x" using p q0 q1 ge i len by (auto simp: fd_close_def)
  then have "fd_dup p (fd_close i fds2) = fds2[i := Some x]"
    using redirect [OF std2 i, of x] p q0 q1 len by (auto simp: fd_dup_def fd_close_def)
  then show ?thesis using q0 q1 ge i len
    by (intro nth_equalityI) (auto simp: fd_close_def nth_list_update)
qed

lemma runcmd_fds:
  "std_fds fds \<Longrightarrow> good_cmd c \<Longrightarrow> \<exists>new. w_runs (runcmd c fds w) = w_runs w @ new \<and> (\<forall>(argv, g) \<in> set new. \<forall>i \<ge> 3. g ! i = fds ! i)"
proof (induction c arbitrary: fds w)
  case (EXEC argv)
  then show ?case by (auto simp: w_msg_def split: list.split)
next
  case (REDIR c f m d)
  have d: "nat d < 3" using REDIR.prems(2) by auto
  show ?case
  proof (cases "w_open w f m")
    case True
    have "std_fds (fds[nat d := Some (OFile f m)])" by (rule std_fds_update [OF REDIR.prems(1)])
    from REDIR.IH [OF this, of w] REDIR.prems(2) obtain new where new: "w_runs (runcmd c (fds[nat d := Some (OFile f m)]) w) = w_runs w @ new"
      "\<forall>(argv, g) \<in> set new. \<forall>i \<ge> 3. g ! i = fds[nat d := Some (OFile f m)] ! i" by auto
    then show ?thesis using True redirect [OF REDIR.prems(1) d] d by (intro exI [of _ new]) auto
  qed (simp add: w_msg_def)
next
  case (LIST l r)
  let ?w = "w\<lparr>w_forks := w_forks w - 1\<rparr>"
  obtain n1 where n1: "w_runs (runcmd l fds ?w) = w_runs w @ n1" "\<forall>(argv, g) \<in> set n1. \<forall>i \<ge> 3. g ! i = fds ! i"
    using LIST.IH(1) [of fds ?w] LIST.prems by auto
  obtain n2 where n2: "w_runs (runcmd r fds (runcmd l fds ?w)) = w_runs (runcmd l fds ?w) @ n2" "\<forall>(argv, g) \<in> set n2. \<forall>i \<ge> 3. g ! i = fds ! i"
    using LIST.IH(2) [of fds "runcmd l fds ?w"] LIST.prems by auto
  show ?case
  proof (cases "w_forks w = 0")
    case True
    then show ?thesis by (simp add: or_panic_def fork1_def w_msg_def)
  next
    case False
    then show ?thesis using n1 n2 by (intro exI [of _ "n1 @ n2"]) (auto simp: or_panic_def fork1_def)
  qed
next
  case (BACK c)
  then show ?case using BACK.IH [of fds "w\<lparr>w_forks := w_forks w - 1\<rparr>"] by (auto simp: or_panic_def fork1_def w_msg_def)
next
  case (PIPE l r)
  show ?case
  proof (cases "fd_new (OPipeR (w_pipes w)) fds")
    case None
    then show ?thesis by (simp add: w_msg_def)
  next
    case (Some x)
    obtain p0 fds1 where p0: "fd_new (OPipeR (w_pipes w)) fds = Some (p0, fds1)" using Some by (cases x) auto
    show ?thesis
    proof (cases "fd_new (OPipeW (w_pipes w)) fds1")
      case None
      then show ?thesis using p0 by (simp add: w_msg_def)
    next
      case (Some y)
      obtain p1 fds2 where p1: "fd_new (OPipeW (w_pipes w)) fds1 = Some (p1, fds2)" using Some by (cases y) auto
      let ?w = "w\<lparr>w_pipes := w_pipes w + 1\<rparr>" and ?L = "fds[1 := Some (OPipeW (w_pipes w))]" and ?R = "fds[0 := Some (OPipeR (w_pipes w))]"
      have run: "runcmd (PIPE l r) fds w = or_panic (fork1 (runcmd l ?L) ?w) (lit ''fork'') ?w (\<lambda>w.
         or_panic (fork1 (runcmd r ?R) w) (lit ''fork'') w (\<lambda>w. w))"
        using p0 p1 pipe_end [OF PIPE.prems(1) p0 p1, of 1 p1 "OPipeW (w_pipes w)"]
          pipe_end [OF PIPE.prems(1) p0 p1, of 0 p0 "OPipeR (w_pipes w)"] by (simp add: Let_def)
      let ?v = "runcmd l ?L (?w\<lparr>w_forks := w_forks w - 1\<rparr>)"
      obtain n1 where n1: "w_runs ?v = w_runs w @ n1" "\<forall>(argv, g) \<in> set n1. \<forall>i \<ge> 3. g ! i = fds ! i"
        using PIPE.IH(1) [of ?L "?w\<lparr>w_forks := w_forks w - 1\<rparr>"] std_fds_update [OF PIPE.prems(1)] PIPE.prems(2) by auto
      obtain n2 where n2: "w_runs (runcmd r ?R (?v\<lparr>w_forks := w_forks ?v - 1\<rparr>)) = w_runs ?v @ n2" "\<forall>(argv, g) \<in> set n2. \<forall>i \<ge> 3. g ! i = fds ! i"
        using PIPE.IH(2) [of ?R "?v\<lparr>w_forks := w_forks ?v - 1\<rparr>"] std_fds_update [OF PIPE.prems(1)] PIPE.prems(2) by auto
      consider "w_forks w = 0" | "w_forks w \<noteq> 0" "w_forks ?v = 0" | "w_forks w \<noteq> 0" "w_forks ?v \<noteq> 0" by blast
      then show ?thesis
      proof cases
        case 1
        then show ?thesis unfolding run by (simp add: or_panic_def fork1_def w_msg_def)
      next
        case 2
        then show ?thesis unfolding run using n1 by (intro exI [of _ n1]) (simp add: or_panic_def fork1_def w_msg_def)
      next
        case 3
        then show ?thesis unfolding run using n1 n2 by (intro exI [of _ "n1 @ n2"]) (auto simp: or_panic_def fork1_def)
      qed
    qed
  qed
qed

text \<open>
  C18. No program that a command line starts holds a stray end of a pipe: for every command, started with the three standard
  descriptors open, each program run has, above those three, exactly the descriptors the shell had. The ends of a pipe reach only
  standard input and output, so a reader sees the end of its input when the writers are done.
\<close>

theorem runcmd_descriptors:
  assumes "std_fds fds" "good_cmd c"
  shows "\<exists>new. w_runs (runcmd c fds w) = w_runs w @ new \<and> (\<forall>(argv, g) \<in> set new. \<forall>i \<ge> 3. g ! i = fds ! i)"
  by (rule runcmd_fds [OF assms])

definition sample_world :: world where
  "sample_world = \<lparr>w_prog = (\<lambda>_. True), w_open = (\<lambda>_ _. True), w_forks = 2, w_pipes = 0, w_runs = [], w_msgs = []\<rparr>"

definition sample_fds :: fds where
  "sample_fds = replicate 3 (Some OTerminal) @ replicate 13 None"

theorem runcmd_descriptors_witness:
  "\<exists>g h. w_runs (runcmd (PIPE (EXEC [lit ''a'']) (EXEC [lit ''b''])) sample_fds sample_world) = [([lit ''a''], g), ([lit ''b''], h)] \<and>
     g ! 1 = Some (OPipeW 0) \<and> h ! 0 = Some (OPipeR 0) \<and> g ! 3 = None \<and> h ! 4 = None"
proof -
  let ?c = "PIPE (EXEC [lit ''a'']) (EXEC [lit ''b''])"
  have "std_fds sample_fds" by (simp add: std_fds_def sample_fds_def nth_append)
  moreover have "good_cmd ?c" by (simp add: good_word_def in_chars_sets of_char_def)
  ultimately obtain new where new: "w_runs (runcmd ?c sample_fds sample_world) = new" "\<forall>(argv, g) \<in> set new. \<forall>i \<ge> 3. g ! i = sample_fds ! i"
    using runcmd_descriptors [of sample_fds ?c sample_world] by (auto simp: sample_world_def)
  have "\<exists>g h. new = [([lit ''a''], g), ([lit ''b''], h)] \<and> g ! 1 = Some (OPipeW 0) \<and> h ! 0 = Some (OPipeR 0)"
    unfolding new(1) [symmetric]
    by (simp add: sample_world_def sample_fds_def eval_nat_numeral fd_new_def fd_close_def fd_dup_def or_panic_def fork1_def Let_def of_char_def)
  then obtain g h where g: "new = [([lit ''a''], g), ([lit ''b''], h)]" "g ! 1 = Some (OPipeW 0)" "h ! 0 = Some (OPipeR 0)" by blast
  then have "g ! 3 = None" "h ! 4 = None" using new(2) by (auto simp: sample_fds_def nth_append)
  then show ?thesis using g new(1) by auto
qed

end
