(* ===== verification/Spec2Isabelle.thy ===== *)
theory Spec2Isabelle
  imports Trap Lines Paging Spinlock Grep Shell
begin

text \<open>
  Verification of an xv6 kernel with student additions.
\<close>

section \<open>Properties that span components\<close>

lemma lines_of_in:
  "l \<in> set (lines_of t) \<Longrightarrow> set l \<subseteq> set t \<and> length l \<le> length t"
proof (induction t rule: lines_of.induct)
  case (1 t)
  let ?k = "takeWhile (\<lambda>c. c \<noteq> NEWLINE) t"
  have ne: "t \<noteq> []" and l: "l = ?k \<or> l \<in> set (lines_of (drop (Suc (length ?k)) t))"
    using 1(2) by (auto simp: lines_of.simps [of t] split: if_splits)
  from l show ?case
  proof
    assume "l \<in> set (lines_of (drop (Suc (length ?k)) t))"
    then show ?thesis using 1(1) [OF ne] set_drop_subset [of _ t] by force
  qed (auto simp: length_takeWhile_le dest: set_takeWhileD)
qed



end
